(* ===== verification/Prelude.thy ===== *)
theory Prelude
  imports Main "HOL-Library.Word"
begin

text \<open>
  What every theory of the development shares: the names of the C++ integer
  types as machine words, the combinator that models a chain of calls
  \<open>f(r) && g(r) && h(r)\<close> on a mutable object, and generic lemmas on lists,
  words and that combinator.

  A C++ member function or free function that returns \<^verbatim>\<open>bool\<close> and mutates an
  object is an \<open>action\<close>: from the object before to the returned boolean and
  the object after. The object is returned on failure too, because the code
  leaves a partly advanced reader or a partly filled frame behind.
\<close>

unbundle bit_operations_syntax

subsection \<open>Integer types\<close>

type_synonym byte = "8 word"
type_synonym u16 = "16 word"
type_synonym u32 = "32 word"
type_synonym u64 = "64 word"

text \<open>
  \<^verbatim>\<open>size_t\<close> values that are sizes of objects in memory are \<^typ>\<open>nat\<close>.
\<close>

subsection \<open>Actions and short-circuit chains\<close>

type_synonym 's action = "'s \<Rightarrow> bool \<times> 's"

fun chain :: "'s action list \<Rightarrow> 's action" where
  "chain [] s = (True, s)"
| "chain (f # fs) s = (case f s of (ok, s') \<Rightarrow> if ok then chain fs s' else (False, s'))"

text \<open>A conditional step \<open>(!c || f(r))\<close> and an assignment step \<open>(x = e, true)\<close>.\<close>

definition unless :: "bool \<Rightarrow> 's action \<Rightarrow> 's action" where
  "unless c f s = (if c then (True, s) else f s)"

definition assign :: "('s \<Rightarrow> 's) \<Rightarrow> 's action" where
  "assign f s = (True, f s)"

text \<open>An early return \<open>if (c) return false;\<close> before an action.\<close>

definition fail_if :: "bool \<Rightarrow> 's action \<Rightarrow> 's action" where
  "fail_if c f s = (if c then (False, s) else f s)"

lemma unless_simps [simp]: "unless True f s = (True, s)" "unless False f s = f s"
  by (simp_all add: unless_def)

lemma fail_if_simps [simp]: "fail_if True f s = (False, s)" "fail_if False f s = f s"
  by (simp_all add: fail_if_def)

lemma assign_apply [simp]: "assign f s = (True, f s)"
  by (simp add: assign_def)

lemma chain_append:
  "chain (fs @ gs) s = (case chain fs s of (ok, s') \<Rightarrow> if ok then chain gs s' else (False, s'))"
  by (induction fs arbitrary: s) (auto split: prod.splits)

lemma chain_ok_Cons:
  "chain (f # fs) s = (True, t) \<longleftrightarrow> (\<exists>u. f s = (True, u) \<and> chain fs u = (True, t))"
  by (auto split: prod.splits if_splits)

text \<open>
  An invariant that every step of a chain keeps, whatever it returns, is kept by
  the chain.
\<close>

lemma chain_invariant:
  assumes "\<And>f s. f \<in> set fs \<Longrightarrow> P s \<Longrightarrow> P (snd (f s))" and "P s"
  shows "P (snd (chain fs s))"
  using assms
proof (induction fs arbitrary: s)
  case Nil
  then show ?case by simp
next
  case (Cons f fs)
  have "P (snd (f s))" by (rule Cons.prems) (use Cons.prems(2) in auto)
  moreover have "\<And>g t. g \<in> set fs \<Longrightarrow> P t \<Longrightarrow> P (snd (g t))" using Cons.prems(1) by simp
  ultimately show ?case using Cons.IH by (cases "f s") auto
qed

subsection \<open>Lists\<close>

lemma nth_append_add [simp]: "(xs @ ys) ! (length xs + i) = ys ! i"
  by (simp add: nth_append)

lemma take_length_append [simp]: "take (length xs) (xs @ ys) = xs"
  by simp

lemma length_concat_map_const:
  "(\<And>x. x \<in> set xs \<Longrightarrow> length (f x) = n) \<Longrightarrow> length (concat (map f xs)) = n * length xs"
  by (induction xs) auto

lemma list_eq_take_drop_mid:
  "i + n \<le> length xs \<Longrightarrow> take i xs @ take n (drop i xs) @ drop (i + n) xs = xs"
  by (metis append_assoc append_take_drop_id take_add)

lemma find_total: "\<exists>x\<in>set xs. P x \<Longrightarrow> \<exists>y. find P xs = Some y"
  by (induction xs) auto

lemma find_upt: "find P [0..<n] = Some i \<Longrightarrow> i < n \<and> P i \<and> (\<forall>j<i. \<not> P j)"
  by (auto simp: find_Some_iff)

subsection \<open>Words\<close>

lemma word_less_2p_iff_unat:
  fixes x y :: "'a::len word"
  shows "x < y \<longleftrightarrow> unat x < unat y"
  by (simp add: word_less_nat_alt)

lemma unat_eqI: "unat x = unat y \<Longrightarrow> x = (y :: 'a::len word)"
  by (rule unsigned_word_eqI)

lemma unat_of_nat_le: "n < 2 ^ LENGTH('a) \<Longrightarrow> unat (of_nat n :: 'a::len word) = n"
  by (simp add: unat_of_nat)

lemma unat_2p: "k < LENGTH('a) \<Longrightarrow> unat (2 ^ k :: 'a::len word) = 2 ^ k"
  using unat_of_nat [of "2 ^ k", where 'a = 'a] by simp

lemma bit_lt_2p:
  assumes "(x :: 'a::len word) < 2 ^ k" and "bit x n"
  shows "n < k"
proof -
  have k: "k < LENGTH('a)"
    using assms(1) by (metis exp_eq_zero_iff not_le word_less_1 word_not_simps(1))
  have "unat x < 2 ^ k"
    using assms(1) k by (simp add: word_less_nat_alt unat_2p)
  then have "take_bit k (unat x) = unat x" by (simp add: take_bit_nat_eq_self_iff)
  moreover have "bit (unat x) n" using assms(2) by (simp add: bit_unsigned_iff)
  ultimately show ?thesis by (metis bit_take_bit_iff)
qed

lemma take_bit_self_less:
  assumes "take_bit k (x :: 'a::len word) = x" and "k < LENGTH('a)"
  shows "x < 2 ^ k"
proof -
  have "unat x = take_bit k (unat x)"
    using unsigned_take_bit_eq [of k x, where ?'a = nat] assms(1) by simp
  then have "unat x < 2 ^ k" by (metis take_bit_nat_less_exp)
  then show ?thesis using assms(2) by (simp add: word_less_nat_alt unat_2p)
qed

lemma unat_of_nat_u64: "n < 18446744073709551616 \<Longrightarrow> unat (of_nat n :: u64) = n"
  using unat_of_nat_le [where 'a = 64, of n] by simp

lemma unat_add_u64:
  "unat (x :: u64) + unat y < 18446744073709551616 \<Longrightarrow> unat (x + y) = unat x + unat y"
  by (simp add: unat_word_ariths)

lemma unat_sub_u64: "(y :: u64) \<le> x \<Longrightarrow> unat (x - y) = unat x - unat y"
  by (simp add: unat_sub)

lemma unat_ucast_u32: "unat (ucast (x :: u32) :: u64) = unat x"
  using unsigned_less [of x, where ?'a = nat]
  by (simp add: unsigned_ucast_eq take_bit_nat_eq_self)

lemma unat_u64_bound: "unat (x :: u64) < 18446744073709551616"
  using unsigned_less [of x, where ?'a = nat] by simp

end
