(* ===== verification/Binary.thy ===== *)
theory Binary
  imports Prelude
begin

text \<open>
  The byte-level substrate: \<^verbatim>\<open>view/iovec.h\<close> (sub-views and copying),
  \<^verbatim>\<open>binary/buf.h\<close> (big and little endian integers), \<^verbatim>\<open>binary/reader.h\<close>,
  \<^verbatim>\<open>binary/writer.h\<close> and \<^verbatim>\<open>binary/number.h\<close>.

  A reader or writer is a buffer and an index. The optional stream handler
  (\<^verbatim>\<open>ReadStreamHandler\<close>, \<^verbatim>\<open>WriteStreamHandler\<close>) is a table of user callbacks;
  the protocol code constructs every reader and writer over plain memory, with
  \<^verbatim>\<open>handler == nullptr\<close>, and that mode is what is modelled: \<^verbatim>\<open>stream_read\<close>,
  \<^verbatim>\<open>stream_write\<close> and the direct paths are then no-ops.
\<close>

subsection \<open>Views\<close>

definition rsubstr :: "byte list \<Rightarrow> nat \<Rightarrow> nat \<Rightarrow> byte list" where
  "rsubstr v pos n =
     (if pos > length v then []
      else let n' = (if n > length v - pos then length v - pos else n)
           in take n' (drop pos v))"

text \<open>
  With the default argument \<^verbatim>\<open>n = ~0\<close>: no size exceeds it, so the length is
  always clipped to what is left.
\<close>

definition rsubstr_from :: "byte list \<Rightarrow> nat \<Rightarrow> byte list" where
  "rsubstr_from v pos = (if pos > length v then [] else drop pos v)"

text \<open>
  The copy function: copies the common prefix into the destination; the result
  is 0 for equal sizes, \<^verbatim>\<open>-1\<close> if the destination is the smaller one, 1 if the
  source is.
\<close>

definition copy_fn :: "byte list \<Rightarrow> byte list \<Rightarrow> int \<times> byte list" where
  "copy_fn dst src =
     (let dlen = length dst; slen = length src;
          mlen = (if dlen < slen then dlen else slen);
          res = (if slen = dlen then 0 else if mlen = dlen then -1 else 1)
      in (res, take mlen src @ drop mlen dst))"

subsection \<open>Endian conversion\<close>

definition sizeof :: "'a::len word itself \<Rightarrow> nat" where
  "sizeof (_ :: 'a word itself) = LENGTH('a) div 8"

definition write_be :: "'a::len word \<Rightarrow> byte list" where
  "write_be x =
     map (\<lambda>i. ucast (drop_bit ((sizeof TYPE('a word) - 1 - i) * 8) x AND 0xff))
         [0..<sizeof TYPE('a word)]"

definition write_le :: "'a::len word \<Rightarrow> byte list" where
  "write_le x = map (\<lambda>i. ucast (drop_bit (i * 8) x AND 0xff)) [0..<sizeof TYPE('a word)]"

definition read_be :: "byte list \<Rightarrow> 'a::len word" where
  "read_be bs =
     fold (\<lambda>i out. out OR push_bit ((sizeof TYPE('a word) - 1 - i) * 8) (ucast (bs ! i)))
          [0..<sizeof TYPE('a word)] 0"

definition read_le :: "byte list \<Rightarrow> 'a::len word" where
  "read_le bs =
     fold (\<lambda>i out. out OR push_bit (i * 8) (ucast (bs ! i))) [0..<sizeof TYPE('a word)] 0"

subsection \<open>Reader\<close>

record reader =
  r_buf :: "byte list"
  r_index :: nat

definition make_reader :: "byte list \<Rightarrow> reader" where
  "make_reader b = \<lparr>r_buf = b, r_index = 0\<rparr>"

definition reader_offset :: "nat \<Rightarrow> reader \<Rightarrow> reader" where
  "reader_offset add r =
     (if length (r_buf r) - r_index r < add then r\<lparr>r_index := length (r_buf r)\<rparr>
      else r\<lparr>r_index := r_index r + add\<rparr>)"

definition reader_remain :: "reader \<Rightarrow> byte list" where
  "reader_remain r = rsubstr_from (r_buf r) (r_index r)"

definition reader_empty :: "reader \<Rightarrow> bool" where
  "reader_empty r = (length (r_buf r) = r_index r)"

definition reader_reset :: "nat \<Rightarrow> reader \<Rightarrow> reader" where
  "reader_reset pos r =
     (if length (r_buf r) < pos then r\<lparr>r_index := length (r_buf r)\<rparr> else r\<lparr>r_index := pos\<rparr>)"

text \<open>\<^verbatim>\<open>read()\<close> without arguments: the part already read.\<close>

definition reader_already_read :: "reader \<Rightarrow> byte list" where
  "reader_already_read r = rsubstr (r_buf r) 0 (r_index r)"

definition read_best_internal :: "nat \<Rightarrow> reader \<Rightarrow> byte list \<times> reader" where
  "read_best_internal n r = (rsubstr (r_buf r) (r_index r) n, reader_offset n r)"

text \<open>\<^verbatim>\<open>read_best(~0)\<close>: everything that is left.\<close>

definition read_best_all :: "reader \<Rightarrow> byte list \<times> reader" where
  "read_best_all r =
     (rsubstr_from (r_buf r) (r_index r), r\<lparr>r_index := length (r_buf r)\<rparr>)"

definition read_internal :: "nat \<Rightarrow> reader \<Rightarrow> (byte list \<times> bool) \<times> reader" where
  "read_internal n r =
     (let before = r_index r; (data, r') = read_best_internal n r
      in if length data \<noteq> n then ((data, False), r'\<lparr>r_index := before\<rparr>)
         else ((data, True), r'))"

definition reader_read :: "nat \<Rightarrow> reader \<Rightarrow> (byte list \<times> bool) \<times> reader" where
  "reader_read n r = read_internal n r"

text \<open>\<^verbatim>\<open>load_stream\<close> and \<^verbatim>\<open>top\<close>: the next byte, or 0 at the end.\<close>

definition reader_load_stream :: "nat \<Rightarrow> reader \<Rightarrow> bool" where
  "reader_load_stream n r = (length (reader_remain r) \<ge> n)"

definition reader_top :: "reader \<Rightarrow> byte" where
  "reader_top r = (if reader_load_stream 1 r then reader_remain r ! 0 else 0)"

subsection \<open>Writer\<close>

record writer =
  w_buf :: "byte list"
  w_index :: nat

definition make_writer :: "byte list \<Rightarrow> writer" where
  "make_writer b = \<lparr>w_buf = b, w_index = 0\<rparr>"

definition writer_remain :: "writer \<Rightarrow> byte list" where
  "writer_remain w = rsubstr_from (w_buf w) (w_index w)"

definition written :: "writer \<Rightarrow> byte list" where
  "written w = rsubstr (w_buf w) 0 (w_index w)"

definition writer_full :: "writer \<Rightarrow> bool" where
  "writer_full w = (length (w_buf w) = w_index w)"

definition writer_offset :: "nat \<Rightarrow> writer \<Rightarrow> writer" where
  "writer_offset add w =
     (if length (w_buf w) - w_index w < add then w\<lparr>w_index := length (w_buf w)\<rparr>
      else w\<lparr>w_index := w_index w + add\<rparr>)"

definition writer_reset :: "nat \<Rightarrow> writer \<Rightarrow> writer" where
  "writer_reset pos w =
     (if length (w_buf w) < pos then w\<lparr>w_index := length (w_buf w)\<rparr> else w\<lparr>w_index := pos\<rparr>)"

definition prepare_stream :: "nat \<Rightarrow> writer \<Rightarrow> bool" where
  "prepare_stream n w = (length (writer_remain w) \<ge> n)"

text \<open>\<^verbatim>\<open>write(view)\<close>: copies what fits; on overflow the index moves to the end.\<close>

definition writer_write :: "byte list \<Rightarrow> writer action" where
  "writer_write t w =
     (let (res, dst) = copy_fn (writer_remain w) t;
          buf = take (w_index w) (w_buf w) @ dst
      in if res < 0 then (False, w\<lparr>w_buf := buf, w_index := length (w_buf w)\<rparr>)
         else (True, w\<lparr>w_buf := buf, w_index := w_index w + length t\<rparr>))"

text \<open>\<^verbatim>\<open>write(data, n)\<close>: \<open>n\<close> copies of one byte, as many as fit.\<close>

definition writer_fill :: "byte \<Rightarrow> nat \<Rightarrow> writer action" where
  "writer_fill data n w =
     (let k = length (rsubstr (w_buf w) (w_index w) n)
      in (k = n, w\<lparr>w_buf := take (w_index w) (w_buf w) @ replicate k data
                              @ drop (w_index w + k) (w_buf w),
                    w_index := w_index w + k\<rparr>))"

definition push_back :: "byte \<Rightarrow> writer \<Rightarrow> writer" where
  "push_back add w =
     (if writer_remain w = [] then w
      else writer_offset 1 (w\<lparr>w_buf := (w_buf w)[w_index w := add]\<rparr>))"

text \<open>Bytes stored into the first places of \<^verbatim>\<open>remain()\<close>, the index unchanged.\<close>

definition store_at_index :: "byte list \<Rightarrow> writer \<Rightarrow> writer" where
  "store_at_index bs w =
     w\<lparr>w_buf := take (w_index w) (w_buf w) @ bs @ drop (w_index w + length bs) (w_buf w)\<rparr>"

subsection \<open>Numbers\<close>

definition read_num :: "bool \<Rightarrow> 'a::len word \<Rightarrow> reader \<Rightarrow> (bool \<times> 'a word) \<times> reader" where
  "read_num be old r =
     (case read_internal (sizeof TYPE('a word)) r of
        ((data, ok), r') \<Rightarrow>
          if \<not> ok then ((False, old), r')
          else ((True, if be then read_be data else read_le data), r'))"

definition write_num :: "bool \<Rightarrow> 'a::len word \<Rightarrow> writer action" where
  "write_num be x w =
     (if \<not> prepare_stream (sizeof TYPE('a word)) w then (False, w)
      else (True, writer_offset (sizeof TYPE('a word))
                    (store_at_index (if be then write_be x else write_le x) w)))"

definition write_uint24 :: "bool \<Rightarrow> u32 \<Rightarrow> writer action" where
  "write_uint24 be x w =
     (if x > 0xffffff then (False, w)
      else if length (writer_remain w) < 3 then (False, w)
      else let hi = ucast (drop_bit 16 x AND 0xff); mid = ucast (drop_bit 8 x AND 0xff);
               lo = ucast (x AND 0xff)
           in (True, writer_offset 3 (store_at_index (if be then [hi, mid, lo] else [lo, mid, hi]) w)))"

definition read_uint24 :: "bool \<Rightarrow> u32 \<Rightarrow> reader \<Rightarrow> (bool \<times> u32) \<times> reader" where
  "read_uint24 be old r =
     (case reader_read 3 r of
        ((data, ok), r') \<Rightarrow>
          if \<not> ok then ((False, old), r')
          else ((True, push_bit 8 (ucast (data ! 1))
                       OR push_bit (if be then 16 else 0) (ucast (data ! 0))
                       OR push_bit (if be then 0 else 16) (ucast (data ! 2))), r'))"

subsection \<open>Well-formed readers and writers\<close>

definition reader_wf :: "reader \<Rightarrow> bool" where
  "reader_wf r \<longleftrightarrow> r_index r \<le> length (r_buf r)"

definition writer_wf :: "writer \<Rightarrow> bool" where
  "writer_wf w \<longleftrightarrow> w_index w \<le> length (w_buf w)"

text \<open>
  The state of a well-formed reader, seen as what was read and what is left;
  and a write as one operation on the writer.
\<close>

definition rd :: "byte list \<Rightarrow> byte list \<Rightarrow> reader" where
  "rd pre rest = \<lparr>r_buf = pre @ rest, r_index = length pre\<rparr>"

definition emit :: "byte list \<Rightarrow> writer \<Rightarrow> writer" where
  "emit bs w = (store_at_index bs w)\<lparr>w_index := w_index w + length bs\<rparr>"

definition room :: "writer \<Rightarrow> nat" where
  "room w = length (w_buf w) - w_index w"

lemma reader_wf_cases:
  assumes "reader_wf r"
  obtains pre rest where "r = rd pre rest"
proof
  show "r = rd (take (r_index r) (r_buf r)) (drop (r_index r) (r_buf r))"
    using assms by (cases r) (simp add: rd_def reader_wf_def)
qed

lemma rd_fields [simp]:
  "r_buf (rd pre rest) = pre @ rest" "r_index (rd pre rest) = length pre"
  "reader_wf (rd pre rest)" "reader_remain (rd pre rest) = rest"
  "reader_empty (rd pre rest) \<longleftrightarrow> rest = []"
  "reader_already_read (rd pre rest) = pre"
  by (auto simp: rd_def reader_wf_def reader_remain_def rsubstr_from_def reader_empty_def
      reader_already_read_def rsubstr_def)

lemma make_reader_rd: "make_reader b = rd [] b"
  by (simp add: make_reader_def rd_def)

lemma rd_inject: "rd pre rest = rd pre' rest' \<longleftrightarrow> pre = pre' \<and> rest = rest'"
  by (auto simp: rd_def)

lemma reader_offset_rd: "n \<le> length rest \<Longrightarrow> reader_offset n (rd pre rest) = rd (pre @ take n rest) (drop n rest)"
  by (simp add: rd_def reader_offset_def)

lemma reader_top_rd: "reader_top (rd pre rest) = (if rest = [] then 0 else hd rest)"
  by (cases rest) (simp_all add: reader_top_def reader_load_stream_def)

lemma read_best_all_rd [simp]: "read_best_all (rd pre rest) = (rest, rd (pre @ rest) [])"
  by (simp add: read_best_all_def rsubstr_from_def rd_def)

lemma read_internal_rd:
  "read_internal n (rd pre rest) =
     (if n \<le> length rest then ((take n rest, True), rd (pre @ take n rest) (drop n rest))
      else ((rest, False), rd pre rest))"
proof (cases "n \<le> length rest")
  case True
  then show ?thesis
    by (simp add: read_internal_def read_best_internal_def rsubstr_def rd_def reader_offset_def)
next
  case False
  then show ?thesis
    by (auto simp: read_internal_def read_best_internal_def rsubstr_def rd_def reader_offset_def)
qed

lemma reader_read_rd:
  "reader_read n (rd pre rest) =
     (if n \<le> length rest then ((take n rest, True), rd (pre @ take n rest) (drop n rest))
      else ((rest, False), rd pre rest))"
  by (simp add: reader_read_def read_internal_rd)

lemma reader_read_append [simp]:
  "length bs = n \<Longrightarrow> reader_read n (rd pre (bs @ rest)) = ((bs, True), rd (pre @ bs) rest)"
  by (simp add: reader_read_rd)

text \<open>
  Every read keeps the buffer, moves the index forward and never past the end.
\<close>

definition advances :: "reader \<Rightarrow> reader \<Rightarrow> bool" where
  "advances r r' \<longleftrightarrow> r_buf r' = r_buf r \<and> r_index r \<le> r_index r' \<and> reader_wf r'"

lemma advances_refl: "reader_wf r \<Longrightarrow> advances r r"
  by (simp add: advances_def)

lemma advances_trans [trans]: "advances a b \<Longrightarrow> advances b c \<Longrightarrow> advances a c"
  by (auto simp: advances_def)

lemma advances_wf: "advances r r' \<Longrightarrow> reader_wf r'"
  by (simp add: advances_def)

lemma read_internal_advances: "reader_wf r \<Longrightarrow> advances r (snd (read_internal n r))"
  by (erule reader_wf_cases) (auto simp: read_internal_rd advances_def)

lemma reader_read_advances: "reader_wf r \<Longrightarrow> advances r (snd (reader_read n r))"
  by (simp add: reader_read_def read_internal_advances)

lemma read_best_all_advances: "reader_wf r \<Longrightarrow> advances r (snd (read_best_all r))"
  by (erule reader_wf_cases) (simp add: advances_def)

lemma reader_offset_advances: "reader_wf r \<Longrightarrow> advances r (reader_offset n r)"
  by (auto simp: advances_def reader_offset_def reader_wf_def)

subsection \<open>Writes as \<open>emit\<close>\<close>

lemma room_remain: "length (writer_remain w) = room w"
  by (auto simp: writer_remain_def rsubstr_from_def room_def)

lemma emit_wf: "writer_wf w \<Longrightarrow> length bs \<le> room w \<Longrightarrow> writer_wf (emit bs w)"
  by (auto simp: writer_wf_def emit_def store_at_index_def room_def)

lemma emit_length [simp]:
  "writer_wf w \<Longrightarrow> length bs \<le> room w \<Longrightarrow> length (w_buf (emit bs w)) = length (w_buf w)"
  by (auto simp: emit_def store_at_index_def room_def writer_wf_def)

lemma emit_index [simp]: "w_index (emit bs w) = w_index w + length bs"
  by (simp add: emit_def)

lemma emit_room: "writer_wf w \<Longrightarrow> length bs \<le> room w \<Longrightarrow> room (emit bs w) = room w - length bs"
  by (simp add: room_def)

lemma emit_Nil [simp]: "writer_wf w \<Longrightarrow> emit [] w = w"
  by (simp add: emit_def store_at_index_def)

lemma emit_append:
  assumes "writer_wf w" and "length a + length b \<le> room w"
  shows "emit b (emit a w) = emit (a @ b) w"
  using assms by (auto simp: emit_def store_at_index_def writer_wf_def room_def ac_simps)

lemma written_emit:
  "writer_wf w \<Longrightarrow> length bs \<le> room w \<Longrightarrow> written (emit bs w) = written w @ bs"
  by (auto simp: written_def rsubstr_def emit_def store_at_index_def writer_wf_def room_def)

lemma writer_write_emit:
  "writer_wf w \<Longrightarrow> length t \<le> room w \<Longrightarrow> writer_write t w = (True, emit t w)"
  by (auto simp: writer_write_def copy_fn_def writer_remain_def rsubstr_from_def emit_def
      store_at_index_def writer_wf_def room_def Let_def add.commute)

lemma writer_write_wf: "writer_wf w \<Longrightarrow> writer_wf (snd (writer_write t w))"
  by (auto simp: writer_write_def copy_fn_def writer_remain_def rsubstr_from_def writer_wf_def
      writer_offset_def Let_def)

lemma writer_write_overflow:
  "writer_wf w \<Longrightarrow> room w < length t \<Longrightarrow> fst (writer_write t w) = False"
  by (auto simp: writer_write_def copy_fn_def writer_remain_def rsubstr_from_def writer_wf_def
      room_def Let_def)

lemma writer_offset_store:
  "writer_wf w \<Longrightarrow> length bs \<le> room w \<Longrightarrow> length bs = n
   \<Longrightarrow> writer_offset n (store_at_index bs w) = emit bs w"
  by (auto simp: writer_offset_def emit_def store_at_index_def writer_wf_def room_def)

subsection \<open>Endian round trips\<close>

lemma sizeof_simps [simp]:
  "sizeof TYPE(8 word) = 1" "sizeof TYPE(16 word) = 2" "sizeof TYPE(32 word) = 4"
  "sizeof TYPE(64 word) = 8"
  by (simp_all add: sizeof_def)

lemma length_write_be [simp]: "length (write_be (x :: 'a::len word)) = sizeof TYPE('a word)"
  by (simp add: write_be_def)

lemma length_write_le [simp]: "length (write_le (x :: 'a::len word)) = sizeof TYPE('a word)"
  by (simp add: write_le_def)

lemma bit_fold_or:
  "bit (fold (\<lambda>i out. out OR f i) xs (a :: 'a::len word)) n \<longleftrightarrow> bit a n \<or> (\<exists>i\<in>set xs. bit (f i) n)"
  by (induction xs arbitrary: a) (auto simp: bit_or_iff)

lemma bit_byte_of:
  "bit (ucast (drop_bit k x AND 0xff) :: byte) n \<longleftrightarrow> n < 8 \<and> bit (x :: 'a::len word) (k + n)"
proof -
  have m: "(0xff :: 'a word) = mask 8" by (simp add: mask_eq_exp_minus_1)
  show ?thesis unfolding m
    by (auto simp: bit_and_iff bit_drop_bit_eq bit_mask_iff bit_unsigned_iff
        dest: bit_imp_le_length)
qed

lemma byte_position:
  "k * 8 \<le> n \<Longrightarrow> n - k * 8 < 8 \<Longrightarrow> n div 8 = k \<and> n mod 8 = n - k * 8" for k n :: nat
  by (metis add.right_neutral div_mult_self3 div_less le_add_diff_inverse mod_less
      mod_mult_self3 zero_neq_numeral)

lemma bit_read_be:
  fixes bs :: "byte list"
  assumes "8 dvd LENGTH('a::len)"
  shows "bit (read_be bs :: 'a word) n \<longleftrightarrow>
    n < LENGTH('a) \<and> bit (bs ! (sizeof TYPE('a word) - 1 - n div 8)) (n mod 8)"
proof -
  let ?sz = "sizeof TYPE('a word)"
  have sz: "LENGTH('a) = ?sz * 8" using assms by (simp add: sizeof_def)
  have "bit (read_be bs :: 'a word) n \<longleftrightarrow>
     (\<exists>i<?sz. (?sz - 1 - i) * 8 \<le> n \<and> n < LENGTH('a) \<and> bit (bs ! i) (n - (?sz - 1 - i) * 8))"
    by (auto simp: read_be_def bit_fold_or bit_simps)
  also have "\<dots> \<longleftrightarrow> n < LENGTH('a) \<and> bit (bs ! (?sz - 1 - n div 8)) (n mod 8)" (is "?L \<longleftrightarrow> ?R")
  proof
    assume ?L
    then obtain i where i: "i < ?sz" "(?sz - 1 - i) * 8 \<le> n" "n < LENGTH('a)"
      "bit (bs ! i) (n - (?sz - 1 - i) * 8)" by blast
    from i(4) have lt: "n - (?sz - 1 - i) * 8 < 8" using bit_imp_le_length by fastforce
    from byte_position [OF i(2) lt] i show ?R by simp
  next
    assume r: ?R
    then have "n div 8 < ?sz" using sz by (simp add: div_less_iff_less_mult)
    then have "?sz - 1 - (?sz - 1 - n div 8) = n div 8" by simp
    with r \<open>n div 8 < ?sz\<close> show ?L
      by (intro exI [of _ "?sz - 1 - n div 8"])
        (simp add: minus_div_mult_eq_mod)
  qed
  finally show ?thesis .
qed

lemma bit_read_le:
  fixes bs :: "byte list"
  assumes "8 dvd LENGTH('a::len)"
  shows "bit (read_le bs :: 'a word) n \<longleftrightarrow> n < LENGTH('a) \<and> bit (bs ! (n div 8)) (n mod 8)"
proof -
  let ?sz = "sizeof TYPE('a word)"
  have sz: "LENGTH('a) = ?sz * 8" using assms by (simp add: sizeof_def)
  have "bit (read_le bs :: 'a word) n \<longleftrightarrow>
     (\<exists>i<?sz. i * 8 \<le> n \<and> n < LENGTH('a) \<and> bit (bs ! i) (n - i * 8))"
    by (auto simp: read_le_def bit_fold_or bit_simps)
  also have "\<dots> \<longleftrightarrow> n < LENGTH('a) \<and> bit (bs ! (n div 8)) (n mod 8)" (is "?L \<longleftrightarrow> ?R")
  proof
    assume ?L
    then obtain i where i: "i < ?sz" "i * 8 \<le> n" "n < LENGTH('a)" "bit (bs ! i) (n - i * 8)"
      by blast
    from i(4) have lt: "n - i * 8 < 8" using bit_imp_le_length by fastforce
    from byte_position [OF i(2) lt] i show ?R by simp
  next
    assume r: ?R
    then have "n div 8 < ?sz" using sz by (simp add: div_less_iff_less_mult)
    with r show ?L
      by (intro exI [of _ "n div 8"]) (simp add: minus_div_mult_eq_mod)
  qed
  finally show ?thesis .
qed

lemma read_be_write_be:
  assumes "8 dvd LENGTH('a::len)"
  shows "read_be (write_be (x :: 'a word) @ rest) = x"
proof (rule bit_word_eqI)
  fix n assume n: "n < LENGTH('a)"
  let ?sz = "sizeof TYPE('a word)"
  have sz: "LENGTH('a) = ?sz * 8" using assms by (simp add: sizeof_def)
  with n have d: "n div 8 < ?sz" by (simp add: div_less_iff_less_mult)
  then have "(write_be x @ rest) ! (?sz - 1 - n div 8) = ucast (drop_bit (n div 8 * 8) x AND 0xff)"
    by (simp add: write_be_def nth_append)
  then show "bit (read_be (write_be x @ rest) :: 'a word) n = bit x n"
    using n by (simp add: bit_read_be [OF assms] bit_byte_of)
qed

lemma read_le_write_le:
  assumes "8 dvd LENGTH('a::len)"
  shows "read_le (write_le (x :: 'a word) @ rest) = x"
proof (rule bit_word_eqI)
  fix n assume n: "n < LENGTH('a)"
  have sz: "LENGTH('a) = sizeof TYPE('a word) * 8" using assms by (simp add: sizeof_def)
  with n have d: "n div 8 < sizeof TYPE('a word)" by (simp add: div_less_iff_less_mult)
  then have "(write_le x @ rest) ! (n div 8) = ucast (drop_bit (n div 8 * 8) x AND 0xff)"
    by (simp add: write_le_def nth_append)
  then show "bit (read_le (write_le x @ rest) :: 'a word) n = bit x n"
    using n by (simp add: bit_read_le [OF assms] bit_byte_of)
qed

lemma write_num_emit:
  "writer_wf w \<Longrightarrow> sizeof TYPE('a word) \<le> room w
   \<Longrightarrow> write_num be (x :: 'a::len word) w = (True, emit (if be then write_be x else write_le x) w)"
  by (auto simp: write_num_def prepare_stream_def room_remain writer_offset_store)

lemma write_num_full:
  "room w < sizeof TYPE('a word) \<Longrightarrow> write_num be (x :: 'a::len word) w = (False, w)"
  by (auto simp: write_num_def prepare_stream_def room_remain)

lemma read_num_append:
  assumes "8 dvd LENGTH('a::len)"
  shows "read_num be old (rd pre ((if be then write_be (x :: 'a word) else write_le x) @ rest))
       = ((True, x), rd (pre @ (if be then write_be x else write_le x)) rest)"
  using read_be_write_be [OF assms, of x "[]"] read_le_write_le [OF assms, of x "[]"]
  by (simp add: read_num_def read_internal_rd)

lemma read_num_advances: "reader_wf r \<Longrightarrow> advances r (snd (read_num be old r))"
  using read_internal_advances by (auto simp: read_num_def split: prod.splits) (metis snd_conv)+

end
