(* ===== verification/Varint.thy ===== *)
theory Varint
  imports Binary
begin

text \<open>
  QUIC variable-length integers, \<^verbatim>\<open>fnet/quic/varint.h\<close>: the value type with its
  optional encoding length, the reader and the writer, and their round trip.
\<close>

subsection \<open>Values and lengths\<close>

record varint =
  vval :: u64
  vlen :: byte

text \<open>The converting constructor \<^verbatim>\<open>Value(std::uint64_t)\<close>: length 0, chosen on write.\<close>

definition Value :: "u64 \<Rightarrow> varint" where
  "Value v = \<lparr>vval = v, vlen = 0\<rparr>"

definition border :: "byte \<Rightarrow> u64" where
  "border len =
     (if len = 1 then 0x40 else if len = 2 then 0x4000 else if len = 4 then 0x40000000
      else if len = 8 then 0x4000000000000000 else 0)"

definition in_range :: "u64 \<Rightarrow> byte \<Rightarrow> bool" where
  "in_range v len = (v < border len)"

definition min_len :: "u64 \<Rightarrow> nat" where
  "min_len v =
     (if in_range v 1 then 1 else if in_range v 2 then 2 else if in_range v 4 then 4
      else if in_range v 8 then 8 else 0)"

definition is_min_len :: "varint \<Rightarrow> bool" where
  "is_min_len x = (min_len (vval x) = unat (vlen x))"

definition len_mask :: "byte \<Rightarrow> byte" where
  "len_mask len =
     (if len = 1 then 0x00 else if len = 2 then 0x40 else if len = 4 then 0x80
      else if len = 8 then 0xC0 else 0xff)"

definition len_bit_mask :: "byte \<Rightarrow> u64" where
  "len_bit_mask bwide =
     (if bwide = 1 then 0xC0 else if bwide = 2 then 0xC000 else if bwide = 4 then 0xC0000000
      else if bwide = 8 then 0xC000000000000000 else 0)"

definition mask_to_len :: "byte \<Rightarrow> byte" where
  "mask_to_len b =
     (let m = b AND 0xC0 in
      if m = 0x00 then 1 else if m = 0x40 then 2 else if m = 0x80 then 4
      else if m = 0xC0 then 8 else 0)"

text \<open>\<^verbatim>\<open>len(Value)\<close>: the stated length, or the least one.\<close>

definition varint_len :: "varint \<Rightarrow> byte" where
  "varint_len x = (if vlen x = 0 then of_nat (min_len (vval x)) else vlen x)"

subsection \<open>Reading and writing\<close>

definition read_unchecked :: "byte list \<Rightarrow> byte \<Rightarrow> u64" where
  "read_unchecked input len =
     (if len = 1 then ucast (input ! 0) AND NOT (len_bit_mask len)
      else if len = 2 then ucast (read_be input :: u16) AND NOT (len_bit_mask len)
      else if len = 4 then ucast (read_be input :: u32) AND NOT (len_bit_mask len)
      else if len = 8 then (read_be input :: u64) AND NOT (len_bit_mask len)
      else NOT 0)"

definition varint_read :: "reader \<Rightarrow> (varint \<times> bool) \<times> reader" where
  "varint_read input =
     (if reader_empty input then ((Value 0, False), input)
      else let l = mask_to_len (reader_remain input ! 0) in
        case reader_read (unat l) input of
          ((data, ok), input') \<Rightarrow>
            if \<not> ok then ((\<lparr>vval = 0, vlen = l\<rparr>, False), input')
            else ((\<lparr>vval = read_unchecked data l, vlen = l\<rparr>, True), input'))"

text \<open>\<^verbatim>\<open>write_be(value)[0] |= mask\<close>.\<close>

definition or_first :: "byte \<Rightarrow> byte list \<Rightarrow> byte list" where
  "or_first m bs = bs[0 := bs ! 0 OR m]"

definition write_unchecked :: "u64 \<Rightarrow> byte \<Rightarrow> byte list" where
  "write_unchecked v len =
     (if len = 1 then [ucast v]
      else if len = 2 then or_first (len_mask 2) (write_be (ucast v :: u16))
      else if len = 4 then or_first (len_mask 4) (write_be (ucast v :: u32))
      else if len = 8 then or_first (len_mask 8) (write_be v)
      else [])"

definition varint_write :: "varint \<Rightarrow> writer action" where
  "varint_write x output =
     (if vlen x = 0 then
        (let len = min_len (vval x) in
         if len = 0 then (False, output)
         else if length (writer_remain output) < len then (False, output)
         else (True, writer_offset len (store_at_index (write_unchecked (vval x) (of_nat len)) output)))
      else
        (if \<not> in_range (vval x) (vlen x) then (False, output)
         else if length (writer_remain output) < unat (vlen x) then (False, output)
         else (True, writer_offset (unat (vlen x))
                       (store_at_index (write_unchecked (vval x) (vlen x)) output))))"

subsection \<open>The encoding and its domain\<close>

definition venc :: "varint \<Rightarrow> byte list" where
  "venc x = write_unchecked (vval x) (varint_len x)"

definition varint_ok :: "varint \<Rightarrow> bool" where
  "varint_ok x \<longleftrightarrow> in_range (vval x) (varint_len x)"

text \<open>A value as it is after being read back: its length is explicit.\<close>

definition vnorm :: "varint \<Rightarrow> varint" where
  "vnorm x = \<lparr>vval = vval x, vlen = varint_len x\<rparr>"

lemma border_pos_iff: "0 < border len \<longleftrightarrow> len \<in> {1, 2, 4, 8}"
  by (auto simp: border_def)

lemma varint_ok_len: "varint_ok x \<Longrightarrow> varint_len x \<in> {1, 2, 4, 8}"
  using border_pos_iff [of "varint_len x"] le_less_trans [OF word_zero_le, of "vval x"]
  unfolding varint_ok_def in_range_def by blast

lemma min_len_cases: "min_len v \<in> {0, 1, 2, 4, 8}"
  by (auto simp: min_len_def)

lemma unat_of_nat_min_len [simp]: "unat (of_nat (min_len v) :: byte) = min_len v"
  using min_len_cases [of v] by auto

lemma in_range_zero [simp]: "\<not> in_range v 0"
  by (simp add: in_range_def border_def)

lemma in_range_min_len [simp]: "in_range v (of_nat (min_len v)) \<longleftrightarrow> 0 < min_len v"
proof (cases "min_len v = 0")
  case False
  then show ?thesis unfolding min_len_def by (simp split: if_splits)
qed simp

lemma min_len_pos: "0 < min_len v \<longleftrightarrow> v < 0x4000000000000000"
proof (cases "v < 0x4000000000000000")
  case True
  then show ?thesis by (simp add: min_len_def in_range_def border_def)
next
  case False
  then show ?thesis by (simp add: min_len_def in_range_def border_def word_less_nat_alt)
qed

lemma varint_ok_Value: "varint_ok (Value v) \<longleftrightarrow> v < 0x4000000000000000"
  by (simp add: varint_ok_def varint_len_def Value_def flip: min_len_pos)

lemma length_or_first [simp]: "length (or_first m bs) = length bs"
  by (simp add: or_first_def)

lemma length_venc: "varint_ok x \<Longrightarrow> length (venc x) = unat (varint_len x)"
  using varint_ok_len [of x] by (auto simp: venc_def write_unchecked_def)

lemma venc_ge_1: "varint_ok x \<Longrightarrow> 1 \<le> length (venc x) \<and> length (venc x) \<le> 8"
  using varint_ok_len [of x] by (auto simp: length_venc)

lemma varint_write_emit:
  assumes "varint_ok x" and "writer_wf w" and "length (venc x) \<le> room w"
  shows "varint_write x w = (True, emit (venc x) w)"
  using assms length_venc [OF assms(1)]
  by (auto simp: varint_write_def varint_ok_def varint_len_def venc_def room_remain
      writer_offset_store Let_def split: if_splits)

lemma varint_write_fail:
  assumes "\<not> varint_ok x \<or> room w < length (venc x)"
  shows "varint_write x w = (False, w)"
proof (cases "varint_ok x")
  case True
  with assms length_venc [OF True] have "room w < unat (varint_len x)" by simp
  then show ?thesis
    by (cases "vlen x = 0") (auto simp: varint_write_def varint_len_def room_remain Let_def)
next
  case False
  then show ?thesis
    by (cases "vlen x = 0") (auto simp: varint_write_def varint_ok_def varint_len_def)
qed

subsection \<open>Round trip\<close>

lemma bit_write_be:
  assumes "i < sizeof TYPE('a::len word)"
  shows "bit (write_be (x :: 'a word) ! i) n \<longleftrightarrow> n < 8 \<and> bit x ((sizeof TYPE('a word) - 1 - i) * 8 + n)"
  using assms by (simp add: write_be_def bit_byte_of)

text \<open>Setting the two top bits of the encoded integer is setting them in its first byte.\<close>

lemma or_first_write_be:
  assumes "8 dvd LENGTH('a::len)"
  shows "or_first m (write_be (x :: 'a word)) = write_be (x OR push_bit (LENGTH('a) - 8) (ucast m))"
proof (rule nth_equalityI)
  let ?sz = "sizeof TYPE('a word)"
  show "length (or_first m (write_be x)) = length (write_be (x OR push_bit (LENGTH('a) - 8) (ucast m)))"
    by simp
  fix i assume "i < length (or_first m (write_be x))"
  then have i: "i < ?sz" by simp
  have sz: "LENGTH('a) = ?sz * 8" using assms by (simp add: sizeof_def)
  show "or_first m (write_be x) ! i = write_be (x OR push_bit (LENGTH('a) - 8) (ucast m)) ! i"
  proof (rule bit_word_eqI)
    fix n assume n: "n < LENGTH(8)"
    have top: "(?sz - 1 - i) * 8 + n < LENGTH('a)" using i n sz by (cases i) auto
    have le: "LENGTH('a) - 8 \<le> (?sz - 1 - i) * 8 + n \<longleftrightarrow> i = 0"
      using i n sz by (cases i) (auto simp: algebra_simps)
    have z: "i = 0 \<Longrightarrow> (?sz - 1 - i) * 8 + n - (LENGTH('a) - 8) = n"
      using sz by (simp add: algebra_simps)
    show "bit (or_first m (write_be x) ! i) n
        = bit (write_be (x OR push_bit (LENGTH('a) - 8) (ucast m)) ! i) n"
      using i n top le z
      by (cases "i = 0") (auto simp: or_first_def bit_write_be bit_or_iff bit_push_bit_iff
          bit_unsigned_iff)
  qed
qed


lemma bit_0xC0:
  assumes "8 \<le> LENGTH('a::len)"
  shows "bit (0xC0 :: 'a word) n \<longleftrightarrow> n = 6 \<or> n = 7"
proof -
  have e: "(0xC0 :: 'a word) = push_bit 6 (mask 2)" by (simp add: mask_eq_exp_minus_1 push_bit_eq_mult)
  have "bit (0xC0 :: 'a word) n \<longleftrightarrow> 6 \<le> n \<and> n < LENGTH('a) \<and> n - 6 < 2"
    unfolding e by (auto simp: bit_push_bit_iff bit_mask_iff)
  with assms show ?thesis by auto
qed

lemma masked_bits: "(m :: byte) AND 0xC0 = m \<Longrightarrow> bit m i \<Longrightarrow> i = 6 \<or> i = 7"
proof -
  assume "m AND 0xC0 = m" and "bit m i"
  then have "bit (m AND 0xC0) i" by simp
  then have "bit (0xC0 :: byte) i" unfolding bit_and_iff by blast
  then show ?thesis using bit_0xC0 [where 'a = 8, of i] by simp
qed

lemma first_byte_masked:
  assumes "8 dvd LENGTH('a::len)" and "(x :: 'a word) < 2 ^ (LENGTH('a) - 2)" and "m AND 0xC0 = m"
  shows "(or_first m (write_be x) ! 0) AND 0xC0 = m"
proof (rule bit_word_eqI)
  let ?sz = "sizeof TYPE('a word)"
  fix n assume n: "n < LENGTH(8)"
  obtain k where k: "LENGTH('a) = 8 * k" using assms(1) by (auto simp: dvd_def)
  then have sz: "LENGTH('a) = ?sz * 8" "0 < ?sz"
    using len_gt_0 [where 'a = 'a] by (auto simp: sizeof_def simp del: len_gt_0)
  have c: "bit (0xC0 :: byte) n \<longleftrightarrow> n = 6 \<or> n = 7" by (rule bit_0xC0) simp
  have "bit x ((?sz - 1) * 8 + n) \<Longrightarrow> n < 6"
    using bit_lt_2p [OF assms(2)] sz by (fastforce simp: algebra_simps)
  then show "bit ((or_first m (write_be x) ! 0) AND 0xC0) n = bit m n"
    using sz n c masked_bits [OF assms(3)]
    by (auto simp: or_first_def bit_and_iff bit_or_iff bit_write_be)
qed

lemma unmask:
  fixes v :: u64 and m :: byte
  assumes "8 \<le> LENGTH('a::len)" "LENGTH('a) \<le> 64" "v < 2 ^ (LENGTH('a) - 2)" "m AND 0xC0 = m"
  shows "(ucast ((ucast v :: 'a word) OR push_bit (LENGTH('a) - 8) (ucast m)) :: u64)
         AND NOT (push_bit (LENGTH('a) - 8) 0xC0) = v"
    (is "?l = _")
proof (rule bit_word_eqI)
  fix n assume n: "n < LENGTH(64)"
  let ?k = "LENGTH('a) - 8"
  have v: "bit v n \<Longrightarrow> n < LENGTH('a) - 2" using bit_lt_2p [OF assms(3)] .
  have m: "bit m (n - ?k) \<Longrightarrow> n - ?k = 6 \<or> n - ?k = 7" by (rule masked_bits [OF assms(4)])
  have c: "bit (0xC0 :: u64) (n - ?k) \<longleftrightarrow> n - ?k = 6 \<or> n - ?k = 7" by (rule bit_0xC0) simp
  have "bit ?l n \<longleftrightarrow> n < LENGTH('a) \<and> (bit v n \<or> ?k \<le> n \<and> bit m (n - ?k))
      \<and> \<not> (?k \<le> n \<and> (n - ?k = 6 \<or> n - ?k = 7))"
    using n assms(1,2) unfolding bit_and_iff bit_or_iff bit_not_iff bit_push_bit_iff bit_unsigned_iff c
    by (auto dest: bit_imp_le_length)
  also have "\<dots> \<longleftrightarrow> bit v n"
    using v m assms(1) by auto
  finally show "bit ?l n = bit v n" .
qed

lemma ucast_lt_2p:
  assumes "(v :: u64) < 2 ^ (LENGTH('a::len) - 2)" and "LENGTH('a) \<le> 64" and "8 \<le> LENGTH('a)"
  shows "(ucast v :: 'a word) < 2 ^ (LENGTH('a) - 2)"
proof -
  have "unat v < 2 ^ (LENGTH('a) - 2)"
    using assms by (simp add: word_less_nat_alt unat_2p)
  moreover have "unat (ucast v :: 'a word) \<le> unat v"
    by (simp add: unsigned_ucast_eq take_bit_nat_less_eq_self)
  ultimately show ?thesis using assms(3) by (simp add: word_less_nat_alt unat_2p)
qed

text \<open>The generic case of the round trip, for the lengths 2, 4 and 8.\<close>

lemma read_unchecked_write:
  fixes v :: u64
  assumes "8 dvd LENGTH('a::len)" "8 \<le> LENGTH('a)" "LENGTH('a) \<le> 64"
    and "v < 2 ^ (LENGTH('a) - 2)" and "m AND 0xC0 = m"
  shows "(ucast (read_be (or_first m (write_be (ucast v :: 'a word))) :: 'a word) :: u64)
       AND NOT (push_bit (LENGTH('a) - 8) 0xC0) = v"
    and "(or_first m (write_be (ucast v :: 'a word)) ! 0) AND 0xC0 = m"
proof -
  have "read_be (or_first m (write_be (ucast v :: 'a word)))
      = (ucast v :: 'a word) OR push_bit (LENGTH('a) - 8) (ucast m)"
    using read_be_write_be [OF assms(1), where rest = "[]"] assms(1) by (simp add: or_first_write_be)
  then show "(ucast (read_be (or_first m (write_be (ucast v :: 'a word))) :: 'a word) :: u64)
       AND NOT (push_bit (LENGTH('a) - 8) 0xC0) = v"
    using unmask [OF assms(2-5)] by simp
  show "(or_first m (write_be (ucast v :: 'a word)) ! 0) AND 0xC0 = m"
    by (rule first_byte_masked [OF assms(1) _ assms(5)]) (rule ucast_lt_2p [OF assms(4,3,2)])
qed

lemma varint_1: "v < 0x40 \<Longrightarrow> (ucast v :: byte) AND 0xC0 = 0 \<and> ucast (ucast v :: byte) AND NOT (0xC0 :: u64) = v"
  for v :: u64
proof -
  assume "v < 0x40"
  then have b: "bit v n \<Longrightarrow> n < 6" for n using bit_lt_2p [of v 6 n] by simp
  have c8: "bit (0xC0 :: byte) n \<longleftrightarrow> n = 6 \<or> n = 7" for n by (rule bit_0xC0) simp
  have c64: "bit (0xC0 :: u64) n \<longleftrightarrow> n = 6 \<or> n = 7" for n by (rule bit_0xC0) simp
  have "(ucast v :: byte) AND 0xC0 = 0"
    by (rule bit_word_eqI) (unfold bit_and_iff bit_unsigned_iff c8, auto dest: b)
  moreover have "ucast (ucast v :: byte) AND NOT (0xC0 :: u64) = v"
    by (rule bit_word_eqI)
      (unfold bit_and_iff bit_not_iff bit_unsigned_iff c64, auto dest: b)
  ultimately show ?thesis ..
qed

lemma venc_decodes:
  assumes "varint_ok x"
  shows "mask_to_len (venc x ! 0) = varint_len x" and "read_unchecked (venc x) (varint_len x) = vval x"
proof -
  let ?v = "vval x"
  from varint_ok_len [OF assms] consider "varint_len x = 1" | "varint_len x = 2"
    | "varint_len x = 4" | "varint_len x = 8" by blast
  then have "mask_to_len (venc x ! 0) = varint_len x
      \<and> read_unchecked (venc x) (varint_len x) = vval x"
  proof cases
    case 1
    then have "?v < 0x40" using assms by (simp add: varint_ok_def in_range_def border_def)
    from varint_1 [OF this] 1 show ?thesis
      by (simp add: venc_def write_unchecked_def mask_to_len_def read_unchecked_def len_bit_mask_def)
  next
    case 2
    then have "?v < 2 ^ (LENGTH(16) - 2)" using assms by (simp add: varint_ok_def in_range_def border_def)
    from read_unchecked_write [where 'a = 16 and m = "0x40", OF _ _ _ this] 2 show ?thesis
      by (simp add: venc_def write_unchecked_def mask_to_len_def read_unchecked_def len_bit_mask_def
          len_mask_def push_bit_eq_mult)
  next
    case 3
    then have "?v < 2 ^ (LENGTH(32) - 2)" using assms by (simp add: varint_ok_def in_range_def border_def)
    from read_unchecked_write [where 'a = 32 and m = "0x80", OF _ _ _ this] 3 show ?thesis
      by (simp add: venc_def write_unchecked_def mask_to_len_def read_unchecked_def len_bit_mask_def
          len_mask_def push_bit_eq_mult)
  next
    case 4
    then have "?v < 2 ^ (LENGTH(64) - 2)" using assms by (simp add: varint_ok_def in_range_def border_def)
    from read_unchecked_write [where 'a = 64 and m = "0xC0", OF _ _ _ this] 4 show ?thesis
      by (simp add: venc_def write_unchecked_def mask_to_len_def read_unchecked_def len_bit_mask_def
          len_mask_def push_bit_eq_mult)
  qed
  then show "mask_to_len (venc x ! 0) = varint_len x"
    and "read_unchecked (venc x) (varint_len x) = vval x" by blast+
qed

lemma varint_read_venc:
  assumes "varint_ok x"
  shows "varint_read (rd pre (venc x @ rest)) = ((vnorm x, True), rd (pre @ venc x) rest)"
proof -
  have l: "length (venc x) = unat (varint_len x)" by (rule length_venc [OF assms])
  have ne: "venc x \<noteq> []" using venc_ge_1 [OF assms] by auto
  have "(venc x @ rest) ! 0 = venc x ! 0" using ne by (cases "venc x") auto
  then show ?thesis
    using ne l venc_decodes [OF assms] by (simp add: varint_read_def vnorm_def Let_def)
qed

subsection \<open>Every successful read is canonical\<close>

lemma varint_read_advances: "reader_wf r \<Longrightarrow> advances r (snd (varint_read r))"
  using reader_read_advances [of r] advances_refl [of r]
  by (auto simp: varint_read_def Let_def split: prod.splits) (metis snd_conv)+

lemma write_be_read_be:
  assumes "8 dvd LENGTH('a::len)" and "length bs = sizeof TYPE('a word)"
  shows "write_be (read_be bs :: 'a word) = bs"
proof (rule nth_equalityI)
  let ?sz = "sizeof TYPE('a word)"
  show "length (write_be (read_be bs :: 'a word)) = length bs" by (simp add: assms(2))
  fix i assume "i < length (write_be (read_be bs :: 'a word))"
  then have i: "i < ?sz" by simp
  have sz: "LENGTH('a) = ?sz * 8" using assms by (simp add: sizeof_def)
  show "write_be (read_be bs :: 'a word) ! i = bs ! i"
  proof (rule bit_word_eqI)
    fix n assume n: "n < LENGTH(8)"
    have "(?sz - 1 - i) * 8 + n < LENGTH('a)" using i n sz by (cases i) auto
    then show "bit (write_be (read_be bs :: 'a word) ! i) n = bit (bs ! i) n"
      using i n by (simp add: bit_write_be bit_read_be [OF assms(1)])
  qed
qed

text \<open>The top two bits of an integer read from bytes are those of the first byte.\<close>

lemma remask:
  fixes y :: "'a::len word" and m :: byte
  assumes "8 dvd LENGTH('a)" "8 \<le> LENGTH('a)" "LENGTH('a) \<le> 64" "(write_be y ! 0) AND 0xC0 = m"
  shows "(ucast ((ucast y :: u64) AND NOT (push_bit (LENGTH('a) - 8) 0xC0)) :: 'a word)
         OR push_bit (LENGTH('a) - 8) (ucast m) = y" (is "?l = _")
proof (rule bit_word_eqI)
  fix n assume n: "n < LENGTH('a)"
  let ?k = "LENGTH('a) - 8"
  have sz: "LENGTH('a) = sizeof TYPE('a word) * 8" "0 < sizeof TYPE('a word)"
    using assms(1,2) by (auto simp: sizeof_def elim!: dvdE)
  have c8: "bit (0xC0 :: byte) i \<longleftrightarrow> i = 6 \<or> i = 7" for i by (rule bit_0xC0) simp
  have c64: "bit (0xC0 :: u64) i \<longleftrightarrow> i = 6 \<or> i = 7" for i by (rule bit_0xC0) simp
  have m: "bit m i \<longleftrightarrow> (i = 6 \<or> i = 7) \<and> bit y (?k + i)" for i
    using sz unfolding assms(4) [symmetric] bit_and_iff c8
    by (auto simp: bit_write_be algebra_simps)
  have "bit ?l n \<longleftrightarrow> bit y n \<and> \<not> (?k \<le> n \<and> (n - ?k = 6 \<or> n - ?k = 7)) \<or> ?k \<le> n \<and> bit m (n - ?k)"
    using n assms(2,3)
    unfolding bit_and_iff bit_or_iff bit_not_iff bit_push_bit_iff bit_unsigned_iff c64
    by (auto dest: bit_imp_le_length)
  also have "\<dots> \<longleftrightarrow> bit y n"
  proof (cases "?k \<le> n")
    case True
    then have "?k + (n - ?k) = n" by simp
    with m [of "n - ?k"] True show ?thesis by metis
  qed simp
  finally show "bit ?l n = bit y n" .
qed

lemma write_unchecked_read:
  fixes bs :: "byte list"
  assumes "8 dvd LENGTH('a::len)" "8 \<le> LENGTH('a)" "LENGTH('a) \<le> 64"
    and "length bs = sizeof TYPE('a word)" and "(bs ! 0) AND 0xC0 = m"
  shows "or_first m (write_be (ucast ((ucast (read_be bs :: 'a word) :: u64)
           AND NOT (push_bit (LENGTH('a) - 8) 0xC0)) :: 'a word)) = bs"
  using assms remask [OF assms(1-3), of "read_be bs" m]
  by (simp add: or_first_write_be write_be_read_be)

lemma masked_bound:
  fixes y :: "'a::len word"
  assumes "8 \<le> LENGTH('a)" "LENGTH('a) \<le> 64"
  shows "(ucast y :: u64) AND NOT (push_bit (LENGTH('a) - 8) 0xC0) < 2 ^ (LENGTH('a) - 2)" (is "?x < _")
proof -
  have c64: "bit (0xC0 :: u64) i \<longleftrightarrow> i = 6 \<or> i = 7" for i by (rule bit_0xC0) simp
  have "take_bit (LENGTH('a) - 2) ?x = ?x"
  proof (rule bit_word_eqI)
    fix n assume n: "n < LENGTH(64)"
    show "bit (take_bit (LENGTH('a) - 2) ?x) n = bit ?x n"
      using n assms unfolding bit_take_bit_iff bit_and_iff bit_not_iff bit_push_bit_iff bit_unsigned_iff c64
      by (auto dest: bit_imp_le_length)
  qed
  then show ?thesis using assms by (intro take_bit_self_less) auto
qed

lemma mask_to_len_cases:
  obtains "mask_to_len b = 1" "b AND 0xC0 = 0" | "mask_to_len b = 2" "b AND 0xC0 = 0x40"
    | "mask_to_len b = 4" "b AND 0xC0 = 0x80" | "mask_to_len b = 8" "b AND 0xC0 = 0xC0"
proof -
  have "b AND 0xC0 = 0 \<or> b AND 0xC0 = 0x40 \<or> b AND 0xC0 = 0x80 \<or> b AND 0xC0 = 0xC0"
  proof -
    have c8: "bit (0xC0 :: byte) i \<longleftrightarrow> i = 6 \<or> i = 7" for i by (rule bit_0xC0) simp
    have e6: "bit (0x40 :: byte) i \<longleftrightarrow> i = 6" for i
      using bit_exp_iff [where 'a = "8 word", of 6 i] by auto
    have e7: "bit (0x80 :: byte) i \<longleftrightarrow> i = 7" for i
      using bit_exp_iff [where 'a = "8 word", of 7 i] by auto
    have "b AND 0xC0 = (if bit b 6 then if bit b 7 then 0xC0 else 0x40 else if bit b 7 then 0x80 else 0)"
      by (rule bit_word_eqI, cases "bit b 6"; cases "bit b 7"; simp only: if_True if_False)
        (unfold bit_and_iff c8 e6 e7 bit_0_eq, auto)
    then show ?thesis by (simp split: if_splits)
  qed
  then show ?thesis by (elim disjE) (auto simp: mask_to_len_def intro: that)
qed

lemma varint_1_read: "b AND 0xC0 = 0 \<Longrightarrow> [ucast (ucast b AND NOT (0xC0 :: u64))] = [b] \<and> ucast b AND NOT (0xC0 :: u64) < 0x40"
  for b :: byte
proof -
  assume z: "b AND 0xC0 = 0"
  have c8: "bit (0xC0 :: byte) n \<longleftrightarrow> n = 6 \<or> n = 7" for n by (rule bit_0xC0) simp
  have c64: "bit (0xC0 :: u64) n \<longleftrightarrow> n = 6 \<or> n = 7" for n by (rule bit_0xC0) simp
  have "\<not> bit b 6 \<and> \<not> bit b 7" using z c8 by (metis bit_0_eq bit_and_iff bot_apply bot_bool_def)
  then have "ucast (ucast b AND NOT (0xC0 :: u64)) = b"
    by (intro bit_word_eqI) (unfold bit_and_iff bit_not_iff bit_unsigned_iff c64, auto)
  moreover have "ucast b AND NOT (0xC0 :: u64) < 0x40"
    using masked_bound [where 'a = 8, of b] by simp
  ultimately show ?thesis by simp
qed

lemma write_read_unchecked:
  assumes "length bs = unat (mask_to_len (bs ! 0))"
  defines "l \<equiv> mask_to_len (bs ! 0)"
  shows "write_unchecked (read_unchecked bs l) l = bs \<and> in_range (read_unchecked bs l) l"
proof -
  show ?thesis
  proof (cases rule: mask_to_len_cases [of "bs ! 0"])
    case 1
    then obtain b where "bs = [b]" using assms(1) by (cases bs) auto
    with 1 varint_1_read [of b] show ?thesis
      by (simp add: l_def write_unchecked_def read_unchecked_def len_bit_mask_def in_range_def border_def)
  next
    case 2
    with assms(1) write_unchecked_read [where 'a = 16, of bs] masked_bound [where 'a = 16, of "read_be bs"]
    show ?thesis
      by (simp add: l_def write_unchecked_def read_unchecked_def len_bit_mask_def in_range_def border_def
          len_mask_def push_bit_eq_mult)
  next
    case 3
    with assms(1) write_unchecked_read [where 'a = 32, of bs] masked_bound [where 'a = 32, of "read_be bs"]
    show ?thesis
      by (simp add: l_def write_unchecked_def read_unchecked_def len_bit_mask_def in_range_def border_def
          len_mask_def push_bit_eq_mult)
  next
    case 4
    with assms(1) write_unchecked_read [where 'a = 64, of bs] masked_bound [where 'a = 64, of "read_be bs"]
    show ?thesis
      by (simp add: l_def write_unchecked_def read_unchecked_def len_bit_mask_def in_range_def border_def
          len_mask_def push_bit_eq_mult)
  qed
qed

text \<open>
  A successful read consumed exactly the encoding of the value it returned.
\<close>

lemma varint_read_consumes:
  assumes "varint_read (rd pre rest) = ((x, True), r')"
  obtains rest' where "rest = venc x @ rest'" "r' = rd (pre @ venc x) rest'" "varint_ok x" "vlen x \<noteq> 0"
proof -
  let ?l = "mask_to_len (rest ! 0)" and ?n = "unat (mask_to_len (rest ! 0))"
  from assms have ne: "rest \<noteq> []" by (auto simp: varint_read_def)
  with assms have le: "?n \<le> length rest" and x: "x = \<lparr>vval = read_unchecked (take ?n rest) ?l, vlen = ?l\<rparr>"
    and r': "r' = rd (pre @ take ?n rest) (drop ?n rest)"
    by (auto simp: varint_read_def reader_read_rd Let_def split: if_splits)
  have l0: "?l \<noteq> 0" "0 < ?n" by (cases rule: mask_to_len_cases [of "rest ! 0"], auto)+
  then have hd: "take ?n rest ! 0 = rest ! 0" by simp
  have "write_unchecked (read_unchecked (take ?n rest) ?l) ?l = take ?n rest"
    and "in_range (read_unchecked (take ?n rest) ?l) ?l"
    using write_read_unchecked [of "take ?n rest"] le hd by auto
  then have "venc x = take ?n rest" "varint_ok x"
    using x l0 by (auto simp: venc_def varint_len_def varint_ok_def)
  then show ?thesis using r' x l0 by (intro that [of "drop ?n rest"]) auto
qed

lemmas varint_eval = varint_write_def varint_len_def Value_def min_len_def in_range_def border_def
  make_writer_def writer_remain_def rsubstr_from_def rsubstr_def writer_offset_def store_at_index_def
  write_unchecked_def or_first_def len_mask_def write_be_def written_def drop_bit_eq_div upt_rec

lemma varint_read_moves:
  assumes "reader_wf r" "varint_read r = ((x, True), r')"
  shows "r_index r < r_index r'"
proof -
  obtain pre rest where r: "r = rd pre rest" using assms(1) by (rule reader_wf_cases)
  from assms(2) obtain rest' where "r' = rd (pre @ venc x) rest'" "varint_ok x"
    unfolding r by (rule varint_read_consumes)
  then show ?thesis using venc_ge_1 [of x] by (auto simp: r)
qed

subsection \<open>Properties\<close>

text \<open>
  C14. A value that fits its stated (or least) length and the room that is left
  is written as its encoding and nothing else, and a reader placed where the
  writer was reads the same value back and stops right after it.
\<close>

theorem varint_roundtrip:
  assumes "varint_ok x" and "writer_wf w" and "unat (varint_len x) \<le> room w"
  shows "\<exists>w'. varint_write x w = (True, w') \<and> writer_wf w' \<and> length (w_buf w') = length (w_buf w)
     \<and> length (written w') = length (written w) + unat (varint_len x)
     \<and> (\<forall>rest. varint_read (rd (written w) (drop (length (written w)) (written w') @ rest))
               = ((\<lparr>vval = vval x, vlen = varint_len x\<rparr>, True), rd (written w') rest))"
proof -
  have l: "length (venc x) \<le> room w" using assms length_venc by simp
  have "written (emit (venc x) w) = written w @ venc x" using assms(2) l by (rule written_emit)
  then show ?thesis
    using assms l varint_write_emit [OF assms(1,2) l] varint_read_venc [OF assms(1)] length_venc [OF assms(1)]
    by (auto simp: emit_wf vnorm_def)
qed

theorem varint_roundtrip_witness:
  "\<exists>w'. varint_write (Value 15293) (make_writer (replicate 4 0)) = (True, w')
     \<and> written w' = [0x7b, 0xbd]
     \<and> varint_read (rd [] ([0x7b, 0xbd] @ [7])) = ((\<lparr>vval = 15293, vlen = 2\<rparr>, True), rd [0x7b, 0xbd] [7])"
proof -
  let ?w = "make_writer (replicate 4 0)"
  have h: "varint_ok (Value 15293)" "writer_wf ?w" "unat (varint_len (Value 15293)) \<le> room ?w"
    by (simp add: varint_ok_Value)
      (simp_all add: writer_wf_def make_writer_def room_def varint_len_def Value_def min_len_def
        in_range_def border_def)
  obtain w' where w': "varint_write (Value 15293) ?w = (True, w')"
    and rt: "\<And>rest. varint_read (rd (written ?w) (drop (length (written ?w)) (written w') @ rest))
       = ((\<lparr>vval = vval (Value 15293), vlen = varint_len (Value 15293)\<rparr>, True), rd (written w') rest)"
    using varint_roundtrip [OF h] by blast
  have "written (snd (varint_write (Value 15293) ?w)) = [0x7b, 0xbd]" by (simp add: varint_eval)
  moreover have "written ?w = []" by (simp add: varint_eval)
  moreover have "varint_len (Value 15293) = 2" "vval (Value 15293) = 15293" by (simp_all add: varint_eval)
  ultimately show ?thesis using w' rt [of "[7]"] by simp
qed

text \<open>
  C29. Whatever the bytes, a successful read consumed exactly the encoding of the
  value it returned, that value is in the range of its length, and a failed read
  leaves the reader where it was.
\<close>

theorem varint_read_canonical:
  "case varint_read (rd pre rest) of
     ((x, True), r') \<Rightarrow> varint_ok x \<and> vlen x \<in> {1, 2, 4, 8}
        \<and> (\<exists>rest'. rest = write_unchecked (vval x) (vlen x) @ rest'
               \<and> r' = rd (pre @ write_unchecked (vval x) (vlen x)) rest')
   | ((x, False), r') \<Rightarrow> r' = rd pre rest"
proof -
  obtain x ok r' where fields: "varint_read (rd pre rest) = ((x, ok), r')" by (metis surj_pair)
  show ?thesis
  proof (cases ok)
    case True
    with fields have eq: "varint_read (rd pre rest) = ((x, True), r')" by simp
    then obtain rest' where c: "rest = venc x @ rest'" "r' = rd (pre @ venc x) rest'" "varint_ok x" "vlen x \<noteq> 0"
      by (rule varint_read_consumes)
    then have "varint_len x = vlen x" by (simp add: varint_len_def)
    with c eq varint_ok_len [OF c(3)] show ?thesis by (auto simp: venc_def)
  next
    case False
    with fields show ?thesis
      by (auto simp: varint_read_def reader_read_rd Let_def split: if_splits)
  qed
qed

text \<open>
  C30. Writing fails exactly when the value does not fit its length or the length
  does not fit the room, and a failed write changes nothing.
\<close>

theorem varint_write_decides:
  assumes "writer_wf w"
  shows "(fst (varint_write x w) \<longleftrightarrow> vval x < border (varint_len x) \<and> unat (varint_len x) \<le> room w)
     \<and> (\<not> fst (varint_write x w) \<longrightarrow> snd (varint_write x w) = w)"
proof -
  have ok: "varint_ok x \<longleftrightarrow> vval x < border (varint_len x)" by (simp add: varint_ok_def in_range_def)
  show ?thesis
    using varint_write_emit [OF _ assms, of x] varint_write_fail [of x w] length_venc [of x]
    unfolding ok [symmetric] by (metis fst_conv not_le snd_conv)
qed

theorem varint_write_decides_witness:
  "\<not> fst (varint_write (Value 0x4000000000000000) (make_writer (replicate 9 0)))
   \<and> fst (varint_write (Value 5) (make_writer (replicate 9 0)))"
proof -
  have wf: "writer_wf (make_writer (replicate 9 0))" by (simp add: writer_wf_def make_writer_def)
  show ?thesis
    using varint_write_decides [OF wf, of "Value 5"] varint_write_decides [OF wf, of "Value 0x4000000000000000"]
    by (simp add: Value_def varint_len_def min_len_def in_range_def border_def room_def make_writer_def)
qed

text \<open>
  The least length is the least: no legal length shorter than \<^verbatim>\<open>min_len\<close> can
  hold the value, and a value that some length can hold has one.
\<close>

lemma min_len_least:
  assumes "in_range v l"
  shows "0 < min_len v \<and> min_len v \<le> unat l \<and> in_range v (of_nat (min_len v))"
proof -
  from assms have "l \<in> {1, 2, 4, 8}"
    using border_pos_iff [of l] le_less_trans [OF word_zero_le, of v "border l"]
    by (auto simp: in_range_def)
  moreover have "0 < min_len v"
    using assms calculation unfolding min_len_pos by (auto simp: in_range_def border_def word_less_nat_alt)
  moreover have "min_len v \<le> unat l"
    using assms calculation(1) by (auto simp: min_len_def)
  ultimately show ?thesis by simp
qed

end
