(* ===== verification/PacketNumber.thy ===== *)
theory PacketNumber
  imports Varint
begin

text \<open>
  QUIC packet numbers on the wire, \<^verbatim>\<open>fnet/quic/packet_number.h\<close>: truncation to
  one to four bytes on sending, expansion against the largest number received.

  \<^verbatim>\<open>decode\<close> computes the window as \<^verbatim>\<open>1 << (len << 3)\<close> on \<^verbatim>\<open>int\<close>; for a
  four-byte number the shift count is the width of the type, which is undefined
  behaviour in C++. The model returns \<open>Undefined\<close> there.
\<close>

subsection \<open>Model\<close>

record WireVal =
  wv_val :: u32
  wv_len :: byte

datatype pn_result = Decoded u64 | Wire_len_error | Undefined

definition infinity :: u64 where
  "infinity = NOT 0"

definition is_wire_len :: "byte \<Rightarrow> bool" where
  "is_wire_len len = (1 \<le> len \<and> len \<le> 4)"

definition pn_delta :: "u64 \<Rightarrow> u64 \<Rightarrow> u64" where
  "pn_delta a b = (if a < b then b - a else a - b)"

definition pn_closer :: "u64 \<Rightarrow> u64 \<Rightarrow> u64 \<Rightarrow> u64" where
  "pn_closer t a b = (if pn_delta t a < pn_delta t b then a else b)"

definition pn_decode :: "u32 \<Rightarrow> byte \<Rightarrow> u64 \<Rightarrow> pn_result" where
  "pn_decode v len largest_pn =
     (if \<not> is_wire_len len then Wire_len_error
      else if 32 \<le> unat len * 8 then Undefined
      else
        let expected_pn = largest_pn + 1;
            pn_win = push_bit (unat len * 8) 1;
            pn_mask = pn_win - 1;
            base = expected_pn AND NOT pn_mask;
            nxt = base + pn_win;
            prev = (if base < pn_win then 0 else base - pn_win)
        in Decoded (pn_closer expected_pn (base + ucast v)
                      (pn_closer expected_pn (prev + ucast v) (nxt + ucast v))))"

text \<open>The index of the highest set bit; \<^verbatim>\<open>~0\<close> for 0.\<close>

definition shift_count :: "u64 \<Rightarrow> u64" where
  "shift_count b =
     (if b = 1 then 0
      else if b = 2 \<or> b = 3 then 1
      else case find (\<lambda>i. b AND push_bit (63 - i) 1 \<noteq> 0) [0..<64] of
             Some i \<Rightarrow> of_nat (63 - i)
           | None \<Rightarrow> NOT 0)"

definition pn_encode :: "u64 \<Rightarrow> u64 \<Rightarrow> WireVal option" where
  "pn_encode pn largest_ack =
     (let num_unacked = (if largest_ack = NOT 0 then pn + 1 else pn - largest_ack);
          min_bits = shift_count num_unacked + 1;
          min_bytes = min_bits div 8 + (if min_bits mod 8 \<noteq> 0 then 1 else 0);
          wire = (\<lambda>(m :: u32) len. Some \<lparr>wv_val = ucast (pn AND ucast m), wv_len = len\<rparr>)
      in if min_bytes = 1 then wire 0xff 1
         else if min_bytes = 2 then wire 0xffff 2
         else if min_bytes = 3 then wire 0xffffff 3
         else if min_bytes = 4 then wire 0xffffffff 4
         else None)"

definition pn_write :: "WireVal \<Rightarrow> writer action" where
  "pn_write x w =
     (if \<not> is_wire_len (wv_len x) then (False, w)
      else writer_write (drop (4 - unat (wv_len x)) (write_be (wv_val x))) w)"

definition pn_read :: "byte \<Rightarrow> reader \<Rightarrow> WireVal option \<times> reader" where
  "pn_read len r =
     (if \<not> is_wire_len len then (None, r)
      else case reader_read (unat len) r of
        ((buf, ok), r') \<Rightarrow>
          if \<not> ok then (None, r')
          else (Some \<lparr>wv_val = read_be (replicate (4 - unat len) 0 @ buf), wv_len = len\<rparr>, r'))"

subsection \<open>Arithmetic of the window\<close>

lemma pn_delta_unat: "unat (pn_delta a b) = (if unat a < unat b then unat b - unat a else unat a - unat b)"
  by (auto simp: pn_delta_def word_less_nat_alt word_le_nat_alt unat_sub)

lemma is_wire_len_iff: "is_wire_len len \<longleftrightarrow> unat len \<in> {1, 2, 3, 4}"
  by (auto simp: is_wire_len_def word_le_nat_alt)

lemma unat_base:
  assumes "k < 64"
  shows "unat ((e :: u64) AND NOT (push_bit k 1 - 1)) = unat e div 2 ^ k * 2 ^ k"
proof -
  have m: "push_bit k (1 :: u64) - 1 = mask k" by (simp add: mask_eq_exp_minus_1 push_bit_eq_mult)
  have "e AND NOT (mask k) = push_bit k (drop_bit k e)"
    by (rule bit_word_eqI) (auto simp: bit_simps)
  then have "unat (e AND NOT (mask k)) = unat (push_bit k (drop_bit k e))" by simp
  also have "\<dots> = unat e div 2 ^ k * 2 ^ k"
    using unat_u64_bound [of e] le_less_trans [OF div_times_less_eq_dividend unat_u64_bound [of e], of "2 ^ k"]
    unfolding unsigned_push_bit_eq unsigned_drop_bit_eq push_bit_nat_eq drop_bit_nat_eq
    by (simp add: push_bit_eq_mult drop_bit_eq_div take_bit_eq_mod)
  finally show ?thesis using m by simp
qed

text \<open>
  The choice of the candidate, on natural numbers: if the true number is closer
  than half a window to the expected one, it is the candidate the code selects.
\<close>

lemma div_base:
  fixes e win :: nat
  assumes "0 < win"
  shows "e div win * win \<le> e" "e < e div win * win + win"
  using assms mod_less_divisor [OF assms, of e] div_mult_mod_eq [of e win] by linarith+

lemma candidate_nat:
  fixes e pn win :: nat
  assumes "0 < win" "e < pn + win div 2" "pn < e + win div 2"
  defines "base \<equiv> e div win * win" and "v \<equiv> pn mod win"
  shows "pn = base + v \<or> (win \<le> base \<and> pn = base - win + v) \<or> pn = base + win + v"
proof -
  have e: "base \<le> e" "e < base + win"
    using div_base [OF assms(1)] by (simp_all add: base_def)
  have pn: "pn = pn div win * win + v" "v < win" using assms(1) by (auto simp: v_def)
  let ?q = "pn div win" and ?b = "e div win"
  have "?q \<le> ?b + 1"
  proof (rule ccontr)
    assume "\<not> ?q \<le> ?b + 1"
    then have "(?b + 2) * win \<le> ?q * win" by (intro mult_le_mono1) simp
    then have "base + 2 * win \<le> pn" using pn(1) by (simp add: base_def algebra_simps)
    then show False using e(2) assms(3) by linarith
  qed
  moreover have "?b \<le> ?q + 1"
  proof (rule ccontr)
    assume "\<not> ?b \<le> ?q + 1"
    then have "(?q + 2) * win \<le> ?b * win" by (intro mult_le_mono1) simp
    then have "?q * win + 2 * win \<le> base" by (simp add: base_def algebra_simps)
    then show False using pn e(1) assms(2) by linarith
  qed
  ultimately consider "?q = ?b" | "?b = ?q + 1" | "?q = ?b + 1" by linarith
  then show ?thesis
  proof cases
    case 1
    then show ?thesis using pn(1) by (simp add: base_def)
  next
    case 2
    then have "base = ?q * win + win" by (simp add: base_def)
    then show ?thesis using pn(1) by simp
  next
    case 3
    then have "?q * win = base + win" by (simp add: base_def)
    then show ?thesis using pn(1) by simp
  qed
qed

lemma closer_nat:
  assumes "0 < (win :: nat)" "e < pn + win div 2" "pn < e + win div 2"
    and "unat (A :: u64) = base + v" "unat B = (if base < win then v else base - win + v)"
    and "unat C = base + win + v" and "unat T = e"
    and "base = e div win * win" "v = pn mod win"
  shows "unat (pn_closer T A (pn_closer T B C)) = pn"
proof -
  have e: "base \<le> e" "e < base + win" and v: "v < win"
    using assms(1,8,9) div_base [OF assms(1)] by simp_all
  have z: "base < win \<Longrightarrow> base = 0" using assms(1,8) by (cases "e div win") auto
  have "pn = base + v \<or> (win \<le> base \<and> pn = base - win + v) \<or> pn = base + win + v"
    using candidate_nat [OF assms(1-3)] assms(8,9) by simp
  then consider "pn = base + v" | "win \<le> base" "pn = base - win + v" | "pn = base + win + v" by blast
  then show ?thesis
  proof cases
    case 1
    have "base < win \<or> unat (pn_delta T A) < unat (pn_delta T B)"
      using 1 assms(2,3) e v unfolding pn_delta_unat assms(4,5,7) by auto
    moreover have "unat (pn_delta T A) < unat (pn_delta T C)"
      using 1 assms(2,3) e v unfolding pn_delta_unat assms(4,6,7) by auto
    ultimately show ?thesis
      using 1 assms(4,5) z by (auto simp: pn_closer_def word_less_nat_alt split: if_splits)
  next
    case 2
    have "\<not> unat (pn_delta T A) < unat (pn_delta T B)" "unat (pn_delta T B) < unat (pn_delta T C)"
      using 2 assms(2,3) e v unfolding pn_delta_unat assms(4-7) by auto
    then show ?thesis using 2 assms(5) by (simp add: pn_closer_def word_less_nat_alt)
  next
    case 3
    have "\<not> unat (pn_delta T A) < unat (pn_delta T C)" "\<not> unat (pn_delta T B) < unat (pn_delta T C)"
      using 3 assms(2,3) e v unfolding pn_delta_unat assms(4-7) by auto
    then show ?thesis using 3 assms(6) by (simp add: pn_closer_def word_less_nat_alt)
  qed
qed

lemma candidates_unat:
  fixes base win x :: u64
  assumes "unat base = b" "unat win = w" "unat x = v" "b \<le> 2 ^ 62" "w \<le> 2 ^ 24" "v < w"
  shows "unat (base + x) = b + v" "unat (base + win + x) = b + w + v"
    and "unat ((if base < win then 0 else base - win) + x) = (if b < w then v else b - w + v)"
proof -
  show "unat (base + x) = b + v" using assms by (simp add: unat_add_u64)
  have n: "unat (base + win) = b + w" using assms by (simp add: unat_add_u64)
  show "unat (base + win + x) = b + w + v" using assms n by (simp add: unat_add_u64 [of "base + win"])
  have "\<not> b < w \<Longrightarrow> unat (base - win) = b - w"
    using assms by (simp add: unat_sub_u64 word_le_nat_alt)
  then show "unat ((if base < win then 0 else base - win) + x) = (if b < w then v else b - w + v)"
    using assms by (auto simp: word_less_nat_alt unat_add_u64)
qed

lemma pn_decode_window:
  fixes pn largest :: u64 and len :: byte
  assumes "unat len \<in> {1, 2, 3}" "unat (largest + 1) \<le> 2 ^ 62"
    and "unat (largest + 1) < unat pn + 2 ^ (unat len * 8) div 2"
    and "unat pn < unat (largest + 1) + 2 ^ (unat len * 8) div 2"
    and "unat (x :: u32) = unat pn mod 2 ^ (unat len * 8)"
  shows "pn_decode x len largest = Decoded pn"
proof -
  let ?k = "unat len * 8" and ?e = "unat (largest + 1)"
  let ?w = "2 ^ ?k :: nat" and ?b = "?e div 2 ^ ?k * 2 ^ ?k" and ?v = "unat pn mod 2 ^ ?k"
  have k: "?k < 64" "?w \<le> 2 ^ 24" using assms(1) by auto
  have b: "unat ((largest + 1) AND NOT (push_bit ?k 1 - 1)) = ?b"
    using unat_base [OF k(1), of "largest + 1"] by simp
  have p: "unat (push_bit ?k 1 :: u64) = ?w"
    using assms(1) by auto
  have v: "unat (ucast x :: u64) = ?v" using assms(5) by (simp add: unat_ucast_u32)
  have "?b \<le> 2 ^ 62" by (rule order_trans [OF div_base(1)]) (use assms(2) in simp_all)
  note ABC = candidates_unat [OF b p v this k(2) mod_less_divisor]
  let ?base = "(largest + 1) AND NOT (push_bit ?k 1 - 1)"
  have "unat (pn_closer (largest + 1) (?base + ucast x)
      (pn_closer (largest + 1) ((if ?base < push_bit ?k 1 then 0 else ?base - push_bit ?k 1) + ucast x)
         (?base + push_bit ?k 1 + ucast x))) = unat pn"
    by (rule closer_nat [OF _ assms(3,4) ABC(1,3,2) refl refl refl]) simp_all
  then show ?thesis
    using assms(1) by (simp add: pn_decode_def is_wire_len_iff Let_def) (auto simp: unsigned_word_eqI)
qed

subsection \<open>The length the encoder chooses\<close>

lemma top_bit_bounds:
  fixes b :: u64
  assumes "bit b n" "\<And>m. n < m \<Longrightarrow> \<not> bit b m"
  shows "2 ^ n \<le> unat b" "unat b < 2 ^ Suc n" "n < 64"
proof -
  show "n < 64" using assms(1) bit_imp_le_length by fastforce
  have "bit (unat b) n" using assms(1) by (simp add: bit_unsigned_iff)
  then show "2 ^ n \<le> unat b" by (metis bit_take_bit_iff not_le_imp_less order_less_irrefl take_bit_nat_eq_self)
  have "take_bit (Suc n) (unat b) = unat b"
    by (rule bit_eqI) (use assms(2) not_less in \<open>auto simp: bit_simps less_Suc_eq_le\<close>)
  then show "unat b < 2 ^ Suc n" by (metis take_bit_nat_less_exp)
qed

lemma shift_count_top:
  assumes "b \<noteq> 0"
  obtains n where "shift_count b = of_nat n" "n < 64" "2 ^ n \<le> unat b" "unat b < 2 ^ Suc n"
proof (cases "b = 1 \<or> b = 2 \<or> b = 3")
  case True
  then show ?thesis using that [of 0] that [of 1] by (auto simp: shift_count_def)
next
  case False
  let ?P = "\<lambda>i. b AND push_bit (63 - i) 1 \<noteq> 0"
  have P: "?P i \<longleftrightarrow> bit b (63 - i)" for i by (simp only: bit_iff_and_push_bit_not_eq_0)
  obtain m where m: "bit b m" using assms by (auto simp: bit_eq_iff)
  moreover have "m < 64" using bit_imp_le_length [OF m] by simp
  ultimately have "\<exists>i\<in>set [0..<64]. ?P i" unfolding P by (intro bexI [of _ "63 - m"]) auto
  then obtain i where i: "find ?P [0..<64] = Some i" using find_total [of "[0..<64]" ?P] by blast
  then have "i < 64" "?P i" "\<And>j. j < i \<Longrightarrow> \<not> ?P j" using find_upt [of ?P 64 i] by blast+
  then have "bit b (63 - i)" "\<And>j. j < i \<Longrightarrow> \<not> bit b (63 - j)" unfolding P by blast+
  moreover have "\<not> bit b k" if "63 - i < k" for k
    using calculation(2) [of "63 - k"] that \<open>i < 64\<close> bit_imp_le_length [of b k] by (cases "k < 64") auto
  ultimately have "2 ^ (63 - i) \<le> unat b" "unat b < 2 ^ Suc (63 - i)"
    using top_bit_bounds by blast+
  then show ?thesis using that [of "63 - i"] False i by (simp add: shift_count_def del: upt_conv_Cons upt_rec_numeral)
qed

text \<open>
  The number of packets between the acknowledged one and the one being sent;
  \<^verbatim>\<open>infinity\<close> as the acknowledged number wraps to the same expression.
\<close>

lemma min_bytes_of_top:
  assumes "n < 64"
  shows "((of_nat n + 1 :: u64) div 8 + (if (of_nat n + 1 :: u64) mod 8 \<noteq> 0 then 1 else 0)) = of_nat (n div 8 + 1)"
proof -
  have u: "unat (of_nat n + 1 :: u64) = n + 1" using assms by (simp add: unat_word_ariths unat_of_nat)
  have m: "(of_nat n + 1 :: u64) mod 8 \<noteq> 0 \<longleftrightarrow> (n + 1) mod 8 \<noteq> 0"
    by (simp add: unat_eq_zero [symmetric] unat_mod_distrib u)
  have "unat ((of_nat n + 1 :: u64) div 8) = (n + 1) div 8" by (simp add: unat_div_distrib u)
  then have "(of_nat n + 1 :: u64) div 8 = of_nat ((n + 1) div 8)"
    by (intro unat_eqI) (use assms in \<open>simp add: unat_of_nat_u64\<close>)
  moreover have "(n + 1) div 8 = n div 8 + (if (n + 1) mod 8 \<noteq> 0 then 0 else 1)" by presburger
  ultimately show ?thesis unfolding m by (cases "(n + 1) mod 8 = 0") simp_all
qed

lemma pn_truncate:
  assumes "k \<le> 32"
  shows "unat (ucast ((pn :: u64) AND mask k) :: u32) = unat pn mod 2 ^ k"
  unfolding take_bit_eq_mask [symmetric]
  using assms by (simp add: unsigned_ucast_eq unsigned_take_bit_eq min_absorb2) (simp add: take_bit_eq_mod)

lemma num_unacked_diff: "(if la = NOT 0 then pn + 1 else pn - la) = (pn - la :: u64)"
  by simp

lemma shift_count_eq:
  assumes "2 ^ n \<le> unat b" "unat b < 2 ^ Suc n"
  shows "shift_count b = of_nat n"
proof -
  have "b \<noteq> 0" using assms(1) by auto
  then obtain m where m: "shift_count b = of_nat m" "2 ^ m \<le> unat b" "unat b < 2 ^ Suc m"
    by (rule shift_count_top)
  have "n < Suc m" "m < Suc n"
    using le_less_trans [OF assms(1) m(3)] le_less_trans [OF m(2) assms(2)]
    by (simp_all only: power_strict_increasing_iff one_less_numeral_iff semiring_norm)
  then have "m = n" by simp
  then show ?thesis using m(1) by simp
qed

lemma shift_count_0: "shift_count 0 = - 1"
proof -
  have "find (\<lambda>i. (0 :: u64) AND push_bit (63 - i) 1 \<noteq> 0) [0..<64] = None" by (simp only: find_None_iff) simp
  then show ?thesis by (simp add: shift_count_def)
qed

lemma pn_masks:
  "ucast (0xff :: u32) = (mask 8 :: u64)" "ucast (0xffff :: u32) = (mask 16 :: u64)"
  "ucast (0xffffff :: u32) = (mask 24 :: u64)" "ucast (0xffffffff :: u32) = (mask 32 :: u64)"
  by (simp_all add: mask_eq_exp_minus_1)

lemma byte_count:
  assumes "2 ^ n \<le> (x :: nat)" "x < 2 ^ Suc n"
  shows "2 ^ (8 * (n div 8)) \<le> x" "x < 2 ^ (8 * (n div 8 + 1))"
proof -
  have "(2 :: nat) ^ (8 * (n div 8)) \<le> 2 ^ n" by (intro power_increasing) simp_all
  then show "2 ^ (8 * (n div 8)) \<le> x" using assms(1) by linarith
  have "(2 :: nat) ^ Suc n \<le> 2 ^ (8 * (n div 8 + 1))"
    using div_base(2) [of 8 n] by (intro power_increasing) simp_all
  then show "x < 2 ^ (8 * (n div 8 + 1))" using assms(2) by linarith
qed

lemma pn_encode_Some:
  assumes "pn_encode pn la = Some x"
  obtains l where "l \<in> {1, 2, 3, 4}" "unat (wv_len x) = l" "unat (wv_val x) = unat pn mod 2 ^ (l * 8)"
    "2 ^ (8 * (l - 1)) \<le> unat (pn - la)" "unat (pn - la) < 2 ^ (8 * l)"
proof -
  let ?n = "pn - la"
  have "?n \<noteq> 0"
    using assms unfolding pn_encode_def Let_def num_unacked_diff by (auto simp: shift_count_0)
  then obtain n where n: "shift_count ?n = of_nat n" "n < 64" "2 ^ n \<le> unat ?n" "unat ?n < 2 ^ Suc n"
    by (rule shift_count_top)
  note E = assms [unfolded pn_encode_def Let_def num_unacked_diff n(1) min_bytes_of_top [OF n(2)] pn_masks]
  have k: "n div 8 < 8" using n(2) by simp
  have u: "unat (of_nat (n div 8 + 1) :: u64) = n div 8 + 1" using k by (intro unat_of_nat_u64) simp
  have w: "of_nat (n div 8 + 1) = (c :: u64) \<longleftrightarrow> n div 8 + 1 = unat c" for c using u by (metis unat_eqI)
  have "n div 8 + 1 \<in> {1, 2, 3, 4}" using E unfolding w by (auto split: if_splits)
  moreover have "unat (wv_len x) = n div 8 + 1" using E unfolding w by (auto split: if_splits)
  moreover have "unat (wv_val x) = unat pn mod 2 ^ ((n div 8 + 1) * 8)"
    using E unfolding w by (auto simp: pn_truncate split: if_splits)
  moreover have "2 ^ (8 * (n div 8 + 1 - 1)) \<le> unat ?n" "unat ?n < 2 ^ (8 * (n div 8 + 1))"
    using byte_count [OF n(3,4)] by simp_all
  ultimately show ?thesis by (rule that)
qed

subsection \<open>The bytes of a packet number\<close>

lemma write_be_high_zero:
  assumes "unat (v :: u32) < 2 ^ (l * 8)" "l \<le> 4"
  shows "take (4 - l) (write_be v) = replicate (4 - l) 0"
proof (rule nth_equalityI)
  fix i assume "i < length (take (4 - l) (write_be v))"
  then have i: "i < 4 - l" "i < 4" by simp_all
  have "unat (drop_bit ((3 - i) * 8) v) = unat v div 2 ^ ((3 - i) * 8)"
    unfolding unsigned_drop_bit_eq using unsigned_less [of v, where ?'a = nat]
    by (simp add: drop_bit_eq_div take_bit_nat_eq_self)
  also have "(2 :: nat) ^ (l * 8) \<le> 2 ^ ((3 - i) * 8)" using i by (intro power_increasing) auto
  then have "unat v div 2 ^ ((3 - i) * 8) = 0" using assms(1) by (intro div_less) (rule less_le_trans)
  finally have "drop_bit ((3 - i) * 8) v = 0" by (simp add: unat_eq_zero)
  then show "take (4 - l) (write_be v) ! i = replicate (4 - l) 0 ! i"
    using i by (simp add: write_be_def)
qed simp

lemma pn_write_emit:
  assumes "is_wire_len (wv_len x)" "writer_wf w" "unat (wv_len x) \<le> room w"
  shows "pn_write x w = (True, emit (drop (4 - unat (wv_len x)) (write_be (wv_val x))) w)"
  using assms by (auto simp: pn_write_def is_wire_len_iff intro!: writer_write_emit)

lemma pn_read_bytes:
  assumes "is_wire_len (wv_len x)" "unat (wv_val x) < 2 ^ (unat (wv_len x) * 8)"
  shows "pn_read (wv_len x) (rd pre (drop (4 - unat (wv_len x)) (write_be (wv_val x)) @ rest))
       = (Some x, rd (pre @ drop (4 - unat (wv_len x)) (write_be (wv_val x))) rest)"
proof -
  let ?l = "unat (wv_len x)" and ?b = "write_be (wv_val x)"
  have l: "?l \<le> 4" using assms(1) by (auto simp: is_wire_len_iff)
  then have n: "length (drop (4 - ?l) ?b) = ?l" by simp
  have "replicate (4 - ?l) 0 @ drop (4 - ?l) ?b = ?b"
    using write_be_high_zero [OF assms(2) l] by (metis append_take_drop_id)
  then have "read_be (replicate (4 - ?l) 0 @ drop (4 - ?l) ?b) = wv_val x"
    using read_be_write_be [of "wv_val x" "[]"] by simp
  then show ?thesis using assms(1) reader_read_append [OF n] by (simp add: pn_read_def)
qed

subsection \<open>Properties\<close>



text \<open>
  C35. The length chosen by the encoder is one bit short of what the decoder
  needs: with the decoder in step with the acknowledgements, every number more
  than half a window (and less than a window) ahead decodes to the number one
  window below it.
\<close>

theorem pn_encode_window_short:
  assumes "pn_encode pn largest_ack = Some x" and "unat (wv_len x) < 4"
    and "unat pn < 2 ^ 62" and "largest_ack < pn" and "2 ^ (unat (wv_len x) * 8) \<le> unat pn"
    and "2 ^ (unat (wv_len x) * 8) div 2 + 1 < unat (pn - largest_ack)"
  shows "pn_decode (wv_val x) (wv_len x) largest_ack = Decoded (pn - push_bit (unat (wv_len x) * 8) 1)"
proof -
  from assms(1) obtain l where l: "l \<in> {1, 2, 3, 4}" "unat (wv_len x) = l"
    "unat (wv_val x) = unat pn mod 2 ^ (l * 8)" "unat (pn - largest_ack) < 2 ^ (8 * l)" by (rule pn_encode_Some)
  let ?w = "2 ^ (l * 8) :: nat"
  have w: "unat (push_bit (l * 8) 1 :: u64) = ?w" using l(1) by auto
  have p: "unat (pn - push_bit (l * 8) 1) = unat pn - ?w"
    using assms(5) w l(2) by (simp add: unat_sub_u64 word_le_nat_alt)
  have d: "unat (pn - largest_ack) = unat pn - unat largest_ack" "unat (largest_ack + 1) = unat largest_ack + 1"
    using assms(3,4) by (simp_all add: unat_sub_u64 order_less_imp_le) (simp add: unat_word_ariths word_less_nat_alt)
  have m: "unat pn mod ?w = (unat pn - ?w) mod ?w" using assms(5) l(2) by (simp add: le_mod_geq)
  have even: "?w = ?w div 2 + ?w div 2" using l(1) by auto
  have "unat (largest_ack + 1) < unat (pn - push_bit (l * 8) 1) + ?w div 2"
    "unat (pn - push_bit (l * 8) 1) < unat (largest_ack + 1) + ?w div 2"
    using assms(5,6) l(4) even unfolding p d l(2) mult.commute [of 8] by linarith+
  then show ?thesis
    unfolding l(2) by (intro pn_decode_window) (use assms(2-4) l(1-3) p d m in \<open>auto simp: word_less_nat_alt\<close>)
qed

theorem pn_encode_window_short_witness:
  "pn_encode 0x1ff 0x100 = Some \<lparr>wv_val = 0xff, wv_len = 1\<rparr>
   \<and> pn_decode 0xff 1 0x100 = Decoded 0xff"
proof -
  have e: "pn_encode 0x1ff 0x100 = Some \<lparr>wv_val = 0xff, wv_len = 1\<rparr>"
    using shift_count_eq [of 7 "0xff"] by (simp add: pn_encode_def)
  from pn_encode_window_short [OF e] e show ?thesis by simp
qed

text \<open>
  Every packet number the encoder produces is written in as many bytes as its
  length says, and reading that many bytes gives it back.
\<close>

lemma pn_write_read:
  assumes "pn_encode pn largest_ack = Some x" and "writer_wf w" and "unat (wv_len x) \<le> room w"
  shows "\<exists>w' bs. pn_write x w = (True, w') \<and> written w' = written w @ bs \<and> length bs = unat (wv_len x)
     \<and> (\<forall>pre rest. pn_read (wv_len x) (rd pre (bs @ rest)) = (Some x, rd (pre @ bs) rest))"
proof -
  from assms(1) obtain l where l: "l \<in> {1, 2, 3, 4}" "unat (wv_len x) = l"
    "unat (wv_val x) = unat pn mod 2 ^ (l * 8)" by (rule pn_encode_Some)
  then have x: "is_wire_len (wv_len x)" "unat (wv_val x) < 2 ^ (unat (wv_len x) * 8)"
    by (simp_all add: is_wire_len_iff)
  let ?bs = "drop (4 - unat (wv_len x)) (write_be (wv_val x))"
  have n: "length ?bs = unat (wv_len x)" using l(1,2) by auto
  have "written (emit ?bs w) = written w @ ?bs"
    using assms(2,3) n by (intro written_emit) simp_all
  then show ?thesis
    using pn_write_emit [OF x(1) assms(2,3)] pn_read_bytes [OF x] n by blast
qed

text \<open>
  C36. A number that needs four bytes is encoded with four bytes, and decoding
  that form shifts an \<^verbatim>\<open>int\<close> by its whole width: the decoder has no defined
  result, whatever it has received.
\<close>

theorem pn_four_bytes_undefined:
  assumes "2 ^ 24 \<le> unat (pn - largest_ack)" and "unat (pn - largest_ack) < 2 ^ 32"
  shows "\<exists>x. pn_encode pn largest_ack = Some x \<and> wv_len x = 4
     \<and> (\<forall>largest_recv. pn_decode (wv_val x) (wv_len x) largest_recv = Undefined)"
proof -
  have "pn - largest_ack \<noteq> 0" using assms(1) by auto
  then obtain n where n: "shift_count (pn - largest_ack) = of_nat n" "n < 64"
    "2 ^ n \<le> unat (pn - largest_ack)" "unat (pn - largest_ack) < 2 ^ Suc n" by (rule shift_count_top)
  have "(2 :: nat) ^ n < 2 ^ 32" "(2 :: nat) ^ 24 < 2 ^ Suc n" using assms n(3,4) by linarith+
  then have "n < 32" "24 < Suc n" by (simp_all only: power_strict_increasing_iff one_less_numeral_iff semiring_norm)
  then have "n div 8 + 1 = 4" by presburger
  then have "pn_encode pn largest_ack = Some \<lparr>wv_val = ucast (pn AND ucast (0xffffffff :: u32)), wv_len = 4\<rparr>"
    unfolding pn_encode_def Let_def num_unacked_diff n(1) min_bytes_of_top [OF n(2)] by simp
  then show ?thesis by (auto simp: pn_decode_def is_wire_len_def)
qed

theorem pn_four_bytes_undefined_witness:
  "\<exists>x. pn_encode 0x1000000 0 = Some x \<and> wv_len x = 4 \<and> pn_decode (wv_val x) (wv_len x) 0 = Undefined"
  using pn_four_bytes_undefined [of "0x1000000" 0] by auto

end
