(* ===== verification/QuicTypes.thy ===== *)
theory QuicTypes
  imports Varint
begin

text \<open>
  The basic QUIC types of \<^verbatim>\<open>fnet/quic/types.h\<close>: packet types and the first byte of
  a packet, frame types and the frame type field. \<^verbatim>\<open>PacketType\<close> is a closed
  enumeration; \<^verbatim>\<open>FrameType\<close> is an open one (an \<^verbatim>\<open>int\<close> that any frame type field is
  cast to), so it is a 32-bit word, and its named enumerators are the image of a
  datatype.
\<close>

section \<open>Packet types\<close>

datatype PacketType =
    Initial | ZeroRTT | Handshake | Retry | VersionNegotiation | OneRTT
  | Unknown | LongPacket | StatelessReset

definition is_LongPacket :: "PacketType \<Rightarrow> bool" where
  "is_LongPacket type \<longleftrightarrow> type = Initial \<or> type = ZeroRTT \<or> type = Handshake \<or> type = Retry"

definition has_LengthField :: "PacketType \<Rightarrow> bool" where
  "has_LengthField type \<longleftrightarrow> is_LongPacket type \<and> type \<noteq> Retry"

definition is_ProtectedPacket :: "PacketType \<Rightarrow> bool" where
  "is_ProtectedPacket type \<longleftrightarrow> type = Initial \<or> type = ZeroRTT \<or> type = Handshake \<or> type = OneRTT"

definition version_negotiation :: u32 where
  "version_negotiation = 0"

definition version_1 :: u32 where
  "version_1 = 1"

definition packet_type_to_mask :: "PacketType \<Rightarrow> u32 \<Rightarrow> byte" where
  "packet_type_to_mask type version =
     (if type = OneRTT then 0x40
      else if type = VersionNegotiation then 0x80
      else if version = 1 then
        (case type of
           Initial \<Rightarrow> 0xC0 | ZeroRTT \<Rightarrow> 0xD0 | Handshake \<Rightarrow> 0xE0 | Retry \<Rightarrow> 0xF0 | _ \<Rightarrow> 0)
      else 0)"

definition long_packet_type :: "byte \<Rightarrow> u32 \<Rightarrow> PacketType" where
  "long_packet_type typbit_1_to_3 version =
     (if version = version_negotiation then VersionNegotiation
      else if version = version_1 then
        (if typbit_1_to_3 = 0 then Initial
         else if typbit_1_to_3 = 1 then ZeroRTT
         else if typbit_1_to_3 = 2 then Handshake
         else if typbit_1_to_3 = 3 then Retry
         else Unknown)
      else Unknown)"

subsection \<open>The first byte of a packet\<close>

text \<open>\<^verbatim>\<open>struct PacketFlags\<close> is its one byte.\<close>

type_synonym PacketFlags = byte

definition pf_invalid :: "PacketFlags \<Rightarrow> bool" where
  "pf_invalid raw \<longleftrightarrow> raw AND 0x40 = 0"

definition pf_is_short :: "PacketFlags \<Rightarrow> bool" where
  "pf_is_short raw \<longleftrightarrow> raw AND 0x80 = 0"

definition pf_is_long :: "PacketFlags \<Rightarrow> bool" where
  "pf_is_long raw \<longleftrightarrow> \<not> pf_is_short raw"

definition pf_type :: "u32 \<Rightarrow> PacketFlags \<Rightarrow> PacketType" where
  "pf_type version raw =
     (if pf_is_short raw then OneRTT else long_packet_type (drop_bit 4 (raw AND 0x30)) version)"

definition pf_spec_mask :: "PacketFlags \<Rightarrow> byte" where
  "pf_spec_mask raw =
     (case pf_type 1 raw of VersionNegotiation \<Rightarrow> 0x7f | OneRTT \<Rightarrow> 0x3f | _ \<Rightarrow> 0x0f)"

definition pf_specs :: "PacketFlags \<Rightarrow> byte" where
  "pf_specs raw = raw AND pf_spec_mask raw"

definition protect_mask :: "PacketFlags \<Rightarrow> byte" where
  "protect_mask raw = (if pf_is_short raw then 0x1f else 0x0f)"

definition pf_protect :: "byte \<Rightarrow> PacketFlags \<Rightarrow> byte" where
  "pf_protect w raw = raw XOR (w AND protect_mask raw)"

definition packet_number_length :: "PacketFlags \<Rightarrow> byte" where
  "packet_number_length raw = (raw AND 0x3) + 1"

definition reserved_bits :: "PacketFlags \<Rightarrow> byte" where
  "reserved_bits raw = (if pf_is_short raw then raw AND 0x18 else raw AND 0x0C)"

definition pf_spin :: "PacketFlags \<Rightarrow> bool" where
  "pf_spin raw \<longleftrightarrow> (if pf_is_short raw then raw AND 0x20 \<noteq> 0 else False)"

definition pf_key_phase :: "PacketFlags \<Rightarrow> bool" where
  "pf_key_phase raw \<longleftrightarrow> (if pf_is_short raw then raw AND 0x04 \<noteq> 0 else False)"

definition make_packet_flags :: "u32 \<Rightarrow> PacketType \<Rightarrow> byte \<Rightarrow> bool \<Rightarrow> bool \<Rightarrow> PacketFlags" where
  "make_packet_flags version type pn_length spin key_phase =
     (let lentomask = pn_length - 1;
          valid_pnlen = (1 \<le> pn_length \<and> pn_length \<le> 4);
          typmask = packet_type_to_mask type version
      in if typmask = 0 then 0
         else if type = Initial \<or> type = ZeroRTT \<or> type = Handshake then
           (if \<not> valid_pnlen then 0 else typmask OR lentomask)
         else if type = Retry \<or> type = VersionNegotiation then typmask
         else if type = OneRTT then
           (if \<not> valid_pnlen then 0
            else typmask OR (if spin then 0x20 else 0) OR (if key_phase then 0x04 else 0) OR lentomask)
         else 0)"

section \<open>Frame types\<close>

type_synonym FrameType = "32 word"

datatype FrameName =
    PADDING | PING | ACK | ACK_ECN | RESET_STREAM | STOP_SENDING | CRYPTO | NEW_TOKEN | STREAM
  | MAX_DATA | MAX_STREAM_DATA | MAX_STREAMS | MAX_STREAMS_UNI | DATA_BLOCKED | STREAM_DATA_BLOCKED
  | STREAMS_BLOCKED | STREAMS_BLOCKED_UNI | NEW_CONNECTION_ID | RETIRE_CONNECTION_ID
  | PATH_CHALLENGE | PATH_RESPONSE | CONNECTION_CLOSE | CONNECTION_CLOSE_APP | HANDSHAKE_DONE
  | DATAGRAM | DATAGRAM_LEN

fun FT :: "FrameName \<Rightarrow> FrameType" where
  "FT PADDING = 0" | "FT PING = 1" | "FT ACK = 2" | "FT ACK_ECN = 3" | "FT RESET_STREAM = 4"
| "FT STOP_SENDING = 5" | "FT CRYPTO = 6" | "FT NEW_TOKEN = 7" | "FT STREAM = 8"
| "FT MAX_DATA = 0x10" | "FT MAX_STREAM_DATA = 0x11" | "FT MAX_STREAMS = 0x12"
| "FT MAX_STREAMS_UNI = 0x13" | "FT DATA_BLOCKED = 0x14" | "FT STREAM_DATA_BLOCKED = 0x15"
| "FT STREAMS_BLOCKED = 0x16" | "FT STREAMS_BLOCKED_UNI = 0x17" | "FT NEW_CONNECTION_ID = 0x18"
| "FT RETIRE_CONNECTION_ID = 0x19" | "FT PATH_CHALLENGE = 0x1a" | "FT PATH_RESPONSE = 0x1b"
| "FT CONNECTION_CLOSE = 0x1c" | "FT CONNECTION_CLOSE_APP = 0x1d" | "FT HANDSHAKE_DONE = 0x1e"
| "FT DATAGRAM = 0x30" | "FT DATAGRAM_LEN = 0x31"

definition make_STREAM :: "bool \<Rightarrow> bool \<Rightarrow> bool \<Rightarrow> FrameType" where
  "make_STREAM off len fin =
     (let v0 = (0x8 :: byte);
          v1 = (if off then v0 OR 0x4 else v0);
          v2 = (if len then v1 OR 0x2 else v1);
          v3 = (if fin then v2 OR 0x1 else v2)
      in ucast v3)"

definition is_STREAM :: "FrameType \<Rightarrow> bool" where
  "is_STREAM type \<longleftrightarrow> sint (FT STREAM) \<le> sint type \<and> sint type \<le> sint (FT STREAM OR 0x7)"

definition is_MAX_STREAMS :: "FrameType \<Rightarrow> bool" where
  "is_MAX_STREAMS type \<longleftrightarrow> type = FT MAX_STREAMS \<or> type = FT MAX_STREAMS_UNI"

definition is_STREAMS_BLOCKED :: "FrameType \<Rightarrow> bool" where
  "is_STREAMS_BLOCKED type \<longleftrightarrow> type = FT STREAMS_BLOCKED \<or> type = FT STREAMS_BLOCKED_UNI"

definition is_ACK :: "FrameType \<Rightarrow> bool" where
  "is_ACK type \<longleftrightarrow> type = FT ACK \<or> type = FT ACK_ECN"

definition is_CONNECTION_CLOSE :: "FrameType \<Rightarrow> bool" where
  "is_CONNECTION_CLOSE type \<longleftrightarrow> type = FT CONNECTION_CLOSE \<or> type = FT CONNECTION_CLOSE_APP"

definition is_DATAGRAM :: "FrameType \<Rightarrow> bool" where
  "is_DATAGRAM type \<longleftrightarrow> type = FT DATAGRAM \<or> type = FT DATAGRAM_LEN"

text \<open>Table 3 of RFC 9000, section 12.4.\<close>

definition is_ACKEliciting :: "FrameType \<Rightarrow> bool" where
  "is_ACKEliciting type \<longleftrightarrow> type \<noteq> FT PADDING \<and> \<not> is_ACK type \<and> \<not> is_CONNECTION_CLOSE type"

definition is_MTUProbe :: "FrameType \<Rightarrow> bool" where
  "is_MTUProbe type \<longleftrightarrow> type = FT PADDING \<or> type = FT PING"

definition is_PathProbe :: "FrameType \<Rightarrow> bool" where
  "is_PathProbe type \<longleftrightarrow> type = FT PADDING \<or> type = FT NEW_CONNECTION_ID
     \<or> type = FT PATH_CHALLENGE \<or> type = FT PATH_RESPONSE"

definition is_FlowControled :: "FrameType \<Rightarrow> bool" where
  "is_FlowControled type \<longleftrightarrow> is_STREAM type"

definition is_ByteCounted :: "FrameType \<Rightarrow> bool" where
  "is_ByteCounted type \<longleftrightarrow> \<not> is_ACK type"

definition is_InitialPacketOK :: "FrameType \<Rightarrow> bool" where
  "is_InitialPacketOK type \<longleftrightarrow> type = FT PADDING \<or> type = FT PING \<or> type = FT ACK
     \<or> type = FT CRYPTO \<or> type = FT CONNECTION_CLOSE"

definition is_HandshakePacketOK :: "FrameType \<Rightarrow> bool" where
  "is_HandshakePacketOK type \<longleftrightarrow> is_InitialPacketOK type"

definition is_ZeroRTTPacketOK :: "FrameType \<Rightarrow> bool" where
  "is_ZeroRTTPacketOK type \<longleftrightarrow> type \<noteq> FT ACK \<and> type \<noteq> FT CRYPTO \<and> type \<noteq> FT NEW_TOKEN
     \<and> type \<noteq> FT PATH_RESPONSE \<and> type \<noteq> FT HANDSHAKE_DONE"

definition is_OneRTTPacketOK :: "FrameType \<Rightarrow> bool" where
  "is_OneRTTPacketOK type \<longleftrightarrow> True"

definition is_OKFrameForPacket :: "PacketType \<Rightarrow> FrameType \<Rightarrow> bool" where
  "is_OKFrameForPacket ptype ftype \<longleftrightarrow>
     (case ptype of
        Initial \<Rightarrow> is_InitialPacketOK ftype
      | Handshake \<Rightarrow> is_HandshakePacketOK ftype
      | ZeroRTT \<Rightarrow> is_ZeroRTTPacketOK ftype
      | OneRTT \<Rightarrow> is_OneRTTPacketOK ftype
      | _ \<Rightarrow> False)"

definition is_UniStreamSenderOK :: "FrameType \<Rightarrow> bool" where
  "is_UniStreamSenderOK type \<longleftrightarrow>
     is_STREAM type \<or> type = FT STREAM_DATA_BLOCKED \<or> type = FT RESET_STREAM"

definition is_UniStreamReceiverOK :: "FrameType \<Rightarrow> bool" where
  "is_UniStreamReceiverOK type \<longleftrightarrow> type = FT MAX_STREAM_DATA \<or> type = FT STOP_SENDING"

definition is_BidiStreamOK :: "FrameType \<Rightarrow> bool" where
  "is_BidiStreamOK type \<longleftrightarrow> is_UniStreamReceiverOK type \<or> is_UniStreamSenderOK type"

definition should_Retransmit :: "FrameType \<Rightarrow> bool" where
  "should_Retransmit type \<longleftrightarrow> type = FT CRYPTO \<or> type = FT STREAM \<or> type = FT RESET_STREAM
     \<or> type = FT STOP_SENDING \<or> type = FT MAX_DATA \<or> type = FT MAX_STREAM_DATA \<or> is_MAX_STREAMS type
     \<or> type = FT NEW_CONNECTION_ID \<or> type = FT RETIRE_CONNECTION_ID \<or> type = FT HANDSHAKE_DONE"

definition is_ConnRelated :: "FrameType \<Rightarrow> bool" where
  "is_ConnRelated type \<longleftrightarrow> type = FT MAX_DATA \<or> is_MAX_STREAMS type \<or> type = FT DATA_BLOCKED
     \<or> is_STREAMS_BLOCKED type"

subsection \<open>The frame type field\<close>

text \<open>
  \<^verbatim>\<open>struct FrameFlags\<close> is its 64-bit value; the cast to the enumeration keeps the
  low 32 bits, the cast from it extends the sign.
\<close>

type_synonym FrameFlags = u64

definition FrameFlags_of :: "FrameType \<Rightarrow> FrameFlags" where
  "FrameFlags_of type = scast type"

definition as_byte :: "FrameFlags \<Rightarrow> byte" where
  "as_byte v = ucast (v AND 0xff)"

definition type_detail :: "FrameFlags \<Rightarrow> FrameType" where
  "type_detail v = ucast v"

definition ff_type :: "FrameFlags \<Rightarrow> FrameType" where
  "ff_type v =
     (let ty = type_detail v
      in if is_STREAM ty then FT STREAM
         else if is_MAX_STREAMS ty then FT MAX_STREAMS
         else if is_CONNECTION_CLOSE ty then FT CONNECTION_CLOSE
         else if is_STREAMS_BLOCKED ty then FT STREAMS_BLOCKED
         else if is_ACK ty then FT ACK
         else if is_DATAGRAM ty then FT DATAGRAM
         else ty)"

definition STREAM_fin :: "FrameFlags \<Rightarrow> bool" where
  "STREAM_fin v \<longleftrightarrow> (if ff_type v = FT STREAM then v AND 0x01 \<noteq> 0 else False)"

definition STREAM_len :: "FrameFlags \<Rightarrow> bool" where
  "STREAM_len v \<longleftrightarrow> (if ff_type v = FT STREAM then v AND 0x02 \<noteq> 0 else False)"

definition STREAM_off :: "FrameFlags \<Rightarrow> bool" where
  "STREAM_off v \<longleftrightarrow> (if ff_type v = FT STREAM then v AND 0x04 \<noteq> 0 else False)"

definition DATAGRAM_len :: "FrameFlags \<Rightarrow> bool" where
  "DATAGRAM_len v \<longleftrightarrow> type_detail v = FT DATAGRAM_LEN"

definition is_TailFrame :: "FrameType \<Rightarrow> bool" where
  "is_TailFrame typ \<longleftrightarrow>
     (if is_STREAM typ then \<not> STREAM_len (FrameFlags_of typ) else typ = FT DATAGRAM)"

section \<open>Facts about the types\<close>

lemma is_STREAM_set:
  "is_STREAM t \<longleftrightarrow> t \<in> {8, 9, 10, 11, 12, 13, 14, 15}"
proof -
  have "t = word_of_int (sint t)" by simp
  then have "sint t \<in> {8, 9, 10, 11, 12, 13, 14, 15} \<Longrightarrow> t \<in> {8, 9, 10, 11, 12, 13, 14, 15}"
    by (elim insertE emptyE) (metis word_of_int_numeral insertCI)+
  moreover have "8 \<le> sint t \<and> sint t \<le> 15 \<Longrightarrow> sint t \<in> {8, 9, 10, 11, 12, 13, 14, 15}" by auto
  ultimately show ?thesis by (auto simp: is_STREAM_def)
qed

lemmas frame_type_defs = is_STREAM_set is_MAX_STREAMS_def is_STREAMS_BLOCKED_def is_ACK_def
  is_CONNECTION_CLOSE_def is_DATAGRAM_def

lemma type_detail_FT [simp]: "type_detail (FrameFlags_of (FT n)) = FT n"
  by (cases n) (simp_all add: type_detail_def FrameFlags_of_def)

lemma make_STREAM_cases:
  "make_STREAM off len fin = 8 + (if off then 4 else 0) + (if len then 2 else 0) + (if fin then 1 else 0)"
  by (simp add: make_STREAM_def)

lemma is_STREAM_flags:
  assumes "is_STREAM t"
  shows "type_detail (FrameFlags_of t) = t" "ff_type (FrameFlags_of t) = FT STREAM"
    "FrameFlags_of t = ucast t"
  using assms by (auto simp: is_STREAM_set ff_type_def type_detail_def FrameFlags_of_def)

lemma make_STREAM_is_STREAM [simp]: "is_STREAM (make_STREAM off len fin)"
  by (simp add: is_STREAM_set make_STREAM_cases)

lemma make_STREAM_flags [simp]:
  "STREAM_off (FrameFlags_of (make_STREAM off len fin)) = off"
  "STREAM_len (FrameFlags_of (make_STREAM off len fin)) = len"
  "STREAM_fin (FrameFlags_of (make_STREAM off len fin)) = fin"
  using is_STREAM_flags [OF make_STREAM_is_STREAM, of off len fin]
  by (simp_all add: STREAM_off_def STREAM_len_def STREAM_fin_def make_STREAM_cases)

lemma make_STREAM_of_flags:
  assumes "is_STREAM t"
  shows "make_STREAM (STREAM_off (FrameFlags_of t)) (STREAM_len (FrameFlags_of t)) (STREAM_fin (FrameFlags_of t)) = t"
  using assms is_STREAM_flags [OF assms]
  by (auto simp: is_STREAM_set make_STREAM_cases STREAM_off_def STREAM_len_def STREAM_fin_def)

text \<open>Header protection never touches the bits that tell the form and the type.\<close>

lemma protect_keeps:
  assumes "m AND protect_mask raw = 0"
  shows "pf_protect w raw AND m = raw AND m"
proof (rule bit_word_eqI)
  fix n
  have "\<not> (bit m n \<and> bit (protect_mask raw) n)" using assms by (metis bit_0_eq bit_and_iff bot_apply bot_bool_def)
  then show "bit (pf_protect w raw AND m) n = bit (raw AND m) n" by (auto simp: pf_protect_def bit_simps)
qed

lemma protect_is_short: "pf_is_short (pf_protect w raw) = pf_is_short raw"
  using protect_keeps [of "0x80" raw w] by (simp add: pf_is_short_def protect_mask_def)

lemma protect_type: "pf_type v (pf_protect w raw) = pf_type v raw"
  using protect_keeps [of "0x30" raw w] protect_is_short [of w raw]
  by (auto simp: pf_type_def protect_mask_def)

lemma protect_twice: "pf_protect w (pf_protect w raw) = raw"
  using protect_is_short [of w raw]
  by (auto simp: pf_protect_def protect_mask_def intro!: bit_word_eqI simp: bit_simps)

lemma pn_length_cases:
  assumes "1 \<le> (l :: byte)" "l \<le> 4"
  shows "l = 1 \<or> l = 2 \<or> l = 3 \<or> l = 4"
proof -
  have "unat l = 1 \<or> unat l = 2 \<or> unat l = 3 \<or> unat l = 4" using assms by (auto simp: word_le_nat_alt)
  then show ?thesis by (auto intro!: unat_eqI)
qed

lemmas packet_flags_eval = make_packet_flags_def packet_type_to_mask_def version_1_def pf_type_def
  pf_is_short_def long_packet_type_def version_negotiation_def packet_number_length_def
  pf_invalid_def reserved_bits_def pf_spin_def pf_key_phase_def

section \<open>Properties\<close>

text \<open>
  C28. The flags of a STREAM frame type: the type made of three flags is a STREAM
  type and has exactly those flags, and every STREAM type is made of its flags.
\<close>

theorem stream_type_flags:
  "is_STREAM (make_STREAM off len fin) \<and> ff_type (FrameFlags_of (make_STREAM off len fin)) = FT STREAM
   \<and> STREAM_off (FrameFlags_of (make_STREAM off len fin)) = off
   \<and> STREAM_len (FrameFlags_of (make_STREAM off len fin)) = len
   \<and> STREAM_fin (FrameFlags_of (make_STREAM off len fin)) = fin
   \<and> (is_STREAM t \<longrightarrow> (let v = FrameFlags_of t in make_STREAM (STREAM_off v) (STREAM_len v) (STREAM_fin v)) = t)"
  using make_STREAM_of_flags [of t] is_STREAM_flags(2) [OF make_STREAM_is_STREAM] by (simp add: Let_def)

theorem stream_type_flags_witness:
  "is_STREAM 0xd \<and> make_STREAM (STREAM_off (FrameFlags_of 0xd)) (STREAM_len (FrameFlags_of 0xd)) (STREAM_fin (FrameFlags_of 0xd)) = 0xd
   \<and> STREAM_off (FrameFlags_of (make_STREAM True False True))"
  using stream_type_flags [of True False True "0xd"] by (simp add: is_STREAM_set Let_def)

text \<open>
  C27. The first byte made for a packet of a numbered type carries the type, the
  packet number length, the spin bit and the key phase, with the fixed bit set and
  the reserved bits clear; header protection is undone by applying it again and
  leaves the type readable.
\<close>

theorem packet_flags_roundtrip:
  assumes "type \<in> {Initial, ZeroRTT, Handshake, OneRTT}" and "1 \<le> pn_length" and "pn_length \<le> 4"
  shows "let f = make_packet_flags version_1 type pn_length spin key_phase in
      pf_type version_1 f = type \<and> packet_number_length f = pn_length
    \<and> \<not> pf_invalid f \<and> reserved_bits f = 0
    \<and> (pf_spin f \<longleftrightarrow> type = OneRTT \<and> spin) \<and> (pf_key_phase f \<longleftrightarrow> type = OneRTT \<and> key_phase)
    \<and> pf_protect w (pf_protect w f) = f \<and> pf_type version_1 (pf_protect w f) = type"
proof -
  let ?f = "make_packet_flags version_1 type pn_length spin key_phase"
  have "pf_type version_1 ?f = type \<and> packet_number_length ?f = pn_length \<and> \<not> pf_invalid ?f
      \<and> reserved_bits ?f = 0 \<and> (pf_spin ?f \<longleftrightarrow> type = OneRTT \<and> spin)
      \<and> (pf_key_phase ?f \<longleftrightarrow> type = OneRTT \<and> key_phase)"
    using assms(1) pn_length_cases [OF assms(2,3)]
    by (elim insertE emptyE disjE; cases spin; cases key_phase; simp add: packet_flags_eval)
  then show ?thesis unfolding Let_def using protect_twice protect_type by simp
qed

theorem packet_flags_roundtrip_witness:
  "make_packet_flags version_1 OneRTT 3 True False = 0x62
   \<and> pf_type version_1 0x62 = OneRTT \<and> packet_number_length 0x62 = 3 \<and> pf_spin 0x62"
proof -
  have "make_packet_flags version_1 OneRTT 3 True False = 0x62"
    by (simp add: make_packet_flags_def packet_type_to_mask_def)
  with packet_flags_roundtrip [of OneRTT 3 True False 0] show ?thesis by (simp add: Let_def)
qed


end
