(* ===== verification/FrameBase.thy ===== *)
theory FrameBase
  imports QuicTypes
begin

text \<open>
  The base of all QUIC frames (\<^verbatim>\<open>fnet/quic/frame/base.h\<close>): the frame type field, the
  steps the frame parsers are chains of, and the contract every frame type is
  proved to satisfy. The C++ frame structs derive from \<^verbatim>\<open>Frame\<close>; here they are
  extensions of the record \<open>Frame\<close>, so that the functions of the base apply to all.

  A parser works on a pair of the frame being filled and the reader; it is an
  action, a chain of steps. A renderer is a chain of actions on the writer.
\<close>

section \<open>Frame base\<close>

record Frame =
  f_type :: FrameFlags

type_synonym 'f parser = "('f \<times> reader) action"

definition frame_parse :: "('a Frame_scheme) parser" where
  "frame_parse s =
     (case s of (f, r) \<Rightarrow>
        case varint_read r of ((data, ok), r') \<Rightarrow>
          if \<not> ok \<or> \<not> is_min_len data then (False, (f, r'))
          else (True, (f\<lparr>f_type := vval data\<rparr>, r')))"

definition parse_check :: "FrameType \<Rightarrow> ('a Frame_scheme) parser" where
  "parse_check ty s =
     (case frame_parse s of (ok, (f, r)) \<Rightarrow> (ok \<and> ff_type (f_type f) = ty, (f, r)))"

definition type_minlen :: "FrameFlags \<Rightarrow> nat" where
  "type_minlen flags = min_len flags"

definition type_minwrite :: "FrameFlags \<Rightarrow> writer action" where
  "type_minwrite flags = varint_write (Value flags)"

definition frame_len :: "'a Frame_scheme \<Rightarrow> nat" where
  "frame_len f = type_minlen (f_type f)"

definition frame_render :: "'a Frame_scheme \<Rightarrow> writer action" where
  "frame_render f = type_minwrite (f_type f)"

subsection \<open>Steps of a parser\<close>

text \<open>
  \<^verbatim>\<open>varint::read(r, field)\<close> assigns the field whether or not it succeeds, and so
  does \<^verbatim>\<open>r.read(field, n)\<close> for a view; \<^verbatim>\<open>field = r.read_best(~0)\<close> takes what is left.
\<close>

definition read_varint :: "((varint \<Rightarrow> varint) \<Rightarrow> 'f \<Rightarrow> 'f) \<Rightarrow> 'f parser" where
  "read_varint upd s =
     (case s of (f, r) \<Rightarrow> case varint_read r of ((v, ok), r') \<Rightarrow> (ok, (upd (\<lambda>_. v) f, r')))"

definition read_rvec :: "((byte list \<Rightarrow> byte list) \<Rightarrow> 'f \<Rightarrow> 'f) \<Rightarrow> ('f \<Rightarrow> nat) \<Rightarrow> 'f parser" where
  "read_rvec upd n s =
     (case s of (f, r) \<Rightarrow> case reader_read (n f) r of ((d, ok), r') \<Rightarrow> (ok, (upd (\<lambda>_. d) f, r')))"

definition read_rest :: "((byte list \<Rightarrow> byte list) \<Rightarrow> 'f \<Rightarrow> 'f) \<Rightarrow> 'f parser" where
  "read_rest upd s =
     (case s of (f, r) \<Rightarrow> case read_best_all r of (d, r') \<Rightarrow> (True, (upd (\<lambda>_. d) f, r')))"

text \<open>\<^verbatim>\<open>r.read(wvec)\<close> copies into an array of fixed size, and only on success.\<close>

definition read_into :: "((byte list \<Rightarrow> byte list) \<Rightarrow> 'f \<Rightarrow> 'f) \<Rightarrow> nat \<Rightarrow> 'f parser" where
  "read_into upd n s =
     (case s of (f, r) \<Rightarrow> case reader_read n r of
        ((d, ok), r') \<Rightarrow> if ok then (True, (upd (\<lambda>_. d) f, r')) else (False, (f, r')))"

definition read_byte :: "((byte \<Rightarrow> byte) \<Rightarrow> 'f \<Rightarrow> 'f) \<Rightarrow> 'f parser" where
  "read_byte upd s =
     (case s of (f, r) \<Rightarrow> case reader_read 1 r of
        ((d, ok), r') \<Rightarrow> if ok then (True, (upd (\<lambda>_. d ! 0) f, r')) else (False, (f, r')))"

text \<open>\<^verbatim>\<open>binary::read_num(r, field)\<close>, in network byte order.\<close>

definition read_u64 :: "((u64 \<Rightarrow> u64) \<Rightarrow> 'f \<Rightarrow> 'f) \<Rightarrow> ('f \<Rightarrow> u64) \<Rightarrow> 'f parser" where
  "read_u64 upd old s =
     (case s of (f, r) \<Rightarrow> case read_num True (old f) r of ((ok, v), r') \<Rightarrow> (ok, (upd (\<lambda>_. v) f, r')))"

text \<open>A step chosen by the fields read so far.\<close>

definition on_frame :: "('f \<Rightarrow> 'f parser) \<Rightarrow> 'f parser" where
  "on_frame p s = p (fst s) s"

section \<open>Reasoning about parsers and renderers\<close>

text \<open>
  \<open>encodes\<close>: the renderer writes exactly \<open>bs\<close> if it may and there is room, and
  fails otherwise. \<open>decodes\<close>: from frame \<open>f\<close> the parser reads exactly \<open>bs\<close> and
  leaves frame \<open>f'\<close>; a parser that takes all that is left does so only at the
  end (\<open>tail\<close>). \<open>safe\<close>: whatever the input, the reader only moves forward and
  stays inside its buffer.
\<close>

definition encodes :: "writer action \<Rightarrow> bool \<Rightarrow> byte list \<Rightarrow> bool" where
  "encodes f ok bs \<longleftrightarrow> (\<forall>w. writer_wf w \<longrightarrow>
     (if ok \<and> length bs \<le> room w then f w = (True, emit bs w)
      else \<not> fst (f w) \<and> writer_wf (snd (f w))))"

definition decodes :: "bool \<Rightarrow> 'f \<Rightarrow> 'f parser \<Rightarrow> byte list \<Rightarrow> 'f \<Rightarrow> bool" where
  "decodes tail f p bs f' \<longleftrightarrow> (\<forall>pre rest. (tail \<longrightarrow> rest = []) \<longrightarrow>
     p (f, rd pre (bs @ rest)) = (True, (f', rd (pre @ bs) rest)))"

definition safe :: "'f parser \<Rightarrow> bool" where
  "safe p \<longleftrightarrow> (\<forall>f r. reader_wf r \<longrightarrow> advances r (snd (snd (p (f, r)))))"

text \<open>\<open>progress\<close>: a parser that succeeds has moved the reader.\<close>

definition progress :: "'f parser \<Rightarrow> bool" where
  "progress p \<longleftrightarrow> (\<forall>f r. reader_wf r \<longrightarrow> fst (p (f, r)) \<longrightarrow> r_index r < r_index (snd (snd (p (f, r)))))"

named_theorems encodes_intros \<open>rules for renderers\<close>
named_theorems safe_intros \<open>rules for the safety of parsers\<close>

lemma encodes_chain_Nil: "encodes (chain []) True []"
  by (simp add: encodes_def)

lemma encodes_chain_Cons:
  assumes "encodes f ok bs" and "encodes (chain fs) ok' bs'"
  shows "encodes (chain (f # fs)) (ok \<and> ok') (bs @ bs')"
  unfolding encodes_def
proof (intro allI impI)
  fix w assume w: "writer_wf w"
  show "if (ok \<and> ok') \<and> length (bs @ bs') \<le> room w then chain (f # fs) w = (True, emit (bs @ bs') w)
        else \<not> fst (chain (f # fs) w) \<and> writer_wf (snd (chain (f # fs) w))"
  proof (cases "ok \<and> length bs \<le> room w")
    case True
    then have "f w = (True, emit bs w)" "writer_wf (emit bs w)" "room (emit bs w) = room w - length bs"
      using assms(1) w by (auto simp: encodes_def emit_wf emit_room)
    then show ?thesis
      using assms(2) True w emit_append [OF w, of bs bs'] unfolding encodes_def
      by (cases "ok' \<and> length bs' \<le> room (emit bs w)") auto
  next
    case False
    then show ?thesis using assms(1) w by (auto simp: encodes_def split: prod.splits)
  qed
qed

lemma encodes_varint [encodes_intros]: "encodes (varint_write x) (varint_ok x) (venc x)"
  using varint_write_emit [of x] varint_write_fail [of x] by (auto simp: encodes_def not_le)

lemma encodes_type [encodes_intros]: "encodes (type_minwrite t) (varint_ok (Value t)) (venc (Value t))"
  unfolding type_minwrite_def by (rule encodes_varint)

lemma encodes_write [encodes_intros]: "encodes (writer_write d) True d"
  using writer_write_emit [of _ d] writer_write_overflow [of _ d] writer_write_wf [of _ d]
  by (auto simp: encodes_def not_le)

lemma encodes_unless [encodes_intros]:
  "encodes f ok bs \<Longrightarrow> encodes (unless c f) (c \<or> ok) (if c then [] else bs)"
  by (auto simp: encodes_def)

lemma encodes_num [encodes_intros]: "encodes (write_num True (x :: u64)) True (write_be x)"
  using write_num_emit [where ?'a = 64 and be = True and x = x] write_num_full [where ?'a = 64 and be = True and x = x]
  by (auto simp: encodes_def not_le)

lemma encodes_fail_if [encodes_intros]:
  "encodes f ok bs \<Longrightarrow> encodes (fail_if c f) (\<not> c \<and> ok) bs"
  by (auto simp: encodes_def fail_if_def)

lemmas encodes_rules = encodes_chain_Cons encodes_chain_Nil encodes_intros

lemma encodes_ok_cong: "encodes f ok bs \<Longrightarrow> ok = ok' \<Longrightarrow> bs = bs' \<Longrightarrow> encodes f ok' bs'"
  by simp

lemma encodes_simps:
  "encodes f ok bs \<Longrightarrow> ok \<Longrightarrow> writer_wf w \<Longrightarrow> length bs \<le> room w \<Longrightarrow> f w = (True, emit bs w)"
  "encodes f ok bs \<Longrightarrow> writer_wf w \<Longrightarrow> fst (f w) \<longleftrightarrow> ok \<and> length bs \<le> room w"
  "encodes f ok bs \<Longrightarrow> writer_wf w \<Longrightarrow> writer_wf (snd (f w))"
  by (auto simp: encodes_def emit_wf split: if_splits)

subsection \<open>Parser rules\<close>

text \<open>Each step, run on a reader whose next bytes are what it expects.\<close>

named_theorems step_simps \<open>steps of a parser on the bytes they expect\<close>

lemma is_min_len_vnorm: "varint_ok (Value v) \<Longrightarrow> is_min_len (vnorm (Value v))"
  by (simp add: is_min_len_def vnorm_def varint_len_def Value_def varint_ok_def)

lemma frame_parse_step [step_simps]:
  "varint_ok (Value v) \<Longrightarrow> frame_parse (f, rd pre (venc (Value v) @ rest))
     = (True, (f\<lparr>f_type := v\<rparr>, rd (pre @ venc (Value v)) rest))"
  by (simp add: frame_parse_def varint_read_venc is_min_len_vnorm) (simp add: vnorm_def Value_def)

lemma parse_check_step [step_simps]:
  "varint_ok (Value v) \<Longrightarrow> ff_type v = ty \<Longrightarrow> parse_check ty (f, rd pre (venc (Value v) @ rest))
     = (True, (f\<lparr>f_type := v\<rparr>, rd (pre @ venc (Value v)) rest))"
  by (simp add: parse_check_def frame_parse_step)

lemma read_varint_step [step_simps]:
  "varint_ok x \<Longrightarrow> read_varint upd (f, rd pre (venc x @ rest)) = (True, (upd (\<lambda>_. vnorm x) f, rd (pre @ venc x) rest))"
  "varint_ok x \<Longrightarrow> read_varint upd (f, rd pre (venc x)) = (True, (upd (\<lambda>_. vnorm x) f, rd (pre @ venc x) []))"
  using varint_read_venc [of x pre rest] varint_read_venc [of x pre "[]"] by (simp_all add: read_varint_def)

lemma read_rvec_step [step_simps]:
  "n f = length d \<Longrightarrow> read_rvec upd n (f, rd pre (d @ rest)) = (True, (upd (\<lambda>_. d) f, rd (pre @ d) rest))"
  by (simp add: read_rvec_def)

lemma read_into_step [step_simps]:
  "length d = n \<Longrightarrow> read_into upd n (f, rd pre (d @ rest)) = (True, (upd (\<lambda>_. d) f, rd (pre @ d) rest))"
  by (simp add: read_into_def)

lemma read_byte_step [step_simps]:
  "read_byte upd (f, rd pre (b # rest)) = (True, (upd (\<lambda>_. b) f, rd (pre @ [b]) rest))"
  using reader_read_append [of "[b]" 1 pre rest] by (simp add: read_byte_def)

lemma read_u64_step [step_simps]:
  "read_u64 upd old (f, rd pre (write_be x @ rest)) = (True, (upd (\<lambda>_. x) f, rd (pre @ write_be x) rest))"
  using read_num_append [where ?'a = 64, of True "old f" pre x rest] by (simp add: read_u64_def)

lemma read_rest_step [step_simps]:
  "read_rest upd (f, rd pre rest) = (True, (upd (\<lambda>_. rest) f, rd (pre @ rest) []))"
  by (simp add: read_rest_def)

lemma on_frame_step [step_simps]: "on_frame p (f, r) = p f (f, r)"
  by (simp add: on_frame_def)

subsection \<open>Safety rules\<close>

lemma safe_Nil [safe_intros]: "safe (chain [])"
  by (simp add: safe_def advances_refl)

lemma safe_Cons [safe_intros]:
  assumes "safe p" "safe (chain ps)"
  shows "safe (chain (p # ps))"
  unfolding safe_def
proof (intro allI impI)
  fix f :: 'a and r assume "reader_wf r"
  then have r: "advances r (snd (snd (p (f, r))))" using assms(1) by (simp add: safe_def)
  then have "advances (snd (snd (p (f, r)))) (snd (snd (chain ps (snd (p (f, r))))))"
    using assms(2) advances_wf [OF r] unfolding safe_def by (metis prod.collapse)
  with r show "advances r (snd (snd (chain (p # ps) (f, r))))"
    using advances_trans [OF r] by (auto split: prod.splits)
qed

lemma safe_frame [safe_intros]: "safe frame_parse"
  using varint_read_advances by (auto simp: safe_def frame_parse_def split: prod.splits) (metis snd_conv)+

lemma safe_check [safe_intros]: "safe (parse_check ty)"
proof -
  have "snd (snd (parse_check ty s)) = snd (snd (frame_parse s))" for s :: "'a Frame_scheme \<times> reader"
    by (simp add: parse_check_def split: prod.split)
  then show ?thesis using safe_frame by (simp add: safe_def)
qed

lemma safe_varint [safe_intros]: "safe (read_varint upd)"
  using varint_read_advances by (auto simp: safe_def read_varint_def split: prod.splits) (metis snd_conv)

lemma safe_rvec [safe_intros]: "safe (read_rvec upd n)"
  using reader_read_advances by (auto simp: safe_def read_rvec_def split: prod.splits) (metis snd_conv)

lemma safe_rest [safe_intros]: "safe (read_rest upd)"
  using read_best_all_advances by (auto simp: safe_def read_rest_def split: prod.splits) (metis snd_conv)

lemma safe_into [safe_intros]: "safe (read_into upd n)"
  using reader_read_advances by (auto simp: safe_def read_into_def split: prod.splits) (metis snd_conv)+

lemma safe_byte [safe_intros]: "safe (read_byte upd)"
  using reader_read_advances by (auto simp: safe_def read_byte_def split: prod.splits) (metis snd_conv)+

lemma safe_u64 [safe_intros]: "safe (read_u64 upd old)"
  using read_num_advances [where ?'a = 64 and be = True]
  by (auto simp: safe_def read_u64_def split: prod.splits) (metis snd_conv)

lemma safe_on_frame [safe_intros]: "(\<And>f. safe (p f)) \<Longrightarrow> safe (on_frame p)"
  by (simp add: safe_def on_frame_def)

lemma safe_unless [safe_intros]: "safe p \<Longrightarrow> safe (unless c p)"
  by (auto simp: safe_def unless_def advances_refl)

lemma safe_assign [safe_intros]: "(\<And>s. snd (g s) = snd s) \<Longrightarrow> safe (assign g)"
  by (simp add: safe_def advances_refl)

lemma safe_if [safe_intros]: "safe p \<Longrightarrow> safe q \<Longrightarrow> safe (if c then p else q)"
  by simp

lemma progress_frame [safe_intros]: "progress frame_parse"
  using varint_read_moves by (auto simp: progress_def frame_parse_def split: prod.splits)

lemma progress_check [safe_intros]: "progress (parse_check ty)"
proof -
  have "fst (parse_check ty s) \<Longrightarrow> fst (frame_parse s)" and "snd (snd (parse_check ty s)) = snd (snd (frame_parse s))"
    for s :: "'a Frame_scheme \<times> reader"
    by (simp_all add: parse_check_def split: prod.splits)
  then show ?thesis by (metis progress_def progress_frame)
qed

lemma progress_Cons [safe_intros]:
  assumes "progress p" "safe p" "safe (chain ps)"
  shows "progress (chain (p # ps))"
  unfolding progress_def
proof (intro allI impI)
  fix f :: 'a and r assume r: "reader_wf r" and ok: "fst (chain (p # ps) (f, r))"
  obtain b f' r' where 1: "p (f, r) = (b, (f', r'))" by (metis surj_pair)
  then have b: b using ok by (auto split: if_splits)
  have "r_index r < r_index r'" "reader_wf r'"
    using assms(1,2) r 1 b by (auto simp: progress_def safe_def advances_def dest!: spec [of _ f])
  moreover from this(2) have "r_index r' \<le> r_index (snd (snd (chain ps (f', r'))))"
    using assms(3) by (simp add: safe_def advances_def)
  ultimately show "r_index r < r_index (snd (snd (chain (p # ps) (f, r))))" using 1 b by simp
qed

section \<open>The contract of a frame type\<close>

text \<open>
  What a frame type promises: which frames it renders (\<open>ok\<close>, among the well-formed
  ones: those whose byte fields have the size of their C++ type) and as which bytes; that parsing
  those bytes into a fresh frame (\<open>fresh\<close>) gives the frame \<open>norm f\<close>, which
  renders to the same bytes; that the predicted length is the length; and that
  the parser stays inside its input.
\<close>

locale frame_codec =
  fixes render :: "'f \<Rightarrow> writer action"
    and parse :: "'f parser"
    and len :: "bool \<Rightarrow> 'f \<Rightarrow> nat"
    and enc :: "'f \<Rightarrow> byte list"
    and ok :: "'f \<Rightarrow> bool"
    and norm :: "'f \<Rightarrow> 'f"
    and tail :: "'f \<Rightarrow> bool"
    and fresh :: "'f"
    and wf :: "'f \<Rightarrow> bool"
  assumes render_encodes: "wf f \<Longrightarrow> encodes (render f) (ok f) (enc f)"
    and parse_decodes: "wf f \<Longrightarrow> ok f \<Longrightarrow> decodes (tail f) fresh parse (enc f) (norm f)"
    and len_enc: "wf f \<Longrightarrow> ok f \<Longrightarrow> len False f = length (enc f)"
    and len_parsed: "wf f \<Longrightarrow> ok f \<Longrightarrow> len True (norm f) = length (enc f)"
    and norm_same: "wf f \<Longrightarrow> ok f \<Longrightarrow> wf (norm f) \<and> ok (norm f) \<and> enc (norm f) = enc f"
    and parse_safe: "safe parse"
    and parse_progress: "progress parse"
begin

lemma render_succeeds_iff:
  "wf f \<Longrightarrow> writer_wf w \<Longrightarrow> fst (render f w) \<longleftrightarrow> ok f \<and> length (enc f) \<le> room w"
  by (rule encodes_simps(2) [OF render_encodes])

lemma render_writes:
  assumes "wf f" "writer_wf w" "fst (render f w)"
  shows "snd (render f w) = emit (enc f) w" "written (snd (render f w)) = written w @ enc f"
    "length (enc f) = len False f" "ok f"
proof -
  have o: "ok f" "length (enc f) \<le> room w" using render_succeeds_iff [OF assms(1,2)] assms(3) by auto
  show "snd (render f w) = emit (enc f) w"
    using encodes_simps(1) [OF render_encodes [OF assms(1)] o(1) assms(2) o(2)] by simp
  then show "written (snd (render f w)) = written w @ enc f" using written_emit [OF assms(2) o(2)] by simp
  show "length (enc f) = len False f" "ok f" using len_enc [OF assms(1) o(1)] o(1) by auto
qed

lemma parse_rendered:
  assumes "wf f" "writer_wf w" "fst (render f w)" "tail f \<longrightarrow> rest = []"
  shows "parse (fresh, rd (written w) (drop (length (written w)) (written (snd (render f w))) @ rest))
       = (True, (norm f, rd (written (snd (render f w))) rest))"
  using render_writes [OF assms(1-3)] parse_decodes [OF assms(1)] assms(4) by (simp add: decodes_def)

lemma render_parsed:
  assumes "wf f" "ok f" "writer_wf w"
  shows "fst (render (norm f) w) = fst (render f w)"
  using render_succeeds_iff assms norm_same [OF assms(1,2)] by simp

end

subsection \<open>Facts shared by the frame types\<close>

declare FT.simps [simp del]

lemma FT_inject [simp]: "FT a = FT b \<longleftrightarrow> a = b"
  by (cases a; cases b; simp add: FT.simps)

lemma varint_ok_FT [simp]: "varint_ok (Value (FrameFlags_of (FT n)))"
  by (cases n; simp add: FT.simps FrameFlags_of_def varint_ok_Value word_less_nat_alt)

lemma min_len_FT [simp]: "min_len (FrameFlags_of (FT n)) = 1"
  by (cases n; simp add: FT.simps FrameFlags_of_def min_len_def in_range_def border_def word_less_nat_alt)

lemma ff_type_FT [simp]:
  "ff_type (FrameFlags_of (FT n)) =
     FT (case n of ACK_ECN \<Rightarrow> ACK | MAX_STREAMS_UNI \<Rightarrow> MAX_STREAMS | STREAMS_BLOCKED_UNI \<Rightarrow> STREAMS_BLOCKED
         | CONNECTION_CLOSE_APP \<Rightarrow> CONNECTION_CLOSE | DATAGRAM_LEN \<Rightarrow> DATAGRAM | _ \<Rightarrow> n)"
  unfolding ff_type_def type_detail_FT Let_def frame_type_defs by (cases n) (simp_all add: FT.simps)

lemma Value_sel [simp]: "vval (Value v) = v" "vlen (Value v) = 0"
  by (simp_all add: Value_def)

lemma vnorm_simps [simp]:
  "vval (vnorm x) = vval x" "varint_len (vnorm x) = varint_len x" "varint_ok (vnorm x) = varint_ok x"
  "venc (vnorm x) = venc x" "vnorm (vnorm x) = vnorm x"
proof -
  show l: "varint_len (vnorm x) = varint_len x" by (simp add: varint_len_def vnorm_def)
  show v: "vval (vnorm x) = vval x" by (simp add: vnorm_def)
  show "varint_ok (vnorm x) = varint_ok x" using l v by (simp add: varint_ok_def)
  show "venc (vnorm x) = venc x" using l v by (simp add: venc_def)
  show "vnorm (vnorm x) = vnorm x" unfolding vnorm_def [of "vnorm x"] l v by (simp add: vnorm_def)
qed

lemma varint_len_Value [simp]: "unat (varint_len (Value v)) = min_len v"
  by (simp add: varint_len_def)

text \<open>A size as the code writes it: a varint of the least length.\<close>

definition size_t_ok :: "byte list \<Rightarrow> bool" where
  "size_t_ok d \<longleftrightarrow> length d < 2 ^ 64"

definition vsize :: "byte list \<Rightarrow> varint" where
  "vsize d = Value (of_nat (length d))"

lemma unat_vsize [simp]: "size_t_ok d \<Longrightarrow> unat (vval (vsize d)) = length d"
  by (simp add: size_t_ok_def vsize_def unat_of_nat_u64)

lemma vsize_ok: "size_t_ok d \<Longrightarrow> varint_ok (vsize d) \<longleftrightarrow> length d < 2 ^ 62"
  by (simp add: size_t_ok_def vsize_def varint_ok_Value word_less_nat_alt unat_of_nat_u64)

lemmas frame_simps = length_venc type_minlen_def

end
