(* ===== verification/Frames.thy ===== *)
theory Frames
  imports FrameBase
begin

text \<open>
  The frame types whose layout is a fixed sequence of fields: the type-only
  frames, PATH_CHALLENGE and PATH_RESPONSE, CRYPTO, NEW_TOKEN, the connection ID
  frames, the flow control frames, RESET_STREAM, STOP_SENDING and
  CONNECTION_CLOSE (\<^verbatim>\<open>typeonly.h\<close>, \<^verbatim>\<open>path.h\<close>, \<^verbatim>\<open>crypto.h\<close>, \<^verbatim>\<open>token.h\<close>, \<^verbatim>\<open>conn_id.h\<close>,
  \<^verbatim>\<open>conn_manage.h\<close>, \<^verbatim>\<open>stream_manage.h\<close> under \<^verbatim>\<open>fnet/quic/frame\<close>). Each has the C++
  members \<^verbatim>\<open>get_type\<close>, \<^verbatim>\<open>parse\<close>, \<^verbatim>\<open>len\<close> and \<^verbatim>\<open>render\<close>, the bytes it stands for
  (\<open>enc\<close>), when it can be rendered (\<open>ok\<close>) and what it is read back as (\<open>norm\<close>),
  and an interpretation of the contract \<open>frame_codec\<close>.
\<close>

section \<open>Type-only frames\<close>

definition typeonly_get_type :: "FrameType \<Rightarrow> bool \<Rightarrow> Frame \<Rightarrow> FrameType" where
  "typeonly_get_type t on_cast f = t"

definition typeonly_parse :: "FrameType \<Rightarrow> Frame parser" where
  "typeonly_parse t s =
     (case frame_parse s of (ok, (f, r)) \<Rightarrow> (ok \<and> type_detail (f_type f) = t, (f, r)))"

definition typeonly_len :: "FrameType \<Rightarrow> bool \<Rightarrow> Frame \<Rightarrow> nat" where
  "typeonly_len t use_length_field f = min_len (FrameFlags_of t)"

definition typeonly_render :: "FrameType \<Rightarrow> Frame \<Rightarrow> writer action" where
  "typeonly_render t f = varint_write (Value (FrameFlags_of t))"

definition typeonly_enc :: "FrameType \<Rightarrow> Frame \<Rightarrow> byte list" where
  "typeonly_enc t f = venc (Value (FrameFlags_of t))"

definition typeonly_norm :: "FrameType \<Rightarrow> Frame \<Rightarrow> Frame" where
  "typeonly_norm t f = \<lparr>f_type = FrameFlags_of t\<rparr>"

definition frame_fresh :: Frame where
  "frame_fresh = \<lparr>f_type = 0\<rparr>"

lemmas typeonly_defs = typeonly_parse_def typeonly_len_def typeonly_render_def typeonly_enc_def
  typeonly_norm_def frame_fresh_def

lemma typeonly_safe: "safe (typeonly_parse t)"
proof -
  have "snd (snd (typeonly_parse t s)) = snd (snd (frame_parse s))" for s
    by (simp add: typeonly_parse_def split: prod.split)
  then show ?thesis using safe_frame by (simp add: safe_def)
qed

lemma typeonly_progress: "progress (typeonly_parse t)"
proof -
  have "fst (typeonly_parse t s) \<Longrightarrow> fst (frame_parse s)" and "snd (snd (typeonly_parse t s)) = snd (snd (frame_parse s))" for s
    by (simp_all add: typeonly_parse_def split: prod.splits)
  then show ?thesis by (metis progress_def progress_frame)
qed

lemma typeonly_frame_codec:
  "frame_codec (typeonly_render (FT n)) (typeonly_parse (FT n)) (typeonly_len (FT n)) (typeonly_enc (FT n))
     (\<lambda>_. True) (typeonly_norm (FT n)) (\<lambda>_. False) frame_fresh (\<lambda>_. True)"
  by unfold_locales
    (use encodes_varint [of "Value (FrameFlags_of (FT n))"] in
      \<open>simp_all add: typeonly_safe typeonly_progress typeonly_defs decodes_def step_simps frame_simps\<close>)

interpretation padding_codec: frame_codec "typeonly_render (FT PADDING)" "typeonly_parse (FT PADDING)"
  "typeonly_len (FT PADDING)" "typeonly_enc (FT PADDING)" "\<lambda>_. True" "typeonly_norm (FT PADDING)"
  "\<lambda>_. False" frame_fresh "\<lambda>_. True"
  by (rule typeonly_frame_codec)

interpretation ping_codec: frame_codec "typeonly_render (FT PING)" "typeonly_parse (FT PING)"
  "typeonly_len (FT PING)" "typeonly_enc (FT PING)" "\<lambda>_. True" "typeonly_norm (FT PING)"
  "\<lambda>_. False" frame_fresh "\<lambda>_. True"
  by (rule typeonly_frame_codec)

interpretation handshake_done_codec: frame_codec "typeonly_render (FT HANDSHAKE_DONE)"
  "typeonly_parse (FT HANDSHAKE_DONE)" "typeonly_len (FT HANDSHAKE_DONE)" "typeonly_enc (FT HANDSHAKE_DONE)"
  "\<lambda>_. True" "typeonly_norm (FT HANDSHAKE_DONE)" "\<lambda>_. False" frame_fresh "\<lambda>_. True"
  by (rule typeonly_frame_codec)

section \<open>PATH_CHALLENGE and PATH_RESPONSE\<close>

record PathFrame = Frame +
  pa_data :: u64

definition path_fresh :: PathFrame where
  "path_fresh = \<lparr>f_type = 0, pa_data = 0\<rparr>"

definition path_get_type :: "FrameType \<Rightarrow> bool \<Rightarrow> PathFrame \<Rightarrow> FrameType" where
  "path_get_type t on_cast f = t"

definition path_parse :: "FrameType \<Rightarrow> PathFrame parser" where
  "path_parse t = chain [parse_check t, read_u64 pa_data_update pa_data]"

definition path_len :: "FrameType \<Rightarrow> bool \<Rightarrow> PathFrame \<Rightarrow> nat" where
  "path_len t use_length_field f = type_minlen (FrameFlags_of t) + 8"

definition path_render :: "FrameType \<Rightarrow> PathFrame \<Rightarrow> writer action" where
  "path_render t f = chain [type_minwrite (FrameFlags_of t), write_num True (pa_data f)]"

definition path_enc :: "FrameType \<Rightarrow> PathFrame \<Rightarrow> byte list" where
  "path_enc t f = venc (Value (FrameFlags_of t)) @ write_be (pa_data f)"

definition path_ok :: "FrameType \<Rightarrow> PathFrame \<Rightarrow> bool" where
  "path_ok t f \<longleftrightarrow> varint_ok (Value (FrameFlags_of t))"

definition path_norm :: "FrameType \<Rightarrow> PathFrame \<Rightarrow> PathFrame" where
  "path_norm t f = \<lparr>f_type = FrameFlags_of t, pa_data = pa_data f\<rparr>"

lemmas path_defs = path_fresh_def path_parse_def path_len_def path_render_def
  path_enc_def path_ok_def path_norm_def

lemma path_encodes: "encodes (path_render t f) (path_ok t f) (path_enc t f)"
  unfolding path_defs by (rule encodes_ok_cong, (rule encodes_rules)+) simp_all

lemma path_frame_codec:
  assumes "ff_type (FrameFlags_of (FT n)) = FT n"
  shows "frame_codec (path_render (FT n)) (path_parse (FT n)) (path_len (FT n)) (path_enc (FT n)) (path_ok (FT n))
     (path_norm (FT n)) (\<lambda>_. False) path_fresh (\<lambda>_. True)"
  using assms by unfold_locales
    (rule path_encodes, simp_all add: path_defs step_simps frame_simps decodes_def safe_intros)

interpretation path_challenge_codec: frame_codec "path_render (FT PATH_CHALLENGE)" "path_parse (FT PATH_CHALLENGE)" "path_len (FT PATH_CHALLENGE)"
  "path_enc (FT PATH_CHALLENGE)" "path_ok (FT PATH_CHALLENGE)" "path_norm (FT PATH_CHALLENGE)" "\<lambda>_. False" path_fresh "\<lambda>_. True"
  by (rule path_frame_codec) simp

interpretation path_response_codec: frame_codec "path_render (FT PATH_RESPONSE)" "path_parse (FT PATH_RESPONSE)" "path_len (FT PATH_RESPONSE)"
  "path_enc (FT PATH_RESPONSE)" "path_ok (FT PATH_RESPONSE)" "path_norm (FT PATH_RESPONSE)" "\<lambda>_. False" path_fresh "\<lambda>_. True"
  by (rule path_frame_codec) simp

section \<open>CRYPTO\<close>

record CryptoFrame = Frame +
  cr_offset :: varint
  cr_length :: varint
  cr_data :: "byte list"

definition crypto_fresh :: CryptoFrame where
  "crypto_fresh = \<lparr>f_type = 0, cr_offset = Value 0, cr_length = Value 0, cr_data = []\<rparr>"

definition crypto_get_type :: "bool \<Rightarrow> CryptoFrame \<Rightarrow> FrameType" where
  "crypto_get_type on_cast f = FT CRYPTO"

definition crypto_parse :: "CryptoFrame parser" where
  "crypto_parse = chain
     [parse_check (FT CRYPTO), read_varint cr_offset_update, read_varint cr_length_update,
      read_rvec cr_data_update (\<lambda>f. unat (vval (cr_length f)))]"

definition crypto_len :: "bool \<Rightarrow> CryptoFrame \<Rightarrow> nat" where
  "crypto_len use_length_field f =
     type_minlen (FrameFlags_of (FT CRYPTO)) + unat (varint_len (cr_offset f))
     + (if use_length_field then unat (varint_len (cr_length f)) else unat (varint_len (vsize (cr_data f))))
     + length (cr_data f)"

definition crypto_render :: "CryptoFrame \<Rightarrow> writer action" where
  "crypto_render f = chain
     [type_minwrite (FrameFlags_of (FT CRYPTO)), varint_write (cr_offset f),
      varint_write (vsize (cr_data f)), writer_write (cr_data f)]"

definition crypto_enc :: "CryptoFrame \<Rightarrow> byte list" where
  "crypto_enc f = venc (Value (FrameFlags_of (FT CRYPTO))) @ venc (cr_offset f) @ venc (vsize (cr_data f))
     @ cr_data f"

definition crypto_ok :: "CryptoFrame \<Rightarrow> bool" where
  "crypto_ok f \<longleftrightarrow> varint_ok (cr_offset f) \<and> varint_ok (vsize (cr_data f))"

definition crypto_norm :: "CryptoFrame \<Rightarrow> CryptoFrame" where
  "crypto_norm f = \<lparr>f_type = FrameFlags_of (FT CRYPTO), cr_offset = vnorm (cr_offset f),
     cr_length = vnorm (vsize (cr_data f)), cr_data = cr_data f\<rparr>"

lemmas crypto_defs = crypto_fresh_def crypto_parse_def crypto_len_def crypto_render_def
  crypto_enc_def crypto_ok_def crypto_norm_def

lemma crypto_encodes: "encodes (crypto_render f) (crypto_ok f) (crypto_enc f)"
  unfolding crypto_defs by (rule encodes_ok_cong, (rule encodes_rules)+) simp_all

interpretation crypto_codec: frame_codec crypto_render crypto_parse crypto_len crypto_enc crypto_ok crypto_norm
  "\<lambda>_. False" crypto_fresh "\<lambda>f. size_t_ok (cr_data f)"
  by unfold_locales
    (rule crypto_encodes, simp_all add: crypto_defs step_simps frame_simps decodes_def safe_intros)

section \<open>NEW_TOKEN\<close>

record NewTokenFrame = Frame +
  nt_length :: varint
  nt_token :: "byte list"

definition new_token_fresh :: NewTokenFrame where
  "new_token_fresh = \<lparr>f_type = 0, nt_length = Value 0, nt_token = []\<rparr>"

definition new_token_get_type :: "bool \<Rightarrow> NewTokenFrame \<Rightarrow> FrameType" where
  "new_token_get_type on_cast f = FT NEW_TOKEN"

definition new_token_parse :: "NewTokenFrame parser" where
  "new_token_parse = chain
     [parse_check (FT NEW_TOKEN), read_varint nt_length_update,
      read_rvec nt_token_update (\<lambda>f. unat (vval (nt_length f)))]"

definition new_token_len :: "bool \<Rightarrow> NewTokenFrame \<Rightarrow> nat" where
  "new_token_len use_length_field f =
     type_minlen (FrameFlags_of (FT NEW_TOKEN))
     + (if use_length_field then unat (varint_len (nt_length f)) else unat (varint_len (vsize (nt_token f))))
     + length (nt_token f)"

definition new_token_render :: "NewTokenFrame \<Rightarrow> writer action" where
  "new_token_render f = chain
     [type_minwrite (FrameFlags_of (FT NEW_TOKEN)), varint_write (vsize (nt_token f)),
      writer_write (nt_token f)]"

definition new_token_enc :: "NewTokenFrame \<Rightarrow> byte list" where
  "new_token_enc f = venc (Value (FrameFlags_of (FT NEW_TOKEN))) @ venc (vsize (nt_token f)) @ nt_token f"

definition new_token_ok :: "NewTokenFrame \<Rightarrow> bool" where
  "new_token_ok f \<longleftrightarrow> varint_ok (vsize (nt_token f))"

definition new_token_norm :: "NewTokenFrame \<Rightarrow> NewTokenFrame" where
  "new_token_norm f = \<lparr>f_type = FrameFlags_of (FT NEW_TOKEN), nt_length = vnorm (vsize (nt_token f)),
     nt_token = nt_token f\<rparr>"

lemmas new_token_defs = new_token_fresh_def new_token_parse_def new_token_len_def new_token_render_def
  new_token_enc_def new_token_ok_def new_token_norm_def

lemma new_token_encodes: "encodes (new_token_render f) (new_token_ok f) (new_token_enc f)"
  unfolding new_token_defs by (rule encodes_ok_cong, (rule encodes_rules)+) simp_all

interpretation new_token_codec: frame_codec new_token_render new_token_parse new_token_len new_token_enc new_token_ok new_token_norm
  "\<lambda>_. False" new_token_fresh "\<lambda>f. size_t_ok (nt_token f)"
  by unfold_locales
    (rule new_token_encodes, simp_all add: new_token_defs step_simps frame_simps decodes_def safe_intros)

section \<open>NEW_CONNECTION_ID\<close>

record NewConnectionIDFrame = Frame +
  nc_sequence_number :: varint
  nc_retire_proior_to :: varint
  nc_length :: byte
  nc_connectionID :: "byte list"
  nc_stateless_reset_token :: "byte list"

definition new_connid_fresh :: NewConnectionIDFrame where
  "new_connid_fresh = \<lparr>f_type = 0, nc_sequence_number = Value 0, nc_retire_proior_to = Value 0,
     nc_length = 0, nc_connectionID = [], nc_stateless_reset_token = replicate 16 0\<rparr>"

definition new_connid_get_type :: "bool \<Rightarrow> NewConnectionIDFrame \<Rightarrow> FrameType" where
  "new_connid_get_type on_cast f = FT NEW_CONNECTION_ID"

definition new_connid_parse :: "NewConnectionIDFrame parser" where
  "new_connid_parse = chain
     [parse_check (FT NEW_CONNECTION_ID), read_varint nc_sequence_number_update,
      read_varint nc_retire_proior_to_update, read_byte nc_length_update,
      read_rvec nc_connectionID_update (\<lambda>f. unat (nc_length f)),
      read_into nc_stateless_reset_token_update 16]"

definition new_connid_len :: "bool \<Rightarrow> NewConnectionIDFrame \<Rightarrow> nat" where
  "new_connid_len use_length_field f =
     type_minlen (FrameFlags_of (FT NEW_CONNECTION_ID)) + unat (varint_len (nc_sequence_number f))
     + unat (varint_len (nc_retire_proior_to f)) + 1 + length (nc_connectionID f) + 16"

definition new_connid_render :: "NewConnectionIDFrame \<Rightarrow> writer action" where
  "new_connid_render f = fail_if (length (nc_connectionID f) > 0xFF) (chain
     [type_minwrite (FrameFlags_of (FT NEW_CONNECTION_ID)), varint_write (nc_sequence_number f),
      varint_write (nc_retire_proior_to f), writer_write [of_nat (length (nc_connectionID f))],
      writer_write (nc_connectionID f), writer_write (nc_stateless_reset_token f)])"

definition new_connid_enc :: "NewConnectionIDFrame \<Rightarrow> byte list" where
  "new_connid_enc f = venc (Value (FrameFlags_of (FT NEW_CONNECTION_ID))) @ venc (nc_sequence_number f)
     @ venc (nc_retire_proior_to f) @ [of_nat (length (nc_connectionID f))] @ nc_connectionID f
     @ nc_stateless_reset_token f"

definition new_connid_ok :: "NewConnectionIDFrame \<Rightarrow> bool" where
  "new_connid_ok f \<longleftrightarrow> length (nc_connectionID f) \<le> 0xFF \<and> varint_ok (nc_sequence_number f)
     \<and> varint_ok (nc_retire_proior_to f)"

definition new_connid_norm :: "NewConnectionIDFrame \<Rightarrow> NewConnectionIDFrame" where
  "new_connid_norm f = \<lparr>f_type = FrameFlags_of (FT NEW_CONNECTION_ID),
     nc_sequence_number = vnorm (nc_sequence_number f), nc_retire_proior_to = vnorm (nc_retire_proior_to f),
     nc_length = of_nat (length (nc_connectionID f)), nc_connectionID = nc_connectionID f,
     nc_stateless_reset_token = nc_stateless_reset_token f\<rparr>"

lemmas new_connid_defs = new_connid_fresh_def new_connid_parse_def new_connid_len_def new_connid_render_def
  new_connid_enc_def new_connid_ok_def new_connid_norm_def

lemma new_connid_encodes: "encodes (new_connid_render f) (new_connid_ok f) (new_connid_enc f)"
  unfolding new_connid_defs by (rule encodes_ok_cong, (rule encodes_rules)+) (simp_all add: not_less)

interpretation new_connid_codec: frame_codec new_connid_render new_connid_parse new_connid_len new_connid_enc new_connid_ok new_connid_norm
  "\<lambda>_. False" new_connid_fresh "\<lambda>f. length (nc_stateless_reset_token f) = 16"
  by unfold_locales
    (rule new_connid_encodes, simp_all add: new_connid_defs step_simps frame_simps decodes_def safe_intros unat_of_nat)

section \<open>RETIRE_CONNECTION_ID\<close>

record RetireConnectionIDFrame = Frame +
  rc_sequence_number :: varint

definition retire_connid_fresh :: RetireConnectionIDFrame where
  "retire_connid_fresh = \<lparr>f_type = 0, rc_sequence_number = Value 0\<rparr>"

definition retire_connid_get_type :: "bool \<Rightarrow> RetireConnectionIDFrame \<Rightarrow> FrameType" where
  "retire_connid_get_type on_cast f = FT RETIRE_CONNECTION_ID"

definition retire_connid_parse :: "RetireConnectionIDFrame parser" where
  "retire_connid_parse = chain [parse_check (FT RETIRE_CONNECTION_ID), read_varint rc_sequence_number_update]"

definition retire_connid_len :: "bool \<Rightarrow> RetireConnectionIDFrame \<Rightarrow> nat" where
  "retire_connid_len use_length_field f =
     type_minlen (FrameFlags_of (FT RETIRE_CONNECTION_ID)) + unat (varint_len (rc_sequence_number f))"

definition retire_connid_render :: "RetireConnectionIDFrame \<Rightarrow> writer action" where
  "retire_connid_render f = chain
     [type_minwrite (FrameFlags_of (FT RETIRE_CONNECTION_ID)), varint_write (rc_sequence_number f)]"

definition retire_connid_enc :: "RetireConnectionIDFrame \<Rightarrow> byte list" where
  "retire_connid_enc f = venc (Value (FrameFlags_of (FT RETIRE_CONNECTION_ID))) @ venc (rc_sequence_number f)"

definition retire_connid_ok :: "RetireConnectionIDFrame \<Rightarrow> bool" where
  "retire_connid_ok f \<longleftrightarrow> varint_ok (rc_sequence_number f)"

definition retire_connid_norm :: "RetireConnectionIDFrame \<Rightarrow> RetireConnectionIDFrame" where
  "retire_connid_norm f = \<lparr>f_type = FrameFlags_of (FT RETIRE_CONNECTION_ID),
     rc_sequence_number = vnorm (rc_sequence_number f)\<rparr>"

lemmas retire_connid_defs = retire_connid_fresh_def retire_connid_parse_def retire_connid_len_def retire_connid_render_def
  retire_connid_enc_def retire_connid_ok_def retire_connid_norm_def

lemma retire_connid_encodes: "encodes (retire_connid_render f) (retire_connid_ok f) (retire_connid_enc f)"
  unfolding retire_connid_defs by (rule encodes_ok_cong, (rule encodes_rules)+) simp_all

interpretation retire_connid_codec: frame_codec retire_connid_render retire_connid_parse retire_connid_len retire_connid_enc retire_connid_ok retire_connid_norm
  "\<lambda>_. False" retire_connid_fresh "\<lambda>_. True"
  by unfold_locales
    (rule retire_connid_encodes, simp_all add: retire_connid_defs step_simps frame_simps decodes_def safe_intros)

section \<open>MAX_DATA and DATA_BLOCKED\<close>

record MaxDataFrame = Frame +
  md_max_data :: varint

definition max_data_fresh :: MaxDataFrame where
  "max_data_fresh = \<lparr>f_type = 0, md_max_data = Value 0\<rparr>"

definition max_data_get_type :: "FrameType \<Rightarrow> bool \<Rightarrow> MaxDataFrame \<Rightarrow> FrameType" where
  "max_data_get_type t on_cast f = t"

definition max_data_parse :: "FrameType \<Rightarrow> MaxDataFrame parser" where
  "max_data_parse t = chain [parse_check t, read_varint md_max_data_update]"

definition max_data_len :: "FrameType \<Rightarrow> bool \<Rightarrow> MaxDataFrame \<Rightarrow> nat" where
  "max_data_len t use_length_field f = type_minlen (FrameFlags_of t) + unat (varint_len (md_max_data f))"

definition max_data_render :: "FrameType \<Rightarrow> MaxDataFrame \<Rightarrow> writer action" where
  "max_data_render t f = chain [type_minwrite (FrameFlags_of t), varint_write (md_max_data f)]"

definition max_data_enc :: "FrameType \<Rightarrow> MaxDataFrame \<Rightarrow> byte list" where
  "max_data_enc t f = venc (Value (FrameFlags_of t)) @ venc (md_max_data f)"

definition max_data_ok :: "FrameType \<Rightarrow> MaxDataFrame \<Rightarrow> bool" where
  "max_data_ok t f \<longleftrightarrow> varint_ok (Value (FrameFlags_of t)) \<and> varint_ok (md_max_data f)"

definition max_data_norm :: "FrameType \<Rightarrow> MaxDataFrame \<Rightarrow> MaxDataFrame" where
  "max_data_norm t f = \<lparr>f_type = FrameFlags_of t, md_max_data = vnorm (md_max_data f)\<rparr>"

lemmas max_data_defs = max_data_fresh_def max_data_parse_def max_data_len_def max_data_render_def
  max_data_enc_def max_data_ok_def max_data_norm_def

lemma max_data_encodes: "encodes (max_data_render t f) (max_data_ok t f) (max_data_enc t f)"
  unfolding max_data_defs by (rule encodes_ok_cong, (rule encodes_rules)+) simp_all

lemma max_data_frame_codec:
  assumes "ff_type (FrameFlags_of (FT n)) = FT n"
  shows "frame_codec (max_data_render (FT n)) (max_data_parse (FT n)) (max_data_len (FT n)) (max_data_enc (FT n)) (max_data_ok (FT n))
     (max_data_norm (FT n)) (\<lambda>_. False) max_data_fresh (\<lambda>_. True)"
  using assms by unfold_locales
    (rule max_data_encodes, simp_all add: max_data_defs step_simps frame_simps decodes_def safe_intros)

interpretation max_data_codec: frame_codec "max_data_render (FT MAX_DATA)" "max_data_parse (FT MAX_DATA)" "max_data_len (FT MAX_DATA)"
  "max_data_enc (FT MAX_DATA)" "max_data_ok (FT MAX_DATA)" "max_data_norm (FT MAX_DATA)" "\<lambda>_. False" max_data_fresh "\<lambda>_. True"
  by (rule max_data_frame_codec) simp

interpretation data_blocked_codec: frame_codec "max_data_render (FT DATA_BLOCKED)" "max_data_parse (FT DATA_BLOCKED)" "max_data_len (FT DATA_BLOCKED)"
  "max_data_enc (FT DATA_BLOCKED)" "max_data_ok (FT DATA_BLOCKED)" "max_data_norm (FT DATA_BLOCKED)" "\<lambda>_. False" max_data_fresh "\<lambda>_. True"
  by (rule max_data_frame_codec) simp

section \<open>MAX_STREAM_DATA and STREAM_DATA_BLOCKED\<close>

record MaxStreamDataFrame = Frame +
  msd_streamID :: varint
  msd_max_stream_data :: varint

definition max_stream_data_fresh :: MaxStreamDataFrame where
  "max_stream_data_fresh = \<lparr>f_type = 0, msd_streamID = Value 0, msd_max_stream_data = Value 0\<rparr>"

definition max_stream_data_get_type :: "FrameType \<Rightarrow> bool \<Rightarrow> MaxStreamDataFrame \<Rightarrow> FrameType" where
  "max_stream_data_get_type t on_cast f = t"

definition max_stream_data_parse :: "FrameType \<Rightarrow> MaxStreamDataFrame parser" where
  "max_stream_data_parse t = chain
     [parse_check t, read_varint msd_streamID_update, read_varint msd_max_stream_data_update]"

definition max_stream_data_len :: "FrameType \<Rightarrow> bool \<Rightarrow> MaxStreamDataFrame \<Rightarrow> nat" where
  "max_stream_data_len t use_length_field f = type_minlen (FrameFlags_of t)
     + unat (varint_len (msd_streamID f)) + unat (varint_len (msd_max_stream_data f))"

definition max_stream_data_render :: "FrameType \<Rightarrow> MaxStreamDataFrame \<Rightarrow> writer action" where
  "max_stream_data_render t f = chain
     [type_minwrite (FrameFlags_of t), varint_write (msd_streamID f), varint_write (msd_max_stream_data f)]"

definition max_stream_data_enc :: "FrameType \<Rightarrow> MaxStreamDataFrame \<Rightarrow> byte list" where
  "max_stream_data_enc t f =
     venc (Value (FrameFlags_of t)) @ venc (msd_streamID f) @ venc (msd_max_stream_data f)"

definition max_stream_data_ok :: "FrameType \<Rightarrow> MaxStreamDataFrame \<Rightarrow> bool" where
  "max_stream_data_ok t f \<longleftrightarrow> varint_ok (Value (FrameFlags_of t)) \<and> varint_ok (msd_streamID f)
     \<and> varint_ok (msd_max_stream_data f)"

definition max_stream_data_norm :: "FrameType \<Rightarrow> MaxStreamDataFrame \<Rightarrow> MaxStreamDataFrame" where
  "max_stream_data_norm t f = \<lparr>f_type = FrameFlags_of t, msd_streamID = vnorm (msd_streamID f),
     msd_max_stream_data = vnorm (msd_max_stream_data f)\<rparr>"

lemmas max_stream_data_defs = max_stream_data_fresh_def max_stream_data_parse_def max_stream_data_len_def max_stream_data_render_def
  max_stream_data_enc_def max_stream_data_ok_def max_stream_data_norm_def

lemma max_stream_data_encodes: "encodes (max_stream_data_render t f) (max_stream_data_ok t f) (max_stream_data_enc t f)"
  unfolding max_stream_data_defs by (rule encodes_ok_cong, (rule encodes_rules)+) simp_all

lemma max_stream_data_frame_codec:
  assumes "ff_type (FrameFlags_of (FT n)) = FT n"
  shows "frame_codec (max_stream_data_render (FT n)) (max_stream_data_parse (FT n)) (max_stream_data_len (FT n)) (max_stream_data_enc (FT n)) (max_stream_data_ok (FT n))
     (max_stream_data_norm (FT n)) (\<lambda>_. False) max_stream_data_fresh (\<lambda>_. True)"
  using assms by unfold_locales
    (rule max_stream_data_encodes, simp_all add: max_stream_data_defs step_simps frame_simps decodes_def safe_intros)

interpretation max_stream_data_codec: frame_codec "max_stream_data_render (FT MAX_STREAM_DATA)" "max_stream_data_parse (FT MAX_STREAM_DATA)" "max_stream_data_len (FT MAX_STREAM_DATA)"
  "max_stream_data_enc (FT MAX_STREAM_DATA)" "max_stream_data_ok (FT MAX_STREAM_DATA)" "max_stream_data_norm (FT MAX_STREAM_DATA)" "\<lambda>_. False" max_stream_data_fresh "\<lambda>_. True"
  by (rule max_stream_data_frame_codec) simp

interpretation stream_data_blocked_codec: frame_codec "max_stream_data_render (FT STREAM_DATA_BLOCKED)" "max_stream_data_parse (FT STREAM_DATA_BLOCKED)" "max_stream_data_len (FT STREAM_DATA_BLOCKED)"
  "max_stream_data_enc (FT STREAM_DATA_BLOCKED)" "max_stream_data_ok (FT STREAM_DATA_BLOCKED)" "max_stream_data_norm (FT STREAM_DATA_BLOCKED)" "\<lambda>_. False" max_stream_data_fresh "\<lambda>_. True"
  by (rule max_stream_data_frame_codec) simp

section \<open>RESET_STREAM\<close>

record ResetStreamFrame = Frame +
  rs_streamID :: varint
  rs_error_code :: varint
  rs_final_size :: varint

definition reset_stream_fresh :: ResetStreamFrame where
  "reset_stream_fresh = \<lparr>f_type = 0, rs_streamID = Value 0, rs_error_code = Value 0, rs_final_size = Value 0\<rparr>"

definition reset_stream_get_type :: "bool \<Rightarrow> ResetStreamFrame \<Rightarrow> FrameType" where
  "reset_stream_get_type on_cast f = FT RESET_STREAM"

definition reset_stream_parse :: "ResetStreamFrame parser" where
  "reset_stream_parse = chain
     [parse_check (FT RESET_STREAM), read_varint rs_streamID_update, read_varint rs_error_code_update,
      read_varint rs_final_size_update]"

definition reset_stream_len :: "bool \<Rightarrow> ResetStreamFrame \<Rightarrow> nat" where
  "reset_stream_len use_length_field f = type_minlen (FrameFlags_of (FT RESET_STREAM))
     + unat (varint_len (rs_streamID f)) + unat (varint_len (rs_error_code f))
     + unat (varint_len (rs_final_size f))"

definition reset_stream_render :: "ResetStreamFrame \<Rightarrow> writer action" where
  "reset_stream_render f = chain
     [type_minwrite (FrameFlags_of (FT RESET_STREAM)), varint_write (rs_streamID f),
      varint_write (rs_error_code f), varint_write (rs_final_size f)]"

definition reset_stream_enc :: "ResetStreamFrame \<Rightarrow> byte list" where
  "reset_stream_enc f = venc (Value (FrameFlags_of (FT RESET_STREAM))) @ venc (rs_streamID f)
     @ venc (rs_error_code f) @ venc (rs_final_size f)"

definition reset_stream_ok :: "ResetStreamFrame \<Rightarrow> bool" where
  "reset_stream_ok f \<longleftrightarrow> varint_ok (rs_streamID f) \<and> varint_ok (rs_error_code f) \<and> varint_ok (rs_final_size f)"

definition reset_stream_norm :: "ResetStreamFrame \<Rightarrow> ResetStreamFrame" where
  "reset_stream_norm f = \<lparr>f_type = FrameFlags_of (FT RESET_STREAM), rs_streamID = vnorm (rs_streamID f),
     rs_error_code = vnorm (rs_error_code f), rs_final_size = vnorm (rs_final_size f)\<rparr>"

lemmas reset_stream_defs = reset_stream_fresh_def reset_stream_parse_def reset_stream_len_def reset_stream_render_def
  reset_stream_enc_def reset_stream_ok_def reset_stream_norm_def

lemma reset_stream_encodes: "encodes (reset_stream_render f) (reset_stream_ok f) (reset_stream_enc f)"
  unfolding reset_stream_defs by (rule encodes_ok_cong, (rule encodes_rules)+) simp_all

interpretation reset_stream_codec: frame_codec reset_stream_render reset_stream_parse reset_stream_len reset_stream_enc reset_stream_ok reset_stream_norm
  "\<lambda>_. False" reset_stream_fresh "\<lambda>_. True"
  by unfold_locales
    (rule reset_stream_encodes, simp_all add: reset_stream_defs step_simps frame_simps decodes_def safe_intros)

section \<open>STOP_SENDING\<close>

record StopSendingFrame = Frame +
  ss_streamID :: varint
  ss_error_code :: varint

definition stop_sending_fresh :: StopSendingFrame where
  "stop_sending_fresh = \<lparr>f_type = 0, ss_streamID = Value 0, ss_error_code = Value 0\<rparr>"

definition stop_sending_get_type :: "bool \<Rightarrow> StopSendingFrame \<Rightarrow> FrameType" where
  "stop_sending_get_type on_cast f = FT STOP_SENDING"

definition stop_sending_parse :: "StopSendingFrame parser" where
  "stop_sending_parse = chain
     [parse_check (FT STOP_SENDING), read_varint ss_streamID_update, read_varint ss_error_code_update]"

definition stop_sending_len :: "bool \<Rightarrow> StopSendingFrame \<Rightarrow> nat" where
  "stop_sending_len use_length_field f = type_minlen (FrameFlags_of (FT STOP_SENDING))
     + unat (varint_len (ss_streamID f)) + unat (varint_len (ss_error_code f))"

definition stop_sending_render :: "StopSendingFrame \<Rightarrow> writer action" where
  "stop_sending_render f = chain
     [type_minwrite (FrameFlags_of (FT STOP_SENDING)), varint_write (ss_streamID f),
      varint_write (ss_error_code f)]"

definition stop_sending_enc :: "StopSendingFrame \<Rightarrow> byte list" where
  "stop_sending_enc f =
     venc (Value (FrameFlags_of (FT STOP_SENDING))) @ venc (ss_streamID f) @ venc (ss_error_code f)"

definition stop_sending_ok :: "StopSendingFrame \<Rightarrow> bool" where
  "stop_sending_ok f \<longleftrightarrow> varint_ok (ss_streamID f) \<and> varint_ok (ss_error_code f)"

definition stop_sending_norm :: "StopSendingFrame \<Rightarrow> StopSendingFrame" where
  "stop_sending_norm f = \<lparr>f_type = FrameFlags_of (FT STOP_SENDING), ss_streamID = vnorm (ss_streamID f),
     ss_error_code = vnorm (ss_error_code f)\<rparr>"

lemmas stop_sending_defs = stop_sending_fresh_def stop_sending_parse_def stop_sending_len_def stop_sending_render_def
  stop_sending_enc_def stop_sending_ok_def stop_sending_norm_def

lemma stop_sending_encodes: "encodes (stop_sending_render f) (stop_sending_ok f) (stop_sending_enc f)"
  unfolding stop_sending_defs by (rule encodes_ok_cong, (rule encodes_rules)+) simp_all

interpretation stop_sending_codec: frame_codec stop_sending_render stop_sending_parse stop_sending_len stop_sending_enc stop_sending_ok stop_sending_norm
  "\<lambda>_. False" stop_sending_fresh "\<lambda>_. True"
  by unfold_locales
    (rule stop_sending_encodes, simp_all add: stop_sending_defs step_simps frame_simps decodes_def safe_intros)

end
