(* ===== verification/FlagFrames.thy ===== *)
theory FlagFrames
  imports FrameBase
begin

text \<open>
  The frame types whose layout depends on the type field: MAX_STREAMS and
  STREAMS_BLOCKED, CONNECTION_CLOSE (\<^verbatim>\<open>conn_manage.h\<close>), STREAM (\<^verbatim>\<open>stream_manage.h\<close>)
  and DATAGRAM (\<^verbatim>\<open>datagram.h\<close>), each with its interpretation of \<open>frame_codec\<close>.
\<close>

section \<open>What the filtered type says of the field\<close>

lemma ff_type_STREAM: "ff_type v = FT STREAM \<longleftrightarrow> is_STREAM (type_detail v)"
  by (auto simp: ff_type_def Let_def frame_type_defs FT.simps)

lemma ff_type_small:
  assumes "ff_type v = FT n"
  shows "type_detail v < 64"
  using assms by (cases n) (auto simp: ff_type_def Let_def frame_type_defs FT.simps split: if_splits)

lemma field_small:
  assumes "ff_type v = FT n" "v < 2 ^ 32"
  shows "min_len v = 1" "varint_ok (Value v)"
proof -
  have "unat v < 2 ^ 32" using assms(2) by (simp add: word_less_nat_alt)
  then have "unat (type_detail v) = unat v"
    by (simp add: type_detail_def unsigned_ucast_eq take_bit_nat_eq_self)
  then have "unat v < 64" using ff_type_small [OF assms(1)] by (simp add: word_less_nat_alt)
  then show "min_len v = 1" "varint_ok (Value v)"
    by (simp_all add: min_len_def in_range_def border_def varint_ok_Value word_less_nat_alt)
qed

lemma stream_flags_facts:
  assumes "is_STREAM t"
  shows "ff_type (FrameFlags_of t) = FT STREAM" "type_detail (FrameFlags_of t) = t"
    "min_len (FrameFlags_of t) = 1" "varint_ok (Value (FrameFlags_of t))"
proof -
  show f: "ff_type (FrameFlags_of t) = FT STREAM" "type_detail (FrameFlags_of t) = t"
    using is_STREAM_flags [OF assms] by auto
  have "FrameFlags_of t < 2 ^ 32"
    using is_STREAM_flags(3) [OF assms] assms by (auto simp: is_STREAM_set)
  then show "min_len (FrameFlags_of t) = 1" "varint_ok (Value (FrameFlags_of t))"
    using field_small [OF f(1)] by auto
qed

section \<open>MAX_STREAMS and STREAMS_BLOCKED\<close>

record MaxStreamsFrame = Frame +
  ms_max_streams :: varint

definition max_streams_fresh :: MaxStreamsFrame where
  "max_streams_fresh = \<lparr>f_type = 0, ms_max_streams = Value 0\<rparr>"

definition max_streams_get_type :: "FrameType \<Rightarrow> bool \<Rightarrow> MaxStreamsFrame \<Rightarrow> FrameType" where
  "max_streams_get_type t on_cast f = (if on_cast then t else type_detail (f_type f))"

definition max_streams_parse :: "FrameType \<Rightarrow> MaxStreamsFrame parser" where
  "max_streams_parse t = chain [parse_check t, read_varint ms_max_streams_update]"

definition max_streams_len :: "FrameType \<Rightarrow> bool \<Rightarrow> MaxStreamsFrame \<Rightarrow> nat" where
  "max_streams_len t use_length_field f =
     type_minlen (FrameFlags_of t) + unat (varint_len (ms_max_streams f))"

definition max_streams_render :: "FrameType \<Rightarrow> MaxStreamsFrame \<Rightarrow> writer action" where
  "max_streams_render t f = fail_if (ff_type (f_type f) \<noteq> t)
     (chain [type_minwrite (f_type f), varint_write (ms_max_streams f)])"

definition max_streams_enc :: "FrameType \<Rightarrow> MaxStreamsFrame \<Rightarrow> byte list" where
  "max_streams_enc t f = venc (Value (f_type f)) @ venc (ms_max_streams f)"

definition max_streams_ok :: "FrameType \<Rightarrow> MaxStreamsFrame \<Rightarrow> bool" where
  "max_streams_ok t f \<longleftrightarrow> ff_type (f_type f) = t \<and> varint_ok (Value (f_type f)) \<and> varint_ok (ms_max_streams f)"

definition max_streams_norm :: "FrameType \<Rightarrow> MaxStreamsFrame \<Rightarrow> MaxStreamsFrame" where
  "max_streams_norm t f = \<lparr>f_type = f_type f, ms_max_streams = vnorm (ms_max_streams f)\<rparr>"

lemmas max_streams_defs = max_streams_fresh_def max_streams_parse_def max_streams_len_def
  max_streams_render_def max_streams_enc_def max_streams_ok_def max_streams_norm_def

lemma max_streams_encodes: "encodes (max_streams_render t f) (max_streams_ok t f) (max_streams_enc t f)"
  unfolding max_streams_defs by (rule encodes_ok_cong, (rule encodes_rules)+) simp_all

lemma max_streams_frame_codec:
  "frame_codec (max_streams_render (FT n)) (max_streams_parse (FT n)) (max_streams_len (FT n))
     (max_streams_enc (FT n)) (max_streams_ok (FT n)) (max_streams_norm (FT n)) (\<lambda>_. False)
     max_streams_fresh (\<lambda>f. f_type f < 2 ^ 32)"
  by unfold_locales
    (rule max_streams_encodes,
     simp_all add: max_streams_defs step_simps frame_simps decodes_def safe_intros field_small)

interpretation max_streams_codec: frame_codec "max_streams_render (FT MAX_STREAMS)"
  "max_streams_parse (FT MAX_STREAMS)" "max_streams_len (FT MAX_STREAMS)" "max_streams_enc (FT MAX_STREAMS)"
  "max_streams_ok (FT MAX_STREAMS)" "max_streams_norm (FT MAX_STREAMS)" "\<lambda>_. False" max_streams_fresh
  "\<lambda>f. f_type f < 2 ^ 32"
  by (rule max_streams_frame_codec)

interpretation streams_blocked_codec: frame_codec "max_streams_render (FT STREAMS_BLOCKED)"
  "max_streams_parse (FT STREAMS_BLOCKED)" "max_streams_len (FT STREAMS_BLOCKED)"
  "max_streams_enc (FT STREAMS_BLOCKED)" "max_streams_ok (FT STREAMS_BLOCKED)"
  "max_streams_norm (FT STREAMS_BLOCKED)" "\<lambda>_. False" max_streams_fresh "\<lambda>f. f_type f < 2 ^ 32"
  by (rule max_streams_frame_codec)

section \<open>CONNECTION_CLOSE\<close>

record ConnectionCloseFrame = Frame +
  cc_error_code :: varint
  cc_frame_type :: varint
  cc_reason_phrase_length :: varint
  cc_reason_phrase :: "byte list"

definition conn_close_fresh :: ConnectionCloseFrame where
  "conn_close_fresh = \<lparr>f_type = 0, cc_error_code = Value 0, cc_frame_type = Value 0,
     cc_reason_phrase_length = Value 0, cc_reason_phrase = []\<rparr>"

definition conn_close_get_type :: "bool \<Rightarrow> ConnectionCloseFrame \<Rightarrow> FrameType" where
  "conn_close_get_type on_cast f =
     (if on_cast then FT CONNECTION_CLOSE
      else if type_detail (f_type f) = FT CONNECTION_CLOSE_APP then FT CONNECTION_CLOSE_APP
      else FT CONNECTION_CLOSE)"

definition conn_close_parse :: "ConnectionCloseFrame parser" where
  "conn_close_parse = chain
     [parse_check (FT CONNECTION_CLOSE), read_varint cc_error_code_update,
      on_frame (\<lambda>f. unless (type_detail (f_type f) = FT CONNECTION_CLOSE_APP) (read_varint cc_frame_type_update)),
      read_varint cc_reason_phrase_length_update,
      read_rvec cc_reason_phrase_update (\<lambda>f. unat (vval (cc_reason_phrase_length f)))]"

definition conn_close_len :: "bool \<Rightarrow> ConnectionCloseFrame \<Rightarrow> nat" where
  "conn_close_len use_length_field f =
     type_minlen (FrameFlags_of (FT CONNECTION_CLOSE)) + unat (varint_len (cc_error_code f))
     + (if type_detail (f_type f) \<noteq> FT CONNECTION_CLOSE_APP then unat (varint_len (cc_frame_type f)) else 0)
     + (if use_length_field then unat (varint_len (cc_reason_phrase_length f))
        else unat (varint_len (vsize (cc_reason_phrase f))))
     + length (cc_reason_phrase f)"

definition conn_close_render :: "ConnectionCloseFrame \<Rightarrow> writer action" where
  "conn_close_render f = chain
     [type_minwrite (FrameFlags_of (conn_close_get_type False f)), varint_write (cc_error_code f),
      unless (type_detail (f_type f) = FT CONNECTION_CLOSE_APP) (varint_write (cc_frame_type f)),
      varint_write (vsize (cc_reason_phrase f)), writer_write (cc_reason_phrase f)]"

definition conn_close_enc :: "ConnectionCloseFrame \<Rightarrow> byte list" where
  "conn_close_enc f = venc (Value (FrameFlags_of (conn_close_get_type False f))) @ venc (cc_error_code f)
     @ (if type_detail (f_type f) = FT CONNECTION_CLOSE_APP then [] else venc (cc_frame_type f))
     @ venc (vsize (cc_reason_phrase f)) @ cc_reason_phrase f"

definition conn_close_ok :: "ConnectionCloseFrame \<Rightarrow> bool" where
  "conn_close_ok f \<longleftrightarrow> varint_ok (cc_error_code f)
     \<and> (type_detail (f_type f) = FT CONNECTION_CLOSE_APP \<or> varint_ok (cc_frame_type f))
     \<and> varint_ok (vsize (cc_reason_phrase f))"

definition conn_close_norm :: "ConnectionCloseFrame \<Rightarrow> ConnectionCloseFrame" where
  "conn_close_norm f = \<lparr>f_type = FrameFlags_of (conn_close_get_type False f),
     cc_error_code = vnorm (cc_error_code f),
     cc_frame_type = (if type_detail (f_type f) = FT CONNECTION_CLOSE_APP then Value 0 else vnorm (cc_frame_type f)),
     cc_reason_phrase_length = vnorm (vsize (cc_reason_phrase f)), cc_reason_phrase = cc_reason_phrase f\<rparr>"

lemmas conn_close_defs = conn_close_fresh_def conn_close_parse_def conn_close_len_def
  conn_close_render_def conn_close_enc_def conn_close_ok_def conn_close_norm_def

lemma conn_close_type_cases:
  obtains "type_detail (f_type f) = FT CONNECTION_CLOSE_APP" "conn_close_get_type False f = FT CONNECTION_CLOSE_APP"
  | "type_detail (f_type f) \<noteq> FT CONNECTION_CLOSE_APP" "conn_close_get_type False f = FT CONNECTION_CLOSE"
  unfolding conn_close_get_type_def by (cases "type_detail (f_type f) = FT CONNECTION_CLOSE_APP") auto

lemma conn_close_encodes: "encodes (conn_close_render f) (conn_close_ok f) (conn_close_enc f)"
  unfolding conn_close_defs
  by (rule encodes_ok_cong, (rule encodes_rules)+) (cases f rule: conn_close_type_cases; simp)+

interpretation conn_close_codec: frame_codec conn_close_render conn_close_parse conn_close_len
  conn_close_enc conn_close_ok conn_close_norm "\<lambda>_. False" conn_close_fresh "\<lambda>f. size_t_ok (cc_reason_phrase f)"
proof unfold_locales
  fix f assume "size_t_ok (cc_reason_phrase f)" "conn_close_ok f"
  then show "decodes False conn_close_fresh conn_close_parse (conn_close_enc f) (conn_close_norm f)"
    "conn_close_len False f = length (conn_close_enc f)"
    "conn_close_len True (conn_close_norm f) = length (conn_close_enc f)"
    "size_t_ok (cc_reason_phrase (conn_close_norm f)) \<and> conn_close_ok (conn_close_norm f)
      \<and> conn_close_enc (conn_close_norm f) = conn_close_enc f"
    by (cases f rule: conn_close_type_cases;
        simp add: conn_close_defs step_simps frame_simps decodes_def conn_close_get_type_def)+
qed (rule conn_close_encodes, simp_all add: conn_close_defs safe_intros)

section \<open>STREAM\<close>

record StreamFrame = Frame +
  sf_streamID :: varint
  sf_offset :: varint
  sf_length :: varint
  sf_stream_data :: "byte list"

definition stream_fresh :: StreamFrame where
  "stream_fresh = \<lparr>f_type = 0, sf_streamID = Value 0, sf_offset = Value 0, sf_length = Value 0,
     sf_stream_data = []\<rparr>"

definition stream_get_type :: "bool \<Rightarrow> StreamFrame \<Rightarrow> FrameType" where
  "stream_get_type on_cast f =
     (if on_cast then FT STREAM
      else if ff_type (f_type f) \<noteq> FT STREAM then make_STREAM (vval (sf_offset f) \<noteq> 0) True False
      else type_detail (f_type f))"

definition stream_parse :: "StreamFrame parser" where
  "stream_parse = chain
     [parse_check (FT STREAM), read_varint sf_streamID_update,
      on_frame (\<lambda>f. if STREAM_off (f_type f) then read_varint sf_offset_update
                    else assign (\<lambda>(f, r). (f\<lparr>sf_offset := Value 0\<rparr>, r))),
      on_frame (\<lambda>f. unless (\<not> STREAM_len (f_type f)) (read_varint sf_length_update)),
      on_frame (\<lambda>f. if STREAM_len (f_type f)
                    then read_rvec sf_stream_data_update (\<lambda>f. unat (vval (sf_length f)))
                    else read_rest sf_stream_data_update)]"

definition stream_len :: "bool \<Rightarrow> StreamFrame \<Rightarrow> nat" where
  "stream_len use_length_field f =
     (let tyval = FrameFlags_of (stream_get_type False f)
      in type_minlen (FrameFlags_of (FT STREAM)) + unat (varint_len (sf_streamID f))
         + (if STREAM_off tyval then unat (varint_len (sf_offset f)) else 0)
         + (if \<not> STREAM_len tyval then 0
            else if use_length_field then unat (varint_len (sf_length f))
            else unat (varint_len (vsize (sf_stream_data f))))
         + length (sf_stream_data f))"

definition stream_render :: "StreamFrame \<Rightarrow> writer action" where
  "stream_render f =
     (let tyval = FrameFlags_of (stream_get_type False f)
      in chain
        [type_minwrite tyval, varint_write (sf_streamID f),
         unless (\<not> STREAM_off tyval) (varint_write (sf_offset f)),
         unless (\<not> STREAM_len tyval) (varint_write (vsize (sf_stream_data f))),
         writer_write (sf_stream_data f)])"

text \<open>The type field as rendered.\<close>

definition stream_tyval :: "StreamFrame \<Rightarrow> FrameFlags" where
  "stream_tyval f = FrameFlags_of (stream_get_type False f)"

definition stream_enc :: "StreamFrame \<Rightarrow> byte list" where
  "stream_enc f = venc (Value (stream_tyval f)) @ venc (sf_streamID f)
     @ (if \<not> STREAM_off (stream_tyval f) then [] else venc (sf_offset f))
     @ (if \<not> STREAM_len (stream_tyval f) then [] else venc (vsize (sf_stream_data f)))
     @ sf_stream_data f"

definition stream_ok :: "StreamFrame \<Rightarrow> bool" where
  "stream_ok f \<longleftrightarrow> varint_ok (sf_streamID f) \<and> (\<not> STREAM_off (stream_tyval f) \<or> varint_ok (sf_offset f))
     \<and> (\<not> STREAM_len (stream_tyval f) \<or> varint_ok (vsize (sf_stream_data f)))"

definition stream_norm :: "StreamFrame \<Rightarrow> StreamFrame" where
  "stream_norm f = \<lparr>f_type = stream_tyval f, sf_streamID = vnorm (sf_streamID f),
     sf_offset = (if STREAM_off (stream_tyval f) then vnorm (sf_offset f) else Value 0),
     sf_length = (if STREAM_len (stream_tyval f) then vnorm (vsize (sf_stream_data f)) else Value 0),
     sf_stream_data = sf_stream_data f\<rparr>"

definition stream_tail :: "StreamFrame \<Rightarrow> bool" where
  "stream_tail f \<longleftrightarrow> \<not> STREAM_len (stream_tyval f)"

lemma stream_get_type_is_STREAM: "is_STREAM (stream_get_type False f)"
  by (simp add: stream_get_type_def ff_type_STREAM)

lemma stream_tyval_facts [simp]:
  "ff_type (stream_tyval f) = FT STREAM" "type_detail (stream_tyval f) = stream_get_type False f"
  "min_len (stream_tyval f) = 1" "varint_ok (Value (stream_tyval f))"
  unfolding stream_tyval_def by (rule stream_flags_facts [OF stream_get_type_is_STREAM])+

lemma stream_tyval_norm [simp]: "stream_tyval (stream_norm f) = stream_tyval f"
proof -
  have "f_type (stream_norm f) = stream_tyval f" by (simp add: stream_norm_def)
  then have "stream_get_type False (stream_norm f) = stream_get_type False f"
    by (simp add: stream_get_type_def [of False "stream_norm f"])
  then show ?thesis by (simp add: stream_tyval_def)
qed

lemmas stream_defs = stream_fresh_def stream_parse_def stream_len_def stream_render_def stream_enc_def
  stream_ok_def stream_norm_def stream_tail_def

lemma stream_encodes: "encodes (stream_render f) (stream_ok f) (stream_enc f)"
  unfolding stream_render_def Let_def stream_enc_def stream_ok_def stream_tyval_def [symmetric]
  by (rule encodes_ok_cong, (rule encodes_rules)+) simp_all

interpretation stream_codec: frame_codec stream_render stream_parse stream_len stream_enc stream_ok
  stream_norm stream_tail stream_fresh "\<lambda>f. size_t_ok (sf_stream_data f)"
proof unfold_locales
  fix f assume s: "size_t_ok (sf_stream_data f)" and o: "stream_ok f"
  show "decodes (stream_tail f) stream_fresh stream_parse (stream_enc f) (stream_norm f)"
    using s o unfolding decodes_def stream_defs
    by (cases "STREAM_off (stream_tyval f)"; cases "STREAM_len (stream_tyval f)"; simp add: step_simps)
  have e: "length (stream_enc f) = 1 + unat (varint_len (sf_streamID f))
      + (if STREAM_off (stream_tyval f) then unat (varint_len (sf_offset f)) else 0)
      + (if STREAM_len (stream_tyval f) then unat (varint_len (vsize (sf_stream_data f))) else 0)
      + length (sf_stream_data f)"
    using o by (simp add: stream_enc_def stream_ok_def length_venc)
  show "stream_len False f = length (stream_enc f)" "stream_len True (stream_norm f) = length (stream_enc f)"
    unfolding e stream_len_def Let_def stream_tyval_def [symmetric] stream_tyval_norm
    by (simp_all add: type_minlen_def) (simp add: stream_norm_def)
  show "size_t_ok (sf_stream_data (stream_norm f)) \<and> stream_ok (stream_norm f)
      \<and> stream_enc (stream_norm f) = stream_enc f"
    using s o unfolding stream_ok_def stream_enc_def stream_tyval_norm by (simp add: stream_norm_def)
qed (rule stream_encodes, simp_all add: stream_parse_def safe_intros split_beta)

section \<open>DATAGRAM\<close>

record DatagramFrame = Frame +
  dg_length :: varint
  dg_data :: "byte list"

definition datagram_fresh :: DatagramFrame where
  "datagram_fresh = \<lparr>f_type = 0, dg_length = Value 0, dg_data = []\<rparr>"

definition datagram_get_type :: "bool \<Rightarrow> DatagramFrame \<Rightarrow> FrameType" where
  "datagram_get_type on_cast f =
     (if on_cast then FT DATAGRAM
      else if type_detail (f_type f) = FT DATAGRAM then FT DATAGRAM else FT DATAGRAM_LEN)"

definition datagram_parse :: "DatagramFrame parser" where
  "datagram_parse = chain
     [parse_check (FT DATAGRAM),
      on_frame (\<lambda>f. if type_detail (f_type f) = FT DATAGRAM_LEN
                    then chain [read_varint dg_length_update,
                                read_rvec dg_data_update (\<lambda>f. unat (vval (dg_length f)))]
                    else read_rest dg_data_update)]"

definition datagram_len :: "bool \<Rightarrow> DatagramFrame \<Rightarrow> nat" where
  "datagram_len use_length_field f =
     type_minlen (FrameFlags_of (FT DATAGRAM))
     + (if type_detail (f_type f) = FT DATAGRAM then 0
        else if use_length_field then unat (varint_len (dg_length f))
        else unat (varint_len (vsize (dg_data f))))
     + length (dg_data f)"

definition datagram_render :: "DatagramFrame \<Rightarrow> writer action" where
  "datagram_render f = chain
     [type_minwrite (FrameFlags_of (datagram_get_type False f)),
      unless (type_detail (f_type f) = FT DATAGRAM) (varint_write (vsize (dg_data f))),
      writer_write (dg_data f)]"

definition datagram_enc :: "DatagramFrame \<Rightarrow> byte list" where
  "datagram_enc f = venc (Value (FrameFlags_of (datagram_get_type False f)))
     @ (if type_detail (f_type f) = FT DATAGRAM then [] else venc (vsize (dg_data f))) @ dg_data f"

definition datagram_ok :: "DatagramFrame \<Rightarrow> bool" where
  "datagram_ok f \<longleftrightarrow> type_detail (f_type f) = FT DATAGRAM \<or> varint_ok (vsize (dg_data f))"

definition datagram_norm :: "DatagramFrame \<Rightarrow> DatagramFrame" where
  "datagram_norm f = \<lparr>f_type = FrameFlags_of (datagram_get_type False f),
     dg_length = (if type_detail (f_type f) = FT DATAGRAM then Value 0 else vnorm (vsize (dg_data f))),
     dg_data = dg_data f\<rparr>"

definition datagram_tail :: "DatagramFrame \<Rightarrow> bool" where
  "datagram_tail f \<longleftrightarrow> type_detail (f_type f) = FT DATAGRAM"

lemmas datagram_defs = datagram_fresh_def datagram_parse_def datagram_len_def datagram_render_def
  datagram_enc_def datagram_ok_def datagram_norm_def datagram_tail_def datagram_get_type_def

lemma datagram_encodes: "encodes (datagram_render f) (datagram_ok f) (datagram_enc f)"
  unfolding datagram_render_def datagram_ok_def datagram_enc_def
  by (rule encodes_ok_cong, (rule encodes_rules)+) (simp_all add: datagram_get_type_def)

interpretation datagram_codec: frame_codec datagram_render datagram_parse datagram_len datagram_enc
  datagram_ok datagram_norm datagram_tail datagram_fresh "\<lambda>f. size_t_ok (dg_data f)"
proof unfold_locales
  fix f assume "size_t_ok (dg_data f)" "datagram_ok f"
  then show "decodes (datagram_tail f) datagram_fresh datagram_parse (datagram_enc f) (datagram_norm f)"
    "datagram_len False f = length (datagram_enc f)"
    "datagram_len True (datagram_norm f) = length (datagram_enc f)"
    "size_t_ok (dg_data (datagram_norm f)) \<and> datagram_ok (datagram_norm f)
      \<and> datagram_enc (datagram_norm f) = datagram_enc f"
    by (cases "type_detail (f_type f) = FT DATAGRAM";
        simp add: datagram_defs step_simps frame_simps decodes_def)+
qed (rule datagram_encodes, simp_all add: datagram_defs safe_intros)

end
