(* ===== verification/FitSize.thy ===== *)
theory FitSize
  imports Frames FlagFrames
begin

text \<open>
  Cutting data to the space that is left in a packet (\<^verbatim>\<open>calc_data.h\<close> and the
  \<^verbatim>\<open>make_fit_size\<close> functions of \<^verbatim>\<open>crypto.h\<close>, \<^verbatim>\<open>stream_manage.h\<close>, \<^verbatim>\<open>datagram.h\<close> under
  \<^verbatim>\<open>fnet/quic/frame\<close>). Sizes are 64-bit words as in the code; the signed
  \<^verbatim>\<open>data_len\<close> is a word read with \<^term>\<open>sint\<close>.
\<close>

section \<open>Data ranges\<close>

record StreamDataRange =
  fixed_length :: u64
  max_length :: u64
  min_zero :: bool

definition max_length_len :: "StreamDataRange \<Rightarrow> u64" where
  "max_length_len r = ucast (varint_len (Value (max_length r)))"

definition min_length :: "StreamDataRange \<Rightarrow> u64" where
  "min_length r = (if min_zero r \<or> max_length r = 0 then 0 else 1)"

definition length_exists_max_len :: "StreamDataRange \<Rightarrow> u64" where
  "length_exists_max_len r = fixed_length r + max_length_len r + max_length r"

definition length_no_max_len :: "StreamDataRange \<Rightarrow> u64" where
  "length_no_max_len r = fixed_length r + max_length r"

definition length_exists_min_len :: "StreamDataRange \<Rightarrow> u64" where
  "length_exists_min_len r = fixed_length r + 1 + min_length r"

definition length_no_min_len :: "StreamDataRange \<Rightarrow> u64" where
  "length_no_min_len r = fixed_length r + min_length r"

definition correct_delta :: "u64 \<Rightarrow> StreamDataRange \<Rightarrow> u64 \<Rightarrow> byte \<Rightarrow> byte" where
  "correct_delta to_fit rng data_len delta =
     (case find (\<lambda>i. to_fit < length_exists_max_len (rng\<lparr>max_length := data_len + of_nat i\<rparr>))
             [1..<Suc (unat delta)] of
        Some i \<Rightarrow> of_nat (i - 1)
      | None \<Rightarrow> delta)"

definition shrink_to_fit_with_len :: "u64 \<Rightarrow> StreamDataRange \<Rightarrow> u64 \<times> u64 \<times> bool" where
  "shrink_to_fit_with_len to_fit rng =
     (if \<not> in_range (max_length rng) 8 then (0, 0, False)
      else
        let to_write = length_exists_max_len rng;
            data_len = max_length rng;
            length_len = varint_len (Value data_len);
            data_len = (if to_write > to_fit then data_len - (to_write - to_fit) else data_len);
            fixed_length_len = (if sint data_len < 0 then 1 else varint_len (Value data_len));
            diff_varint_len = length_len - fixed_length_len;
            data_len = (if diff_varint_len \<noteq> 0
                        then data_len + ucast (correct_delta to_fit rng data_len diff_varint_len)
                        else data_len)
        in if (if min_zero rng then sint data_len < 0 else sint data_len \<le> 0) then (0, 0, False)
           else (length_exists_max_len (rng\<lparr>max_length := data_len\<rparr>), data_len, True))"

definition shrink_to_fit_no_len :: "u64 \<Rightarrow> StreamDataRange \<Rightarrow> u64 \<times> u64 \<times> bool" where
  "shrink_to_fit_no_len to_fit rng =
     (let to_write = length_no_max_len rng;
          data_len = max_length rng
      in if to_write > to_fit \<and> data_len < to_write - to_fit then (0, 0, False)
         else
           let data_len = (if to_write > to_fit then data_len - (to_write - to_fit) else data_len);
               fixed_to_write = length_no_max_len (rng\<lparr>max_length := data_len\<rparr>)
           in (fixed_to_write, data_len, fixed_to_write = to_fit))"

section \<open>Frames cut to size\<close>

definition make_fit_size_Crypto :: "u64 \<Rightarrow> u64 \<Rightarrow> byte list \<Rightarrow> CryptoFrame \<times> bool" where
  "make_fit_size_Crypto to_fit offset src =
     (let rng = \<lparr>fixed_length = 1 + ucast (varint_len (Value offset)),
                   max_length = of_nat (length src), min_zero = False\<rparr>
      in case shrink_to_fit_with_len to_fit rng of
           (_, len, ok) \<Rightarrow>
             if \<not> ok then (crypto_fresh, False)
             else (crypto_fresh\<lparr>cr_offset := Value offset, cr_length := Value len,
                                cr_data := rsubstr src 0 (unat len)\<rparr>, True))"

definition calc_stream_overhead :: "u64 \<Rightarrow> u64 \<Rightarrow> bool \<Rightarrow> u64" where
  "calc_stream_overhead stream_id offset has_ofs =
     1 + ucast (varint_len (Value stream_id)) + (if has_ofs then ucast (varint_len (Value offset)) else 0)"

definition stream_size_range :: "u64 \<Rightarrow> u64 \<Rightarrow> u64 \<Rightarrow> bool \<Rightarrow> StreamDataRange" where
  "stream_size_range stream_id offset max_len allow_zero =
     \<lparr>fixed_length = calc_stream_overhead stream_id offset (offset \<noteq> 0),
      max_length = max_len, min_zero = allow_zero\<rparr>"

definition make_fit_size_Stream ::
    "u64 \<Rightarrow> u64 \<Rightarrow> u64 \<Rightarrow> byte list \<Rightarrow> bool \<Rightarrow> bool \<Rightarrow> StreamFrame \<times> bool" where
  "make_fit_size_Stream to_fit stream_id offset src fin allow_zero =
     (let rng = stream_size_range stream_id offset (of_nat (length src)) allow_zero;
          frame = (\<lambda>len n. \<lparr>f_type = FrameFlags_of (make_STREAM (offset \<noteq> 0) len (fin \<and> of_nat (length src) = n)),
                            sf_streamID = Value stream_id, sf_offset = Value offset, sf_length = Value n,
                            sf_stream_data = rsubstr src 0 (unat n)\<rparr>)
      in case shrink_to_fit_no_len to_fit rng of
           (ok, no_len_data, valid) \<Rightarrow>
             if valid then (frame False no_len_data, True)
             else if ok = 0 then (stream_fresh, False)
             else case shrink_to_fit_with_len to_fit rng of
               (_, with_len_data, use_len) \<Rightarrow>
                 if use_len then (frame True with_len_data, True) else (stream_fresh, False))"

definition make_fit_size_Datagram :: "u64 \<Rightarrow> byte list \<Rightarrow> DatagramFrame \<times> bool" where
  "make_fit_size_Datagram to_fit src =
     (let dgram = datagram_fresh\<lparr>f_type := FrameFlags_of (FT DATAGRAM), dg_data := src\<rparr>
      in if of_nat (datagram_len False dgram) = to_fit then (dgram, True)
         else
           let dgram = dgram\<lparr>f_type := FrameFlags_of (FT DATAGRAM_LEN)\<rparr>
           in if of_nat (datagram_len False dgram) \<le> to_fit then (dgram, True)
              else (datagram_fresh, False))"

section \<open>The length of a length\<close>

text \<open>The varint length of a size, on integers.\<close>

definition mlen :: "int \<Rightarrow> int" where
  "mlen n = (if n < 2 ^ 6 then 1 else if n < 2 ^ 14 then 2 else if n < 2 ^ 30 then 4 else 8)"

lemma mlen_bounds: "1 \<le> mlen n" "mlen n \<le> 8" and mlen_mono: "m \<le> n \<Longrightarrow> mlen m \<le> mlen n"
  by (auto simp: mlen_def)

lemma min_len_mlen:
  assumes "0 \<le> x" "x < 2 ^ 62"
  shows "int (min_len (word_of_int x)) = mlen x"
proof -
  have u: "uint (word_of_int x :: u64) = x" using assms by (simp add: uint_word_of_int)
  show ?thesis
    using assms u by (simp add: min_len_def in_range_def border_def mlen_def word_less_def)
qed

lemma uint_max_length_len:
  "uint (max_length_len r) = int (min_len (max_length r))"
proof -
  have "unat (max_length_len r) = unat (varint_len (Value (max_length r)))"
    using unsigned_less [of "varint_len (Value (max_length r))", where ?'a = nat]
    by (simp add: max_length_len_def unsigned_ucast_eq take_bit_nat_eq_self)
  then show ?thesis by (metis uint_nat varint_len_Value)
qed

lemma neg_mod_eq: "- m \<le> x \<Longrightarrow> x < 0 \<Longrightarrow> x mod m = x + (m :: int)"
  using mod_add_self2 [of x m] mod_pos_pos_trivial [of "x + m" m] by simp

text \<open>Whether a frame with a length field and \<open>x\<close> bytes of data is too long, with wrap-around for negative \<open>x\<close>.\<close>

definition too_long :: "int \<Rightarrow> int \<Rightarrow> int \<Rightarrow> bool" where
  "too_long T F x \<longleftrightarrow> (if 0 \<le> x then T < F + mlen x + x else 0 \<le> F + x \<longrightarrow> T < F + x)"

lemma too_long_word:
  assumes "- (2 ^ 62) \<le> x" "x < 2 ^ 62" "uint (fixed_length r) \<le> 2 ^ 60" "uint T < 2 ^ 62"
  shows "T < length_exists_max_len (r\<lparr>max_length := word_of_int x\<rparr>) \<longleftrightarrow> too_long (uint T) (uint (fixed_length r)) x"
    and "0 \<le> x \<Longrightarrow> uint (length_exists_max_len (r\<lparr>max_length := word_of_int x\<rparr>)) = uint (fixed_length r) + mlen x + x"
proof -
  let ?r = "r\<lparr>max_length := word_of_int x\<rparr>" and ?F = "uint (fixed_length r)"
  have l: "uint (length_exists_max_len ?r) = (?F + int (min_len (word_of_int x)) + x) mod 2 ^ 64"
    unfolding length_exists_max_len_def uint_word_ariths uint_max_length_len
    by (simp add: uint_word_of_int mod_simps)
  have F: "0 \<le> ?F" by simp
  show pos: "uint (length_exists_max_len ?r) = ?F + mlen x + x" if "0 \<le> x"
    using l that assms(2,3) F mlen_bounds [of x] min_len_mlen [OF that assms(2)] by simp
  show "T < length_exists_max_len ?r \<longleftrightarrow> too_long (uint T) ?F x"
  proof (cases "0 \<le> x")
    case True
    then show ?thesis using pos by (simp add: word_less_def too_long_def)
  next
    case False
    then have "x mod 2 ^ 64 = x + 2 ^ 64" by (intro neg_mod_eq) (use assms(1) in simp_all)
    then have "uint (word_of_int x :: u64) = x + 2 ^ 64" by (simp add: uint_word_of_int)
    then have "min_len (word_of_int x :: u64) = 0"
      using assms(1) by (simp add: min_len_def in_range_def border_def word_less_def)
    then have u: "uint (length_exists_max_len ?r) = (?F + x) mod 2 ^ 64" using l by simp
    show ?thesis
    proof (cases "0 \<le> ?F + x")
      case True
      then have "(?F + x) mod 2 ^ 64 = ?F + x" using False assms(3) by (intro mod_pos_pos_trivial) auto
      then show ?thesis using True False u by (simp add: word_less_def too_long_def)
    next
      case neg: False
      have n: "- (2 ^ 62) \<le> ?F + x" using add_mono [OF F assms(1)] by simp
      then have "(?F + x) mod 2 ^ 64 = ?F + x + 2 ^ 64" using neg by (intro neg_mod_eq) simp_all
      then have "uint T < uint (length_exists_max_len ?r)" using u assms(4) n by simp
      then show ?thesis using neg False by (simp add: word_less_def too_long_def)
    qed
  qed
qed

lemma correct_delta_spec:
  fixes T dl :: u64 and r :: StreamDataRange and delta :: byte
  defines "i \<equiv> unat (correct_delta T r dl delta)"
    and "ex \<equiv> \<lambda>j. T < length_exists_max_len (r\<lparr>max_length := dl + of_nat j\<rparr>)"
  shows "i \<le> unat delta" "\<And>j. 1 \<le> j \<Longrightarrow> j \<le> i \<Longrightarrow> \<not> ex j" "i < unat delta \<Longrightarrow> ex (Suc i)"
proof -
  have d: "unat delta < 256" using unsigned_less [of delta, where ?'a = nat] by simp
  consider (none) "find ex [1..<Suc (unat delta)] = None" "i = unat delta"
    | (some) k where "find ex [1..<Suc (unat delta)] = Some k" "i = k - 1" "1 \<le> k" "k \<le> unat delta"
  proof (cases "find ex [1..<Suc (unat delta)]")
    case None
    then show ?thesis using that(1) unfolding i_def ex_def correct_delta_def by simp
  next
    case (Some k)
    then have "1 \<le> k" "k \<le> unat delta" by (auto simp: find_Some_iff simp del: upt_Suc)
    then show ?thesis
      using that(2) [of k] Some unat_of_nat_le [of "k - 1", where 'a = 8] d
      unfolding i_def ex_def correct_delta_def by (simp del: upt_Suc of_nat_diff)
  qed
  then have "i \<le> unat delta \<and> (\<forall>j. 1 \<le> j \<and> j \<le> i \<longrightarrow> \<not> ex j) \<and> (i < unat delta \<longrightarrow> ex (Suc i))"
  proof cases
    case none
    then show ?thesis by (auto simp: find_None_iff simp del: upt_Suc)
  next
    case some
    then obtain m where m: "m < unat delta" "ex (Suc m)" "k = Suc m" "\<forall>j<m. \<not> ex (Suc j)"
      by (auto simp: find_Some_iff simp del: upt_Suc)
    then show ?thesis using some by (metis Suc_le_eq Suc_pred diff_Suc_1 less_or_eq_imp_le less_Suc_eq_le One_nat_def)
  qed
  then show "i \<le> unat delta" "\<And>j. 1 \<le> j \<Longrightarrow> j \<le> i \<Longrightarrow> \<not> ex j" "i < unat delta \<Longrightarrow> ex (Suc i)" by auto
qed

text \<open>The arithmetic of the correction, on integers.\<close>

lemma shrink_arith:
  fixes F T L d i D :: int
  assumes "0 \<le> F" "0 \<le> L" "0 \<le> T" "T < F + mlen L + L" "d = T - F - mlen L"
    and "D = mlen L - (if d < 0 then 1 else mlen d)"
    and "0 \<le> i" "i \<le> D" "\<And>j. 1 \<le> j \<Longrightarrow> j \<le> i \<Longrightarrow> \<not> too_long T F (d + j)"
    and "i < D \<Longrightarrow> too_long T F (d + i + 1)"
  shows "0 \<le> d + i \<Longrightarrow> F + mlen (d + i) + (d + i) \<le> T \<and> d + i < L"
    and "8 \<le> T \<Longrightarrow> 0 \<le> d + i \<Longrightarrow> T < F + mlen (d + i + 1) + (d + i + 1)"
    and "8 \<le> T \<Longrightarrow> d + i < 0 \<Longrightarrow> T < F + 1"
proof -
  have b: "1 \<le> mlen x" "mlen x \<le> 8" for x using mlen_bounds by auto
  show "F + mlen (d + i) + (d + i) \<le> T \<and> d + i < L" if p: "0 \<le> d + i"
  proof -
    have "F + mlen (d + i) + (d + i) \<le> T"
    proof (cases "i = 0")
      case True
      then show ?thesis using p assms(4,5) mlen_mono [of d L] by auto
    next
      case False
      then show ?thesis using assms(7) assms(9) [of i] p by (simp add: too_long_def)
    qed
    then show ?thesis using assms(4) mlen_mono [of L "d + i"] by linarith
  qed
  show "T < F + mlen (d + i + 1) + (d + i + 1)" if p: "0 \<le> d + i"
  proof (cases "i < D")
    case True
    then show ?thesis using assms(10) p by (simp add: too_long_def add.assoc)
  next
    case False
    then have "i = D" using assms(8) by simp
    then show ?thesis using assms(5,6) p b [of "d + i + 1"] mlen_mono [of d "d + i + 1"] assms(7) by (auto split: if_splits)
  qed
  show "T < F + 1" if t: "8 \<le> T" and n: "d + i < 0"
  proof (cases "i < D")
    case True
    then have x: "too_long T F (d + i + 1)" using assms(10) by simp
    have "0 \<le> F + (d + i + 1)" using assms(5,7) t b [of L] by simp
    then show ?thesis using x n mlen_def [of 0] by (cases "d + i + 1 = 0") (auto simp: too_long_def)
  next
    case False
    then have "i = D" using assms(8) by simp
    then show ?thesis using n assms(5,6,7) by (simp split: if_splits)
  qed
qed

lemma sint_small: "- (2 ^ 62) \<le> x \<Longrightarrow> x < 2 ^ 62 + 2 ^ 62 \<Longrightarrow> sint (word_of_int x :: u64) = x"
  by (simp add: sint_sbintrunc' signed_take_bit_int_eq_self)

lemma unat_varint_len_of_int:
  "0 \<le> x \<Longrightarrow> x < 2 ^ 62 \<Longrightarrow> int (unat (varint_len (Value (word_of_int x)))) = mlen x"
  by (simp add: min_len_mlen)

text \<open>
  The size chosen when the data do not fit as they are: the integer \<open>d\<close> of the
  code's \<^verbatim>\<open>data_len\<close> before the correction, and the correction \<open>i\<close>.
\<close>

lemma shrink_correction:
  fixes T :: u64 and r :: StreamDataRange
  defines "L \<equiv> uint (max_length r)" and "F \<equiv> uint (fixed_length r)" and "t \<equiv> uint T"
  defines "d \<equiv> t - F - mlen L"
  assumes "L < 2 ^ 62" "F \<le> 2 ^ 60" "t < 2 ^ 61" "t < F + mlen L + L"
  defines "dl \<equiv> word_of_int d :: u64"
  defines "fl \<equiv> (if sint dl < 0 then 1 else varint_len (Value dl))"
  defines "diff \<equiv> varint_len (Value (max_length r)) - fl"
  obtains i where "0 \<le> i" "(if diff \<noteq> 0 then dl + ucast (correct_delta T r dl diff) else dl) = word_of_int (d + i)"
    "- (2 ^ 62) \<le> d + i" "d + i < 2 ^ 62"
    "i \<le> mlen L - (if d < 0 then 1 else mlen d)"
    "\<And>j. 1 \<le> j \<Longrightarrow> j \<le> i \<Longrightarrow> \<not> too_long t F (d + j)"
    "i < mlen L - (if d < 0 then 1 else mlen d) \<Longrightarrow> too_long t F (d + i + 1)"
proof -
  have L0: "0 \<le> L" "0 \<le> F" "0 \<le> t" by (simp_all add: L_def F_def t_def)
  have b: "1 \<le> mlen x" "mlen x \<le> 8" for x using mlen_bounds by auto
  have d: "- (2 ^ 62) + 100 \<le> d" "d < L" "d < 2 ^ 61" using assms(5-8) L0 b [of L] by (simp_all add: d_def)
  have sd: "sint dl = d" unfolding dl_def using d assms(5) by (intro sint_small) simp_all
  have lL: "int (unat (varint_len (Value (max_length r)))) = mlen L"
    using unat_varint_len_of_int [of L] L0 assms(5) by (simp add: L_def)
  have fl: "int (unat fl) = (if d < 0 then 1 else mlen d)"
    unfolding fl_def sd using unat_varint_len_of_int [of d] d assms(5) by (cases "d < 0") (simp_all add: dl_def)
  have "mlen d \<le> mlen L" using mlen_mono d by simp
  then have "int (unat fl) \<le> int (unat (varint_len (Value (max_length r))))" unfolding fl lL using b [of L] by simp
  then have le: "unat fl \<le> unat (varint_len (Value (max_length r)))" by (simp only: of_nat_le_iff)
  then have "unat diff = unat (varint_len (Value (max_length r))) - unat fl"
    unfolding diff_def by (intro unat_sub) (simp only: word_le_nat_alt)
  then have D: "int (unat diff) = mlen L - (if d < 0 then 1 else mlen d)"
    using le fl lL by (simp only: of_nat_diff)
  then have D7: "int (unat diff) \<le> 7" using b [of L] b [of d] by (simp split: if_splits)
  define i where "i = unat (correct_delta T r dl diff)"
  note c = correct_delta_spec [where T = T and r = r and dl = dl and delta = diff, folded i_def]
  have w: "dl + of_nat j = word_of_int (d + int j)" for j by (simp add: dl_def)
  have ex: "T < length_exists_max_len (r\<lparr>max_length := dl + of_nat j\<rparr>) \<longleftrightarrow> too_long t F (d + int j)" if "j \<le> 8" for j
    unfolding w t_def F_def by (rule too_long_word(1)) (use that d assms(5-7) in \<open>simp_all add: F_def t_def\<close>)
  have u: "ucast (correct_delta T r dl diff) = (of_nat i :: u64)" by (simp add: i_def)
  have iD: "int i \<le> mlen L - (if d < 0 then 1 else mlen d)" "int i \<le> 7" using c(1) D D7 by linarith+
  show ?thesis
  proof (rule that [of "int i"])
    show "(if diff \<noteq> 0 then dl + ucast (correct_delta T r dl diff) else dl) = word_of_int (d + int i)"
      using c(1) w [of i] u by (cases "diff = 0") (simp_all add: dl_def)
    show "\<not> too_long t F (d + j)" if "1 \<le> j" "j \<le> int i" for j
      using c(2) [of "nat j"] ex [of "nat j"] that iD(2) by simp
    show "too_long t F (d + int i + 1)" if "int i < mlen L - (if d < 0 then 1 else mlen d)"
    proof -
      have "i < unat diff" using that D by linarith
      then show ?thesis using c(3) ex [of "Suc i"] iD(2) by (simp add: ac_simps)
    qed
  qed (use d iD in auto)
qed

text \<open>
  \<open>shrink_to_fit_with_len\<close>: the size it returns fits, is at most what was asked
  for, and (from eight bytes on) is the largest that fits; when it fails, not even
  the least allowed size fits.
\<close>

lemma word_of_uint_max [simp]: "r\<lparr>max_length := word_of_int (uint (max_length r))\<rparr> = r"
  by simp

lemma shrink_with_len_whole:
  fixes T :: u64
  assumes "uint (max_length r) < 2 ^ 62" "uint (fixed_length r) \<le> 2 ^ 60" "uint T < 2 ^ 61"
  shows "uint (length_exists_max_len r) = uint (fixed_length r) + mlen (uint (max_length r)) + uint (max_length r)"
    and "sint (max_length r) = uint (max_length r)" and "in_range (max_length r) 8"
proof -
  have n: "- (2 ^ 62) \<le> uint (max_length r)" by (rule order_trans [of _ 0]) simp_all
  then show "sint (max_length r) = uint (max_length r)"
    using sint_small [of "uint (max_length r)"] assms(1) by simp
  show "in_range (max_length r) 8" using assms(1) by (simp add: in_range_def border_def word_less_def)
  show "uint (length_exists_max_len r) = uint (fixed_length r) + mlen (uint (max_length r)) + uint (max_length r)"
    using too_long_word(2) [of "uint (max_length r)" r T] assms n by simp
qed

definition corrected :: "u64 \<Rightarrow> StreamDataRange \<Rightarrow> u64 \<Rightarrow> u64" where
  "corrected T r dl =
     (let fl = (if sint dl < 0 then 1 else varint_len (Value dl));
          diff = varint_len (Value (max_length r)) - fl
      in if diff \<noteq> 0 then dl + ucast (correct_delta T r dl diff) else dl)"

lemma shrink_with_len_eq:
  assumes "in_range (max_length r) 8"
  shows "shrink_to_fit_with_len T r =
    (let e = corrected T r (if T < length_exists_max_len r then max_length r - (length_exists_max_len r - T)
                            else max_length r)
     in if (if min_zero r then sint e < 0 else sint e \<le> 0) then (0, 0, False)
        else (length_exists_max_len (r\<lparr>max_length := e\<rparr>), e, True))"
  unfolding shrink_to_fit_with_len_def corrected_def Let_def using assms by simp

lemma corrected_whole: "0 \<le> sint (max_length r) \<Longrightarrow> corrected T r (max_length r) = max_length r"
  by (simp add: corrected_def Let_def)

lemma shrink_with_len_spec:
  fixes T :: u64 and r :: StreamDataRange
  assumes bounds: "uint (max_length r) < 2 ^ 62" "uint (fixed_length r) \<le> 2 ^ 60" "uint T < 2 ^ 61"
    and res: "shrink_to_fit_with_len T r = (flen, n, ok)"
  defines "F \<equiv> uint (fixed_length r)"
  shows "ok \<Longrightarrow> uint flen = F + mlen (uint n) + uint n \<and> flen \<le> T \<and> n \<le> max_length r \<and> (min_zero r \<or> 0 < n)"
    and "ok \<Longrightarrow> 8 \<le> T \<Longrightarrow> n < max_length r \<Longrightarrow> uint T < F + mlen (uint n + 1) + (uint n + 1)"
    and "\<not> ok \<Longrightarrow> 8 \<le> T \<Longrightarrow> min_zero r \<or> 0 < max_length r \<Longrightarrow> uint T < F + 1 + (if min_zero r then 0 else 1)"
proof -
  let ?L = "uint (max_length r)" and ?t = "uint T"
  note W = shrink_with_len_whole [OF bounds]
  have L0: "0 \<le> ?L" "0 \<le> F" "0 \<le> ?t" by (simp_all add: F_def)
  have all: "(ok \<longrightarrow> uint flen = F + mlen (uint n) + uint n \<and> flen \<le> T \<and> n \<le> max_length r \<and> (min_zero r \<or> 0 < n))
     \<and> (ok \<and> 8 \<le> T \<and> n < max_length r \<longrightarrow> ?t < F + mlen (uint n + 1) + (uint n + 1))
     \<and> (\<not> ok \<and> 8 \<le> T \<and> (min_zero r \<or> 0 < max_length r) \<longrightarrow> ?t < F + 1 + (if min_zero r then 0 else 1))"
  proof (cases "T < length_exists_max_len r")
    case False
    then show ?thesis
      using res W by (auto simp: shrink_with_len_eq corrected_whole Let_def F_def not_less word_le_def
          word_less_def order_less_le split: if_splits)
  next
    case True
    let ?d = "?t - F - mlen ?L"
    have big: "?t < F + mlen ?L + ?L" using True W(1) by (simp add: word_less_def F_def)
    have dl: "max_length r - (length_exists_max_len r - T) = word_of_int ?d"
    proof -
      have "length_exists_max_len r = word_of_int (F + mlen ?L + ?L)"
        using W(1) unfolding F_def by (metis word_of_int_uint)
      then show ?thesis by simp
    qed
    obtain i where i: "0 \<le> i"
      "corrected T r (word_of_int ?d) = word_of_int (?d + i)"
      "- (2 ^ 62) \<le> ?d + i" "?d + i < 2 ^ 62" "i \<le> mlen ?L - (if ?d < 0 then 1 else mlen ?d)"
      "\<And>j. 1 \<le> j \<Longrightarrow> j \<le> i \<Longrightarrow> \<not> too_long ?t F (?d + j)"
      "i < mlen ?L - (if ?d < 0 then 1 else mlen ?d) \<Longrightarrow> too_long ?t F (?d + i + 1)"
      using shrink_correction [OF bounds, folded F_def, OF big] unfolding corrected_def Let_def by metis
    define e where "e = ?d + i"
    note i = i [folded e_def]
    have s: "sint (word_of_int e :: u64) = e" using i(3,4) by (intro sint_small) simp_all
    have r': "(flen, n, ok) = (if (if min_zero r then e < 0 else e \<le> 0) then (0, 0, False)
        else (length_exists_max_len (r\<lparr>max_length := word_of_int e\<rparr>), word_of_int e, True))"
      using res unfolding shrink_with_len_eq [OF W(3)] if_P [OF True] dl i(2) Let_def s by (rule sym)
    note A = shrink_arith [OF L0(2,1,3) big refl refl i(1,5,6,7) [unfolded e_def], folded e_def]
    have one: "mlen 1 = 1" by (simp add: mlen_def)
    show ?thesis
    proof (cases "if min_zero r then e < 0 else e \<le> 0")
      case True
      then have "8 \<le> T \<Longrightarrow> ?t < F + 1 + (if min_zero r then 0 else 1)"
        using A(2,3) one by (cases "e = 0") (auto simp: word_le_def split: if_splits)
      moreover have "\<not> ok" using r' unfolding if_P [OF True] by simp
      ultimately show ?thesis by blast
    next
      case False
      then have p: "0 \<le> e" "min_zero r \<or> 0 < e" by (auto split: if_splits)
      have u: "uint (word_of_int e :: u64) = e" using p(1) i(4) by (simp add: uint_word_of_int)
      have len: "uint (length_exists_max_len (r\<lparr>max_length := word_of_int e\<rparr>)) = F + mlen e + e"
        unfolding F_def by (rule too_long_word(2) [where T = T]) (use p i(3,4) bounds in \<open>simp_all add: F_def\<close>)
      have fit: "F + mlen e + e \<le> ?t" "e < ?L" using A(1) p(1) by auto
      have nxt: "8 \<le> T \<Longrightarrow> ?t < F + mlen (e + 1) + (e + 1)" using A(2) p(1) by (simp add: word_le_def)
      have n: "ok" "n = word_of_int e" "uint flen = F + mlen e + e"
        using r' len unfolding if_not_P [OF False] by simp_all
      show ?thesis unfolding n(2) word_le_def word_less_def n(3) u using n(1) fit nxt p by (auto simp: word_le_def)
    qed
  qed
  show "ok \<Longrightarrow> uint flen = F + mlen (uint n) + uint n \<and> flen \<le> T \<and> n \<le> max_length r \<and> (min_zero r \<or> 0 < n)"
    and "ok \<Longrightarrow> 8 \<le> T \<Longrightarrow> n < max_length r \<Longrightarrow> ?t < F + mlen (uint n + 1) + (uint n + 1)"
    and "\<not> ok \<Longrightarrow> 8 \<le> T \<Longrightarrow> min_zero r \<or> 0 < max_length r \<Longrightarrow> ?t < F + 1 + (if min_zero r then 0 else 1)"
    using all by blast+
qed

lemma shrink_no_len_spec:
  assumes bounds: "uint (max_length r) < 2 ^ 62" "uint (fixed_length r) \<le> 2 ^ 60" "uint T < 2 ^ 61"
    and res: "shrink_to_fit_no_len T r = (flen, n, ok)"
  shows "ok \<Longrightarrow> uint T = uint (fixed_length r) + uint n \<and> n \<le> max_length r"
    and "flen = 0 \<Longrightarrow> \<not> ok \<Longrightarrow> 0 < fixed_length r \<Longrightarrow> uint T < uint (fixed_length r)"
    and "uint (fixed_length r) \<le> uint T \<Longrightarrow> uint T \<le> uint (fixed_length r) + uint (max_length r) \<Longrightarrow>
         ok \<and> uint n = uint T - uint (fixed_length r)"
proof -
  let ?F = "uint (fixed_length r)" and ?L = "uint (max_length r)"
  have add: "uint (x + y) = uint x + uint y" if "uint x \<le> 2 ^ 60" "uint y < 2 ^ 62" for x y :: u64
    using that uint_ge_0 [of x] uint_ge_0 [of y] by (simp add: uint_word_ariths mod_pos_pos_trivial)
  have w: "uint (length_no_max_len r) = ?F + ?L"
    unfolding length_no_max_len_def using bounds by (intro add) simp_all
  have sub: "uint (x - y) = uint x - uint y" if "y \<le> x" for x y :: u64
    using that by (simp add: uint_minus_simple_alt word_le_def)
  have F0: "0 \<le> ?F" "0 \<le> ?L" "0 \<le> uint T" by simp_all
  have "(ok \<longrightarrow> uint T = ?F + uint n \<and> n \<le> max_length r)
     \<and> (flen = 0 \<and> \<not> ok \<and> 0 < fixed_length r \<longrightarrow> uint T < ?F)
     \<and> (?F \<le> uint T \<and> uint T \<le> ?F + ?L \<longrightarrow> ok \<and> uint n = uint T - ?F)"
  proof (cases "T < length_no_max_len r")
    case True
    then have k: "uint (length_no_max_len r - T) = ?F + ?L - uint T" using sub w by (simp add: less_imp_le)
    have lt: "max_length r < length_no_max_len r - T \<longleftrightarrow> uint T < ?F" by (simp add: word_less_def k)
    show ?thesis
    proof (cases "uint T < ?F")
      case True
      then show ?thesis using res lt \<open>T < length_no_max_len r\<close> by (auto simp: shrink_to_fit_no_len_def Let_def)
    next
      case False
      define n' where "n' = max_length r - (length_no_max_len r - T)"
      have n: "uint n' = uint T - ?F"
        unfolding n'_def using False lt k by (subst sub) (auto simp: not_less)
      have "uint n' \<le> uint T" using n F0(1) by linarith
      then have "uint n' < 2 ^ 62" using bounds(3) by simp
      then have "uint (fixed_length r + n') = uint T" using add [OF bounds(2), of n'] n by simp
      then have "length_no_max_len (r\<lparr>max_length := n'\<rparr>) = T" by (simp add: length_no_max_len_def unsigned_word_eqI)
      moreover have "n' \<le> max_length r" using n True w by (simp add: word_le_def word_less_def)
      ultimately show ?thesis
        using res lt False True n by (auto simp: shrink_to_fit_no_len_def Let_def n'_def [symmetric])
    qed
  next
    case False
    have "length_no_max_len r = 0 \<Longrightarrow> fixed_length r = 0"
      using w F0 by (metis add_nonneg_eq_0_iff uint_0_iff)
    moreover have r: "flen = length_no_max_len r" "n = max_length r" "ok \<longleftrightarrow> length_no_max_len r = T"
      using res False by (auto simp: shrink_to_fit_no_len_def Let_def)
    moreover have "ok \<longleftrightarrow> uint T = ?F + ?L" using r(3) w by (metis word_of_int_uint)
    moreover have "?F + ?L \<le> uint T" using False w by (simp add: word_less_def)
    ultimately show ?thesis by auto
  qed
  then show "ok \<Longrightarrow> uint T = ?F + uint n \<and> n \<le> max_length r"
    "flen = 0 \<Longrightarrow> \<not> ok \<Longrightarrow> 0 < fixed_length r \<Longrightarrow> uint T < ?F"
    "?F \<le> uint T \<Longrightarrow> uint T \<le> ?F + ?L \<Longrightarrow> ok \<and> uint n = uint T - ?F" by blast+
qed

subsection \<open>STREAM frames cut to size\<close>

text \<open>What a frame built by \<open>make_fit_size_Stream\<close> looks like.\<close>

definition cut_frame :: "u64 \<Rightarrow> u64 \<Rightarrow> byte list \<Rightarrow> bool \<Rightarrow> bool \<Rightarrow> u64 \<Rightarrow> StreamFrame" where
  "cut_frame stream_id offset src fin len n =
     \<lparr>f_type = FrameFlags_of (make_STREAM (offset \<noteq> 0) len (fin \<and> of_nat (length src) = n)),
      sf_streamID = Value stream_id, sf_offset = Value offset, sf_length = Value n,
      sf_stream_data = rsubstr src 0 (unat n)\<rparr>"

lemma make_fit_size_Stream_cases:
  "make_fit_size_Stream T sid off src fin az =
     (case shrink_to_fit_no_len T (stream_size_range sid off (of_nat (length src)) az) of
        (ok, n, valid) \<Rightarrow>
          if valid then (cut_frame sid off src fin False n, True)
          else if ok = 0 then (stream_fresh, False)
          else case shrink_to_fit_with_len T (stream_size_range sid off (of_nat (length src)) az) of
            (_, n, use_len) \<Rightarrow> if use_len then (cut_frame sid off src fin True n, True) else (stream_fresh, False))"
  unfolding make_fit_size_Stream_def cut_frame_def Let_def by (rule refl)

lemma cut_frame_tyval:
  "stream_tyval (cut_frame sid off src fin len n) =
     FrameFlags_of (make_STREAM (off \<noteq> 0) len (fin \<and> of_nat (length src) = n))"
proof -
  have "stream_get_type False (cut_frame sid off src fin len n) =
      make_STREAM (off \<noteq> 0) len (fin \<and> of_nat (length src) = n)"
    using stream_flags_facts [OF make_STREAM_is_STREAM] by (simp add: stream_get_type_def cut_frame_def)
  then show ?thesis by (simp add: stream_tyval_def)
qed

lemma unat_varint_len_u64: "unat (ucast (varint_len x) :: u64) = unat (varint_len x)"
  using unsigned_less [of "varint_len x", where ?'a = nat] by (simp add: unsigned_ucast_eq take_bit_nat_eq_self)

lemma min_len_le_8: "min_len v \<le> 8"
  using min_len_cases [of v] by auto

lemma unat_overhead:
  "unat (calc_stream_overhead sid off h) = 1 + min_len sid + (if h then min_len off else 0)"
  using min_len_le_8 [of sid] min_len_le_8 [of off]
  by (simp add: calc_stream_overhead_def unat_word_ariths unat_varint_len_u64)

lemma cut_frame_len:
  assumes "n \<le> of_nat (length src)" "length src < 2 ^ 62"
  shows "length (sf_stream_data (cut_frame sid off src fin len n)) = unat n"
    and "sf_stream_data (cut_frame sid off src fin len n) = take (unat n) src"
    and "int (stream_len False (cut_frame sid off src fin len n)) =
      uint (calc_stream_overhead sid off (off \<noteq> 0)) + (if len then mlen (uint n) else 0) + uint n"
proof -
  have n: "unat n \<le> length src" using assms by (simp add: word_le_nat_alt unat_of_nat_u64)
  show d: "sf_stream_data (cut_frame sid off src fin len n) = take (unat n) src"
    using n by (simp add: cut_frame_def rsubstr_def)
  then show l: "length (sf_stream_data (cut_frame sid off src fin len n)) = unat n" using n by simp
  have "int (unat n) < int (2 ^ 62)" using n assms(2) by (simp only: of_nat_less_iff)
  then have "uint n < 2 ^ 62" by simp
  then have m: "int (min_len n) = mlen (uint n)" using min_len_mlen [of "uint n"] by simp
  have "stream_len False (cut_frame sid off src fin len n) =
      1 + min_len sid + (if off \<noteq> 0 then min_len off else 0) + (if len then min_len n else 0) + unat n"
    unfolding stream_len_def Let_def stream_tyval_def [symmetric] cut_frame_tyval l
    unfolding vsize_def l by (simp add: type_minlen_def) (simp add: cut_frame_def)
  moreover have "uint (calc_stream_overhead sid off (off \<noteq> 0)) =
      int (1 + min_len sid + (if off \<noteq> 0 then min_len off else 0))"
    unfolding unat_overhead [symmetric] by simp
  ultimately show "int (stream_len False (cut_frame sid off src fin len n)) =
      uint (calc_stream_overhead sid off (off \<noteq> 0)) + (if len then mlen (uint n) else 0) + uint n"
    using m by simp
qed

lemma stream_range_bounds:
  fixes sid off :: u64 and az :: bool
  assumes "length src < 2 ^ 62"
  defines "r \<equiv> stream_size_range sid off (of_nat (length src)) az"
  shows "uint (max_length r) = int (length src)" "uint (max_length r) < 2 ^ 62" "uint (fixed_length r) \<le> 2 ^ 60"
    "fixed_length r = calc_stream_overhead sid off (off \<noteq> 0)" "min_zero r = az" "0 < fixed_length r"
proof -
  have "unat (max_length r) = length src"
    using unat_of_nat_u64 [of "length src"] assms(1) by (simp add: r_def stream_size_range_def)
  then show m: "uint (max_length r) = int (length src)" by (metis uint_nat)
  then show "uint (max_length r) < 2 ^ 62" using assms(1) by simp
  show f: "fixed_length r = calc_stream_overhead sid off (off \<noteq> 0)" "min_zero r = az"
    by (simp_all add: r_def stream_size_range_def)
  have "unat (fixed_length r) \<le> 17" "0 < unat (fixed_length r)"
    unfolding f unat_overhead using min_len_le_8 [of sid] min_len_le_8 [of off] by simp_all
  moreover from this(1) have "int (unat (fixed_length r)) \<le> int 17" by (simp only: of_nat_le_iff)
  ultimately show "uint (fixed_length r) \<le> 2 ^ 60" "0 < fixed_length r" by (simp_all add: word_less_nat_alt)
qed

lemma fit_stream:
  assumes "make_fit_size_Stream to_fit stream_id offset src fin allow_zero = (f, True)"
    and "uint to_fit < 2 ^ 61" and "length src < 2 ^ 62" and "stream_id < 2 ^ 62" and "offset < 2 ^ 62"
  shows "int (stream_len False f) \<le> uint to_fit
     \<and> (\<exists>n \<le> length src. sf_stream_data f = take n src \<and> (STREAM_fin (f_type f) \<longleftrightarrow> fin \<and> n = length src))
     \<and> vval (sf_streamID f) = stream_id \<and> vval (sf_offset f) = offset \<and> stream_ok f"
proof -
  let ?r = "stream_size_range stream_id offset (of_nat (length src)) allow_zero"
  note b = stream_range_bounds [OF assms(3), where sid = stream_id and off = offset and az = allow_zero]
  obtain ok n v where nl: "shrink_to_fit_no_len to_fit ?r = (ok, n, v)" by (metis surj_pair)
  obtain fl m u where wl: "shrink_to_fit_with_len to_fit ?r = (fl, m, u)" by (metis surj_pair)
  have "\<exists>len k. f = cut_frame stream_id offset src fin len k \<and> k \<le> of_nat (length src)
      \<and> uint (calc_stream_overhead stream_id offset (offset \<noteq> 0)) + (if len then mlen (uint k) else 0) + uint k \<le> uint to_fit"
  proof (cases v)
    case True
    then have f: "f = cut_frame stream_id offset src fin False n"
      using assms(1) nl by (simp add: make_fit_size_Stream_cases)
    show ?thesis
      using shrink_no_len_spec(1) [OF b(2,3) assms(2) nl True] b(4) f
      by (intro exI [of _ False] exI [of _ n]) (simp add: stream_size_range_def)
  next
    case False
    then have f: "f = cut_frame stream_id offset src fin True m" "u"
      using assms(1) nl wl by (auto simp: make_fit_size_Stream_cases split: if_splits)
    show ?thesis
      using shrink_with_len_spec(1) [OF b(2,3) assms(2) wl f(2)] b(4) f(1)
      by (intro exI [of _ True] exI [of _ m]) (simp add: stream_size_range_def word_le_def)
  qed
  then obtain len k where k: "f = cut_frame stream_id offset src fin len k" "k \<le> of_nat (length src)"
    "uint (calc_stream_overhead stream_id offset (offset \<noteq> 0)) + (if len then mlen (uint k) else 0) + uint k \<le> uint to_fit"
    by blast
  note c = cut_frame_len [OF k(2) assms(3), of stream_id offset fin len]
  have kn: "unat k \<le> length src" "of_nat (length src) = k \<longleftrightarrow> unat k = length src"
    using k(2) assms(3) by (auto simp: word_le_nat_alt unat_of_nat_u64 intro!: unat_eqI)
  have d: "size_t_ok (sf_stream_data f)" "length (sf_stream_data f) < 2 ^ 62"
    using c(1) kn(1) assms(3) by (simp_all add: k(1) size_t_ok_def)
  have sok: "stream_ok f"
    using vsize_ok [OF d(1)] d(2) assms(4,5) by (simp add: stream_ok_def k(1) cut_frame_def varint_ok_Value)
  show ?thesis
  proof (intro conjI exI [of _ "unat k"])
    show "int (stream_len False f) \<le> uint to_fit" using c(3) k(1,3) by simp
    show "STREAM_fin (f_type f) \<longleftrightarrow> fin \<and> unat k = length src" using kn(2) by (simp add: k(1) cut_frame_def)
  qed (use c(2) kn sok in \<open>simp_all add: k(1)\<close>, simp_all add: cut_frame_def)
qed

text \<open>With room for the longest length field all the data are in the frame.\<close>

lemma fit_stream_whole:
  assumes "uint (calc_stream_overhead sid off (off \<noteq> 0)) + 8 + int (length src) \<le> uint T" and "uint T < 2 ^ 61"
    and "az \<or> src \<noteq> []"
  shows "make_fit_size_Stream T sid off src fin az = (cut_frame sid off src fin True (of_nat (length src)), True)"
proof -
  let ?r = "stream_size_range sid off (of_nat (length src)) az" and ?F = "uint (calc_stream_overhead sid off (off \<noteq> 0))"
  have "int (length src) < 2 ^ 61" using assms(1,2) uint_ge_0 [of "calc_stream_overhead sid off (off \<noteq> 0)"] by linarith
  then have src: "length src < 2 ^ 62" by simp
  note b = stream_range_bounds [OF src, where sid = sid and off = off and az = az]
  obtain ok n v where nl: "shrink_to_fit_no_len T ?r = (ok, n, v)" by (metis surj_pair)
  obtain fl m u where wl: "shrink_to_fit_with_len T ?r = (fl, m, u)" by (metis surj_pair)
  have L: "uint (max_length ?r) = int (length src)" "uint (fixed_length ?r) = ?F" "min_zero ?r = az"
    using b(1,4,5) by (simp_all add: stream_size_range_def)
  have "8 \<le> uint T" using assms(1) uint_ge_0 [of "calc_stream_overhead sid off (off \<noteq> 0)"] by linarith
  then have T8: "8 \<le> T" by (simp add: word_le_def)
  have nv: "\<not> v"
  proof
    assume v
    then have "uint T = ?F + uint n" "n \<le> max_length ?r" using shrink_no_len_spec(1) [OF b(2,3) assms(2) nl] L by simp_all
    then show False using assms(1) L(1) by (simp add: word_le_def)
  qed
  have ok: "ok \<noteq> 0" using shrink_no_len_spec(2) [OF b(2,3) assms(2) nl _ nv b(6)] assms(1) L by auto
  have u: u
  proof (rule ccontr)
    assume "\<not> u"
    moreover have "min_zero ?r \<or> 0 < max_length ?r" using assms(3) L by (auto simp: word_less_def)
    ultimately have "uint T < ?F + 1 + (if az then 0 else 1)" using shrink_with_len_spec(3) [OF b(2,3) assms(2) wl _ T8] L by simp
    then show False using assms(1) by (simp split: if_splits)
  qed
  have "m = of_nat (length src)"
  proof (rule ccontr)
    assume ne: "m \<noteq> of_nat (length src)"
    have "m \<le> max_length ?r" using shrink_with_len_spec(1) [OF b(2,3) assms(2) wl u] by simp
    then have lt: "m < max_length ?r" using ne by (simp add: stream_size_range_def)
    then have "uint T < ?F + mlen (uint m + 1) + (uint m + 1)" using shrink_with_len_spec(2) [OF b(2,3) assms(2) wl u T8] L by simp
    moreover have "uint m + 1 \<le> int (length src)" using lt L(1) by (simp add: word_less_def)
    moreover have "mlen (uint m + 1) \<le> 8" by (rule mlen_bounds)
    ultimately show False using assms(1) by linarith
  qed
  then show ?thesis using nl wl nv ok u by (simp add: make_fit_size_Stream_cases)
qed

section \<open>Properties\<close>

text \<open>
  C16. A STREAM frame cut to the space that is left fits it, carries a prefix of
  the data at the given stream and offset, has the FIN flag exactly when the end
  of the stream was asked for and all the data are in the frame, and can be
  rendered.
\<close>

theorem make_fit_size_Stream_fits:
  assumes "make_fit_size_Stream to_fit stream_id offset src fin allow_zero = (f, True)"
    and "uint to_fit < 2 ^ 61" and "length src < 2 ^ 62" and "stream_id < 2 ^ 62" and "offset < 2 ^ 62"
  shows "int (stream_len False f) \<le> uint to_fit
     \<and> (\<exists>n \<le> length src. sf_stream_data f = take n src \<and> (STREAM_fin (f_type f) \<longleftrightarrow> fin \<and> n = length src))
     \<and> vval (sf_streamID f) = stream_id \<and> vval (sf_offset f) = offset \<and> stream_ok f"
  by (rule fit_stream [OF assms])

theorem make_fit_size_Stream_fits_witness:
  "\<exists>f. make_fit_size_Stream 4 1 0 [7, 8, 9, 10] True False = (f, True)
     \<and> int (stream_len False f) \<le> 4 \<and> (\<exists>n. sf_stream_data f = take n [7, 8, 9, 10])"
proof -
  have "snd (make_fit_size_Stream 4 1 0 [7, 8, 9, 10] True False)"
    by (simp add: make_fit_size_Stream_def shrink_to_fit_no_len_def stream_size_range_def Let_def
        calc_stream_overhead_def length_no_max_len_def varint_len_def min_len_def in_range_def border_def)
  then obtain f where f: "make_fit_size_Stream 4 1 0 [7, 8, 9, 10] True False = (f, True)" by (metis prod.collapse)
  from make_fit_size_Stream_fits [OF f] f show ?thesis by auto
qed



text \<open>
  The form without a length field does not look at \<^verbatim>\<open>allow_zero\<close>: when the
  space is exactly the overhead, a STREAM frame with no data is returned although
  there are data to send and empty frames are not allowed.
\<close>

lemma make_fit_size_Stream_empty:
  assumes "to_fit = calc_stream_overhead stream_id offset (offset \<noteq> 0)" and "src \<noteq> []" and "length src < 2 ^ 62"
  shows "\<exists>f. make_fit_size_Stream to_fit stream_id offset src fin False = (f, True) \<and> sf_stream_data f = []"
proof -
  let ?r = "stream_size_range stream_id offset (of_nat (length src)) False"
  note b = stream_range_bounds [OF assms(3), where sid = stream_id and off = offset and az = False]
  obtain ok n v where nl: "shrink_to_fit_no_len to_fit ?r = (ok, n, v)" by (metis surj_pair)
  have t: "uint to_fit < 2 ^ 61" using b(3,4) assms(1) by simp
  have "v" "uint n = 0" using shrink_no_len_spec(3) [OF b(2,3) t nl] b(1,4) assms(1) by auto
  then have "make_fit_size_Stream to_fit stream_id offset src fin False = (cut_frame stream_id offset src fin False 0, True)"
    using nl by (simp add: make_fit_size_Stream_cases uint_0_iff)
  then show ?thesis by (auto simp: cut_frame_def rsubstr_def)
qed

end
