(* ===== verification/AckFrame.thy ===== *)
theory AckFrame
  imports FrameBase
begin

text \<open>
  The ACK frame and its range arithmetic (\<^verbatim>\<open>fnet/quic/frame/ack.h\<close>): the wire form
  with relative gaps and lengths, the absolute ranges, and the conversions in both
  directions. The template parameter \<^verbatim>\<open>Vec\<close> of the source is a list.
\<close>

section \<open>ACK\<close>

record WireACKRange =
  wr_gap :: varint
  wr_len :: varint

record ACKRange =
  largest :: u64
  smallest :: u64

record ECNCounts =
  ect0 :: varint
  ect1 :: varint
  ecn_ce :: varint

record ACKFrame = Frame +
  ak_largest_ack :: varint
  ak_ack_delay :: varint
  ak_ack_range_count :: varint
  ak_first_ack_range :: varint
  ak_ack_ranges :: "WireACKRange list"
  ak_ecn_counts :: ECNCounts

definition ecn_zero :: ECNCounts where
  "ecn_zero = \<lparr>ect0 = Value 0, ect1 = Value 0, ecn_ce = Value 0\<rparr>"

definition ack_fresh :: ACKFrame where
  "ack_fresh = \<lparr>f_type = 0, ak_largest_ack = Value 0, ak_ack_delay = Value 0, ak_ack_range_count = Value 0,
     ak_first_ack_range = Value 0, ak_ack_ranges = [], ak_ecn_counts = ecn_zero\<rparr>"

definition ack_get_type :: "bool \<Rightarrow> ACKFrame \<Rightarrow> FrameType" where
  "ack_get_type on_cast f =
     (if on_cast then FT ACK else if type_detail (f_type f) = FT ACK_ECN then FT ACK_ECN else FT ACK)"

text \<open>
  The loop over the ranges; the two fields are read into a local range, which is
  appended only when both were read.
\<close>

fun read_ranges :: "nat \<Rightarrow> ACKFrame parser" where
  "read_ranges 0 s = (True, s)"
| "read_ranges (Suc n) (f, r) =
     (case varint_read r of ((gap, ok1), r1) \<Rightarrow>
        if \<not> ok1 then (False, (f, r1))
        else case varint_read r1 of ((len, ok2), r2) \<Rightarrow>
          if \<not> ok2 then (False, (f, r2))
          else read_ranges n (f\<lparr>ak_ack_ranges := ak_ack_ranges f @ [\<lparr>wr_gap = gap, wr_len = len\<rparr>]\<rparr>, r2))"

definition parse_ack_ranges :: "ACKFrame parser" where
  "parse_ack_ranges =
     on_frame (\<lambda>f. chain
       [assign (\<lambda>(f, r). (f\<lparr>ak_ack_ranges := []\<rparr>, r)), read_ranges (unat (vval (ak_ack_range_count f)))])"

definition ecn_update :: "((varint \<Rightarrow> varint) \<Rightarrow> ECNCounts \<Rightarrow> ECNCounts) \<Rightarrow> (varint \<Rightarrow> varint) \<Rightarrow> ACKFrame \<Rightarrow> ACKFrame" where
  "ecn_update upd g = ak_ecn_counts_update (upd g)"

definition parse_ecn_counts :: "ACKFrame parser" where
  "parse_ecn_counts =
     on_frame (\<lambda>f. unless (type_detail (f_type f) \<noteq> FT ACK_ECN) (chain
       [read_varint (ecn_update ecn_ce_update), read_varint (ecn_update ect0_update),
        read_varint (ecn_update ect1_update)]))"

definition ack_parse :: "ACKFrame parser" where
  "ack_parse = chain
     [parse_check (FT ACK), read_varint ak_largest_ack_update, read_varint ak_ack_delay_update,
      read_varint ak_ack_range_count_update, read_varint ak_first_ack_range_update,
      parse_ack_ranges, parse_ecn_counts]"

fun ack_ranges_len :: "WireACKRange list \<Rightarrow> nat" where
  "ack_ranges_len [] = 0"
| "ack_ranges_len (x # xs) = unat (varint_len (wr_gap x)) + unat (varint_len (wr_len x)) + ack_ranges_len xs"

definition ecn_counts_len :: "ACKFrame \<Rightarrow> nat" where
  "ecn_counts_len f =
     (if type_detail (f_type f) \<noteq> FT ACK_ECN then 0
      else unat (varint_len (ecn_ce (ak_ecn_counts f))) + unat (varint_len (ect0 (ak_ecn_counts f)))
           + unat (varint_len (ect1 (ak_ecn_counts f))))"

definition ack_len :: "bool \<Rightarrow> ACKFrame \<Rightarrow> nat" where
  "ack_len use_length_field f =
     type_minlen (FrameFlags_of (FT ACK)) + unat (varint_len (ak_largest_ack f))
     + unat (varint_len (ak_ack_delay f)) + unat (varint_len (ak_ack_range_count f))
     + unat (varint_len (ak_first_ack_range f)) + ack_ranges_len (ak_ack_ranges f) + ecn_counts_len f"

fun write_ranges :: "WireACKRange list \<Rightarrow> writer action" where
  "write_ranges [] = chain []"
| "write_ranges (x # xs) = chain [varint_write (wr_gap x), varint_write (wr_len x), write_ranges xs]"

definition render_ack_range :: "ACKFrame \<Rightarrow> writer action" where
  "render_ack_range f =
     fail_if (of_nat (length (ak_ack_ranges f)) \<noteq> vval (ak_ack_range_count f)) (write_ranges (ak_ack_ranges f))"

definition render_ecn_counts :: "ACKFrame \<Rightarrow> writer action" where
  "render_ecn_counts f =
     unless (type_detail (f_type f) \<noteq> FT ACK_ECN) (chain
       [varint_write (ecn_ce (ak_ecn_counts f)), varint_write (ect0 (ak_ecn_counts f)),
        varint_write (ect1 (ak_ecn_counts f))])"

definition ack_render :: "ACKFrame \<Rightarrow> writer action" where
  "ack_render f = chain
     [type_minwrite (FrameFlags_of (ack_get_type False f)), varint_write (ak_largest_ack f),
      varint_write (ak_ack_delay f), varint_write (ak_ack_range_count f),
      varint_write (ak_first_ack_range f), render_ack_range f, render_ecn_counts f]"

subsection \<open>The bytes of an ACK frame\<close>

fun ranges_enc :: "WireACKRange list \<Rightarrow> byte list" where
  "ranges_enc [] = []"
| "ranges_enc (x # xs) = venc (wr_gap x) @ venc (wr_len x) @ ranges_enc xs"

fun ranges_ok :: "WireACKRange list \<Rightarrow> bool" where
  "ranges_ok [] \<longleftrightarrow> True"
| "ranges_ok (x # xs) \<longleftrightarrow> varint_ok (wr_gap x) \<and> varint_ok (wr_len x) \<and> ranges_ok xs"

definition range_norm :: "WireACKRange \<Rightarrow> WireACKRange" where
  "range_norm x = \<lparr>wr_gap = vnorm (wr_gap x), wr_len = vnorm (wr_len x)\<rparr>"

definition ecn_enc :: "ACKFrame \<Rightarrow> byte list" where
  "ecn_enc f = (if type_detail (f_type f) \<noteq> FT ACK_ECN then []
     else venc (ecn_ce (ak_ecn_counts f)) @ venc (ect0 (ak_ecn_counts f)) @ venc (ect1 (ak_ecn_counts f)))"

definition ecn_ok :: "ACKFrame \<Rightarrow> bool" where
  "ecn_ok f \<longleftrightarrow> type_detail (f_type f) \<noteq> FT ACK_ECN \<or> varint_ok (ecn_ce (ak_ecn_counts f))
     \<and> varint_ok (ect0 (ak_ecn_counts f)) \<and> varint_ok (ect1 (ak_ecn_counts f))"

definition ack_enc :: "ACKFrame \<Rightarrow> byte list" where
  "ack_enc f = venc (Value (FrameFlags_of (ack_get_type False f))) @ venc (ak_largest_ack f)
     @ venc (ak_ack_delay f) @ venc (ak_ack_range_count f) @ venc (ak_first_ack_range f)
     @ ranges_enc (ak_ack_ranges f) @ ecn_enc f"

definition ack_ok :: "ACKFrame \<Rightarrow> bool" where
  "ack_ok f \<longleftrightarrow> varint_ok (ak_largest_ack f) \<and> varint_ok (ak_ack_delay f) \<and> varint_ok (ak_ack_range_count f)
     \<and> varint_ok (ak_first_ack_range f) \<and> of_nat (length (ak_ack_ranges f)) = vval (ak_ack_range_count f)
     \<and> ranges_ok (ak_ack_ranges f) \<and> ecn_ok f"

definition ack_norm :: "ACKFrame \<Rightarrow> ACKFrame" where
  "ack_norm f = \<lparr>f_type = FrameFlags_of (ack_get_type False f), ak_largest_ack = vnorm (ak_largest_ack f),
     ak_ack_delay = vnorm (ak_ack_delay f), ak_ack_range_count = vnorm (ak_ack_range_count f),
     ak_first_ack_range = vnorm (ak_first_ack_range f), ak_ack_ranges = map range_norm (ak_ack_ranges f),
     ak_ecn_counts = (if type_detail (f_type f) \<noteq> FT ACK_ECN then ecn_zero
       else \<lparr>ect0 = vnorm (ect0 (ak_ecn_counts f)), ect1 = vnorm (ect1 (ak_ecn_counts f)),
             ecn_ce = vnorm (ecn_ce (ak_ecn_counts f))\<rparr>)\<rparr>"

lemma write_ranges_encodes: "encodes (write_ranges xs) (ranges_ok xs) (ranges_enc xs)"
proof (induction xs)
  case Nil
  then show ?case by (simp add: encodes_def)
next
  case (Cons x xs)
  show ?case
    unfolding write_ranges.simps ranges_ok.simps ranges_enc.simps
    by (rule encodes_ok_cong, (rule encodes_rules Cons.IH)+) simp_all
qed

lemma ack_encodes: "encodes (ack_render f) (ack_ok f) (ack_enc f)"
  unfolding ack_render_def render_ack_range_def render_ecn_counts_def ack_enc_def ack_ok_def ecn_enc_def ecn_ok_def
  by (rule encodes_ok_cong, (rule encodes_rules write_ranges_encodes)+) (simp_all add: ack_get_type_def)

lemma read_ranges_enc:
  "ranges_ok xs \<Longrightarrow> read_ranges (length xs) (f, rd pre (ranges_enc xs @ rest))
     = (True, (f\<lparr>ak_ack_ranges := ak_ack_ranges f @ map range_norm xs\<rparr>, rd (pre @ ranges_enc xs) rest))"
  by (induction xs arbitrary: f pre) (simp_all add: varint_read_venc range_norm_def)

lemma read_ranges_safe: "safe (read_ranges n)"
proof (induction n)
  case 0
  then show ?case by (simp add: safe_def advances_refl)
next
  case (Suc n)
  show ?case
    unfolding safe_def
  proof (intro allI impI)
    fix f r assume r: "reader_wf r"
    obtain g o1 r1 where 1: "varint_read r = ((g, o1), r1)" by (metis surj_pair)
    obtain l o2 r2 where 2: "varint_read r1 = ((l, o2), r2)" by (metis surj_pair)
    have a1: "advances r r1" using varint_read_advances [OF r] 1 by simp
    then have a2: "advances r1 r2" using varint_read_advances [OF advances_wf] 2 by (metis snd_conv)
    have "advances r2 (snd (snd (read_ranges n (f', r2))))" for f'
      using Suc.IH advances_wf [OF a2] by (simp add: safe_def)
    then show "advances r (snd (snd (read_ranges (Suc n) (f, r))))"
      using 1 2 a1 a2 advances_trans by (auto intro: advances_trans)
  qed
qed

lemma ranges_lengths:
  "ranges_ok xs \<Longrightarrow> ack_ranges_len xs = length (ranges_enc xs)"
  "ack_ranges_len (map range_norm xs) = ack_ranges_len xs"
  "ranges_ok (map range_norm xs) = ranges_ok xs" "ranges_enc (map range_norm xs) = ranges_enc xs"
  by (induction xs) (auto simp: length_venc range_norm_def)

lemma ack_type_cases:
  obtains "type_detail (f_type f) = FT ACK_ECN" "ack_get_type False f = FT ACK_ECN"
  | "type_detail (f_type f) \<noteq> FT ACK_ECN" "ack_get_type False f = FT ACK"
  unfolding ack_get_type_def by (cases "type_detail (f_type f) = FT ACK_ECN") auto

lemma parse_ack_ranges_step [step_simps]:
  "ranges_ok xs \<Longrightarrow> unat (vval (ak_ack_range_count f)) = length xs \<Longrightarrow>
   parse_ack_ranges (f, rd pre (ranges_enc xs @ rest))
     = (True, (f\<lparr>ak_ack_ranges := map range_norm xs\<rparr>, rd (pre @ ranges_enc xs) rest))"
  by (simp add: parse_ack_ranges_def on_frame_step read_ranges_enc)

lemma ack_codec_safe: "safe ack_parse" "progress ack_parse"
  unfolding ack_parse_def parse_ack_ranges_def parse_ecn_counts_def
  by (simp_all add: safe_intros read_ranges_safe split_beta)

lemma ack_count:
  assumes "length (ak_ack_ranges f) < 2 ^ 64" "of_nat (length (ak_ack_ranges f)) = vval (ak_ack_range_count f)"
  shows "unat (vval (ak_ack_range_count f)) = length (ak_ack_ranges f)"
  using assms(1) unat_of_nat_u64 [of "length (ak_ack_ranges f)"] unfolding assms(2) [symmetric] by simp

interpretation ack_codec: frame_codec ack_render ack_parse ack_len ack_enc ack_ok ack_norm
  "\<lambda>_. False" ack_fresh "\<lambda>f. length (ak_ack_ranges f) < 2 ^ 64"
proof unfold_locales
  fix f assume w: "length (ak_ack_ranges f) < 2 ^ 64" and o: "ack_ok f"
  have n: "unat (vval (ak_ack_range_count f)) = length (ak_ack_ranges f)"
    using w o by (intro ack_count) (simp_all add: ack_ok_def)
  show "decodes False ack_fresh ack_parse (ack_enc f) (ack_norm f)"
    using o n unfolding decodes_def ack_parse_def ack_enc_def ack_ok_def
    by (cases f rule: ack_type_cases)
      (simp_all add: step_simps ack_fresh_def ack_norm_def parse_ecn_counts_def ecn_enc_def ecn_ok_def
        ecn_update_def ecn_zero_def)
  show "ack_len False f = length (ack_enc f)"
    using o by (simp add: ack_len_def ack_enc_def ack_ok_def frame_simps ranges_lengths ecn_counts_len_def
        ecn_enc_def ecn_ok_def ack_get_type_def)
  show "ack_len True (ack_norm f) = length (ack_enc f)"
    using o by (cases f rule: ack_type_cases)
      (simp_all add: ack_len_def ack_enc_def ack_ok_def frame_simps ranges_lengths ecn_counts_len_def
        ecn_enc_def ecn_ok_def ack_norm_def)
  show "length (ak_ack_ranges (ack_norm f)) < 2 ^ 64 \<and> ack_ok (ack_norm f) \<and> ack_enc (ack_norm f) = ack_enc f"
    using w o by (cases f rule: ack_type_cases)
      (simp_all add: ack_enc_def ack_ok_def ranges_lengths ecn_enc_def ecn_ok_def ack_norm_def ack_get_type_def)
qed (rule ack_encodes, (rule ack_codec_safe)+)

section \<open>Absolute ranges\<close>

fun is_sorted_from :: "ACKRange \<Rightarrow> ACKRange list \<Rightarrow> bool" where
  "is_sorted_from prev [] \<longleftrightarrow> True"
| "is_sorted_from prev (x # xs) \<longleftrightarrow>
     \<not> largest x < smallest x \<and> \<not> (smallest prev \<le> smallest x \<or> largest prev \<le> largest x) \<and> is_sorted_from x xs"

fun is_sorted_ack_ranges :: "ACKRange list \<Rightarrow> bool" where
  "is_sorted_ack_ranges [] \<longleftrightarrow> False"
| "is_sorted_ack_ranges (x # xs) \<longleftrightarrow> \<not> largest x < smallest x \<and> is_sorted_from x xs"

fun to_wire :: "ACKRange \<Rightarrow> ACKRange list \<Rightarrow> WireACKRange list" where
  "to_wire prev [] = []"
| "to_wire prev (x # xs) =
     \<lparr>wr_gap = Value (smallest prev - largest x - 2), wr_len = Value (largest x - smallest x)\<rparr> # to_wire x xs"

definition convert_to_ACKFrame :: "ACKRange list \<Rightarrow> ACKFrame \<times> bool" where
  "convert_to_ACKFrame ranges =
     (if \<not> is_sorted_ack_ranges ranges then (ack_fresh, False)
      else (ack_fresh\<lparr>f_type := FrameFlags_of (FT ACK), ak_largest_ack := Value (largest (hd ranges)),
              ak_first_ack_range := Value (largest (hd ranges) - smallest (hd ranges)),
              ak_ack_ranges := to_wire (hd ranges) (tl ranges),
              ak_ack_range_count := Value (of_nat (length ranges) - 1)\<rparr>, True))"

fun from_wire :: "ACKRange \<Rightarrow> WireACKRange list \<Rightarrow> ACKRange list" where
  "from_wire prev [] = []"
| "from_wire prev (x # xs) =
     (let lg = smallest prev - vval (wr_gap x) - 2;
          sm = lg - vval (wr_len x);
          rg = \<lparr>largest = lg, smallest = sm\<rparr>
      in rg # from_wire rg xs)"

definition convert_from_ACKFrame :: "ACKFrame \<Rightarrow> ACKRange list \<times> bool" where
  "convert_from_ACKFrame f =
     (let prev = \<lparr>largest = vval (ak_largest_ack f),
                  smallest = vval (ak_largest_ack f) - vval (ak_first_ack_range f)\<rparr>;
          ranges = prev # from_wire prev (ak_ack_ranges f)
      in (ranges, is_sorted_ack_ranges ranges))"

text \<open>
  \<^verbatim>\<open>encode_ack_delay\<close> and \<^verbatim>\<open>decode_ack_delay\<close>: the shift is one of an \<^verbatim>\<open>int\<close>, whose
  value is sign-extended; it is undefined for exponents from the width of \<^verbatim>\<open>int\<close> on
  (\<open>None\<close>).
\<close>

definition encode_ack_delay :: "u64 \<Rightarrow> u64 \<Rightarrow> u64 option" where
  "encode_ack_delay base exponent =
     (if exponent < 32 then Some (base div scast (push_bit (unat exponent) (1 :: u32))) else None)"

definition decode_ack_delay :: "u64 \<Rightarrow> u64 \<Rightarrow> u64 option" where
  "decode_ack_delay base exponent =
     (if exponent < 32 then Some (base * scast (push_bit (unat exponent) (1 :: u32))) else None)"

subsection \<open>Separated ranges\<close>

text \<open>What RFC 9000, section 19.3.1, asks of the ranges: descending, with a gap of at least one.\<close>

fun separated :: "ACKRange \<Rightarrow> ACKRange list \<Rightarrow> bool" where
  "separated prev [] \<longleftrightarrow> smallest prev \<le> largest prev"
| "separated prev (x # xs) \<longleftrightarrow> smallest prev \<le> largest prev
     \<and> unat (largest x) + 2 \<le> unat (smallest prev) \<and> separated x xs"

lemma separated_hd: "separated prev xs \<Longrightarrow> smallest prev \<le> largest prev"
  by (cases xs) auto

lemma separated_sorted:
  "separated prev xs \<Longrightarrow> is_sorted_from prev xs"
proof (induction xs arbitrary: prev)
  case (Cons x xs)
  then have "smallest x \<le> largest x" by (auto dest: separated_hd)
  then show ?case using Cons by (auto simp: word_less_nat_alt word_le_nat_alt)
qed simp

lemma from_wire_to_wire: "from_wire prev (to_wire prev xs) = xs"
proof (induction xs arbitrary: prev)
  case (Cons x xs)
  show ?case using Cons.IH [of x] by (cases x) (simp add: Let_def)
qed simp

lemma separated_length: "separated prev xs \<Longrightarrow> length xs \<le> unat (smallest prev)"
proof (induction xs arbitrary: prev)
  case (Cons x xs)
  then have "length xs \<le> unat (smallest x)" "smallest x \<le> largest x" by (auto dest: separated_hd)
  then show ?case using Cons.prems by (simp add: word_le_nat_alt)
qed simp

lemma separated_wire_ok:
  assumes "separated prev xs" "smallest prev < 2 ^ 62"
  shows "ranges_ok (to_wire prev xs)"
  using assms
proof (induction xs arbitrary: prev)
  case (Cons x xs)
  have le: "smallest x \<le> largest x" using Cons.prems(1) by (auto dest: separated_hd)
  have l: "unat (largest x) + 2 \<le> unat (smallest prev)" "unat (smallest prev) < 2 ^ 62"
    using Cons.prems by (simp_all add: word_less_nat_alt)
  have "unat (smallest prev - largest x) = unat (smallest prev) - unat (largest x)"
    using l(1) by (intro unat_sub_u64) (simp add: word_le_nat_alt)
  then have "unat (smallest prev - largest x - 2) = unat (smallest prev) - unat (largest x) - 2"
    using l(1) by (subst unat_sub_u64) (simp_all add: word_le_nat_alt)
  then have "varint_ok (Value (smallest prev - largest x - 2))"
    using l(2) by (simp add: varint_ok_Value word_less_nat_alt)
  moreover have "varint_ok (Value (largest x - smallest x))"
    using l unat_sub_u64 [OF le] by (simp add: varint_ok_Value word_less_nat_alt)
  moreover have "smallest x < 2 ^ 62" using le l by (simp add: word_le_nat_alt word_less_nat_alt)
  ultimately show ?case using Cons by simp
qed simp

text \<open>Sorted ranges have gaps that fit a varint only if they are separated: the others wrap around.\<close>

lemma touching_wire:
  assumes "is_sorted_from prev xs" "smallest prev \<le> largest prev" "largest prev < 2 ^ 62" "\<not> separated prev xs"
  shows "\<not> ranges_ok (to_wire prev xs)"
  using assms
proof (induction xs arbitrary: prev)
  case (Cons y ys)
  have y: "smallest y \<le> largest y" "largest y < largest prev" "is_sorted_from y ys" using Cons.prems(1) by auto
  then have y62: "largest y < 2 ^ 62" using Cons.prems(3) by simp
  show ?case
  proof (cases "separated y ys")
    case True
    define g where "g = smallest prev - largest y - 2"
    have "smallest prev = g + (largest y + 2)" by (simp add: g_def)
    then have "unat (smallest prev) = (unat g + unat (largest y) + 2) mod 2 ^ 64" by (simp add: unat_word_ariths mod_simps)
    moreover have "unat (smallest prev) < unat (largest y) + 2" using True Cons.prems(2,4) by auto
    moreover have "unat (largest y) < 2 ^ 62" "unat (smallest prev) < 2 ^ 62"
      using y62 Cons.prems(2,3) by (simp_all add: word_less_nat_alt word_le_nat_alt)
    ultimately have "\<not> unat g < 2 ^ 62" by auto
    then have "\<not> varint_ok (Value g)" by (simp add: varint_ok_Value word_less_nat_alt)
    then show ?thesis by (simp add: g_def [symmetric])
  qed (use Cons.IH [OF y(3,1) y62] in simp)
qed simp

lemma from_wire_separated:
  assumes "\<And>y. y \<in> set ws \<Longrightarrow> vval (wr_gap y) < 2 ^ 62" "smallest prev \<le> largest prev" "largest prev < 2 ^ 62"
  shows "is_sorted_from prev (from_wire prev ws) \<longleftrightarrow> separated prev (from_wire prev ws)"
  using assms
proof (induction ws arbitrary: prev)
  case (Cons y ws)
  define lg where "lg = smallest prev - vval (wr_gap y) - 2"
  define x where "x = \<lparr>largest = lg, smallest = lg - vval (wr_len y)\<rparr>"
  have gap: "unat (vval (wr_gap y)) < 2 ^ 62" and prev: "unat (smallest prev) \<le> unat (largest prev)" "unat (largest prev) < 2 ^ 62"
    using Cons.prems by (simp_all add: word_less_nat_alt word_le_nat_alt)
  have key: "lg < largest prev \<longleftrightarrow> unat lg + 2 \<le> unat (smallest prev)" if "lg < largest prev \<or> unat lg + 2 \<le> unat (smallest prev)"
  proof -
    have "smallest prev = lg + vval (wr_gap y) + 2" by (simp add: lg_def)
    then have "unat (smallest prev) = (unat lg + unat (vval (wr_gap y)) + 2) mod 2 ^ 64"
      by (simp add: unat_word_ariths mod_simps)
    moreover have "unat lg < 2 ^ 62" using that prev by (auto simp: word_less_nat_alt)
    ultimately have "unat (smallest prev) = unat lg + unat (vval (wr_gap y)) + 2" using gap by simp
    then show ?thesis using prev by (simp add: word_less_nat_alt)
  qed
  show ?case
  proof (cases "lg < largest prev \<and> smallest x \<le> largest x")
    case True
    then have sep: "unat lg + 2 \<le> unat (smallest prev)" using key by blast
    have "largest x < 2 ^ 62" using True Cons.prems(3) less_trans [of lg "largest prev"] by (simp add: x_def)
    then have "is_sorted_from x (from_wire x ws) \<longleftrightarrow> separated x (from_wire x ws)"
      using Cons.IH Cons.prems(1) True by simp
    moreover have "smallest x < smallest prev"
      using True sep by (simp add: word_le_nat_alt word_less_nat_alt x_def)
    ultimately show ?thesis
      using True sep Cons.prems(2) by (auto simp: Let_def lg_def [symmetric] x_def [symmetric] not_le not_less) (simp_all add: x_def)
  next
    case False
    then show ?thesis
      using key by (auto simp: Let_def lg_def [symmetric] x_def [symmetric] not_le not_less dest: separated_hd) (auto simp: x_def)
  qed
qed simp

lemma length_to_wire [simp]: "length (to_wire prev xs) = length xs"
  by (induction xs arbitrary: prev) auto

lemma from_wire_norm: "from_wire prev (map range_norm ws) = from_wire prev ws"
  by (induction ws arbitrary: prev) (simp_all add: range_norm_def Let_def)

lemma convert_from_norm: "convert_from_ACKFrame (ack_norm f) = convert_from_ACKFrame f"
  by (simp add: convert_from_ACKFrame_def ack_norm_def from_wire_norm)

lemma separated_convert:
  assumes "separated x xs" and "largest x < 2 ^ 62"
  obtains f where "convert_to_ACKFrame (x # xs) = (f, True)" "ack_ok f" "f_type f = FrameFlags_of (FT ACK)"
    "ak_ack_ranges f = to_wire x xs" "length xs < 2 ^ 62" "vval (ak_largest_ack f) = largest x"
    "convert_from_ACKFrame f = (x # xs, True)"
proof -
  have le: "smallest x \<le> largest x" using separated_hd [OF assms(1)] .
  then have sm: "smallest x < 2 ^ 62" using assms(2) by simp
  have n: "length xs < 2 ^ 62" using separated_length [OF assms(1)] sm by (simp add: word_less_nat_alt)
  have sorted: "is_sorted_ack_ranges (x # xs)" using le separated_sorted [OF assms(1)] by simp
  define f where "f = fst (convert_to_ACKFrame (x # xs))"
  have f: "convert_to_ACKFrame (x # xs) = (f, True)" using sorted by (simp add: f_def convert_to_ACKFrame_def)
  have fields: "ak_ack_ranges f = to_wire x xs" "vval (ak_ack_range_count f) = of_nat (length xs)"
    "vval (ak_largest_ack f) = largest x" "vval (ak_first_ack_range f) = largest x - smallest x"
    "f_type f = FrameFlags_of (FT ACK)"
    using sorted by (simp_all add: f_def convert_to_ACKFrame_def)
  have d: "largest x - smallest x < 2 ^ 62"
    using assms(2) unat_sub_u64 [OF le] by (simp add: word_less_nat_alt)
  have "ack_ok f"
    using sorted assms(2) n d separated_wire_ok [OF assms(1) sm]
    by (simp add: f_def convert_to_ACKFrame_def ack_ok_def ecn_ok_def ack_fresh_def varint_ok_Value
        word_less_nat_alt unat_of_nat_u64)
  moreover have "convert_from_ACKFrame f = (x # xs, True)"
    using sorted by (cases x) (simp add: convert_from_ACKFrame_def fields from_wire_to_wire)
  ultimately show thesis using that f fields n by blast
qed

lemma ranges_enc_length: "ranges_ok xs \<Longrightarrow> length (ranges_enc xs) \<le> 16 * length xs"
proof (induction xs)
  case (Cons x xs)
  then show ?case using venc_ge_1 [of "wr_gap x"] venc_ge_1 [of "wr_len x"] by simp
qed simp

lemma ack_len_bound:
  assumes "ack_ok f" "f_type f = FrameFlags_of (FT ACK)"
  shows "ack_len False f \<le> 33 + 16 * length (ak_ack_ranges f)"
proof -
  have v: "unat (varint_len v) \<le> 8" if "varint_ok v" for v using venc_ge_1 [OF that] length_venc [OF that] by simp
  have "unat (varint_len (ak_largest_ack f)) \<le> 8" "unat (varint_len (ak_ack_delay f)) \<le> 8"
    "unat (varint_len (ak_ack_range_count f)) \<le> 8" "unat (varint_len (ak_first_ack_range f)) \<le> 8"
    using assms(1) by (auto simp: ack_ok_def intro: v)
  moreover have "ack_ranges_len (ak_ack_ranges f) \<le> 16 * length (ak_ack_ranges f)"
    using assms(1) ranges_enc_length ranges_lengths(1) by (simp add: ack_ok_def)
  moreover have "type_minlen (FrameFlags_of (FT ACK)) = 1"
    by (simp add: type_minlen_def min_len_def in_range_def border_def FrameFlags_of_def FT.simps)
  moreover have "type_detail (FrameFlags_of (FT ACK)) \<noteq> FT ACK_ECN"
    by (simp add: type_detail_def FrameFlags_of_def FT.simps)
  ultimately show ?thesis using assms(2) by (simp add: ack_len_def ecn_counts_len_def)
qed

section \<open>Properties\<close>



text \<open>
  C23. The ranges of a received ACK frame are accepted exactly when they are
  ranges of packet numbers at all: descending, with gaps, and with no subtraction
  that wrapped around.
\<close>

theorem ack_from_wire_accepts:
  assumes "vval (ak_largest_ack f) < 2 ^ 62" and "vval (ak_first_ack_range f) < 2 ^ 62"
    and "\<forall>y \<in> set (ak_ack_ranges f). vval (wr_gap y) < 2 ^ 62"
  shows "\<exists>x xs. fst (convert_from_ACKFrame f) = x # xs \<and> (snd (convert_from_ACKFrame f) \<longleftrightarrow> separated x xs)
     \<and> (snd (convert_from_ACKFrame f) \<longrightarrow> vval (ak_first_ack_range f) \<le> vval (ak_largest_ack f))"
proof -
  let ?l = "vval (ak_largest_ack f)" and ?r = "vval (ak_first_ack_range f)"
  define x where "x = \<lparr>largest = ?l, smallest = ?l - ?r\<rparr>"
  have conv: "convert_from_ACKFrame f = (x # from_wire x (ak_ack_ranges f), is_sorted_ack_ranges (x # from_wire x (ak_ack_ranges f)))"
    by (simp add: convert_from_ACKFrame_def x_def Let_def)
  have gaps: "\<And>y. y \<in> set (ak_ack_ranges f) \<Longrightarrow> vval (wr_gap y) < 2 ^ 62" using assms(3) by blast
  have "\<not> largest x < smallest x \<longleftrightarrow> ?r \<le> ?l"
    using assms(1,2) by (auto simp: x_def not_less word_le_nat_alt word_less_nat_alt unat_sub_if')
  moreover have "is_sorted_from x (from_wire x (ak_ack_ranges f)) \<longleftrightarrow> separated x (from_wire x (ak_ack_ranges f))"
    if "smallest x \<le> largest x"
    using from_wire_separated [OF gaps that] assms(1) by (simp add: x_def)
  ultimately show ?thesis unfolding conv using separated_hd by (auto simp: not_less)
qed

theorem ack_from_wire_accepts_witness:
  "\<not> snd (convert_from_ACKFrame (ack_fresh\<lparr>ak_largest_ack := Value 3, ak_first_ack_range := Value 5\<rparr>))"
  using ack_from_wire_accepts [of "ack_fresh\<lparr>ak_largest_ack := Value 3, ak_first_ack_range := Value 5\<rparr>"]
  by (auto simp: ack_fresh_def)

text \<open>
  The check on ranges to be sent does not look at gaps: ranges that are
  sorted but touch are converted to a frame without complaint, and that frame
  cannot be rendered, whatever the room, because its gap wrapped around.
\<close>

lemma ack_adjacent_unrenderable:
  assumes "is_sorted_ack_ranges (x # y # ys)" and "largest x < 2 ^ 62" and "unat (smallest x) < unat (largest y) + 2"
    and "length ys < 2 ^ 62" and "writer_wf w"
  shows "\<exists>f. convert_to_ACKFrame (x # y # ys) = (f, True) \<and> \<not> fst (ack_render f w)"
proof -
  define f where "f = fst (convert_to_ACKFrame (x # y # ys))"
  have f: "convert_to_ACKFrame (x # y # ys) = (f, True)" and rs: "ak_ack_ranges f = to_wire x (y # ys)"
    using assms(1) by (simp_all add: f_def convert_to_ACKFrame_def)
  have "\<not> ranges_ok (to_wire x (y # ys))" using assms(1-3) by (intro touching_wire) (auto simp: not_less)
  then have "\<not> ack_ok f" by (simp add: ack_ok_def rs del: to_wire.simps)
  moreover have "length (ak_ack_ranges f) < 2 ^ 64" using assms(4) rs by simp
  ultimately have "\<not> fst (ack_render f w)" using ack_codec.render_succeeds_iff [of f w] assms(5) by blast
  then show ?thesis using f by blast
qed

lemma ack_adjacent_unrenderable_example:
  "\<exists>f. convert_to_ACKFrame [\<lparr>largest = 5, smallest = 5\<rparr>, \<lparr>largest = 4, smallest = 4\<rparr>] = (f, True)
     \<and> \<not> fst (ack_render f (make_writer (replicate 99 0)))"
  using ack_adjacent_unrenderable [of "\<lparr>largest = 5, smallest = 5\<rparr>" "\<lparr>largest = 4, smallest = 4\<rparr>" "[]"
      "make_writer (replicate 99 0)"]
  by (simp add: writer_wf_def make_writer_def)

end
