(* ===== verification/FrameParse.thy ===== *)
theory FrameParse
  imports Frames FlagFrames AckFrame
begin

text \<open>
  Parsing of whole frames (\<^verbatim>\<open>fnet/quic/frame/cast.h\<close> and \<^verbatim>\<open>parse.h\<close>): a frame of any
  type, the choice of the frame type from the type field, \<^verbatim>\<open>parse_frame\<close> and the
  loop \<^verbatim>\<open>parse_frames\<close>. The callback of the source is a parameter: a function on the
  state it captures that returns whether to go on.
\<close>

section \<open>Frames of any type\<close>

datatype any_frame =
    PaddingF "Frame"
  | PingF "Frame"
  | AckF "ACKFrame"
  | ResetStreamF "ResetStreamFrame"
  | StopSendingF "StopSendingFrame"
  | CryptoF "CryptoFrame"
  | NewTokenF "NewTokenFrame"
  | StreamF "StreamFrame"
  | MaxDataF "MaxDataFrame"
  | MaxStreamDataF "MaxStreamDataFrame"
  | MaxStreamsF "MaxStreamsFrame"
  | DataBlockedF "MaxDataFrame"
  | StreamDataBlockedF "MaxStreamDataFrame"
  | StreamsBlockedF "MaxStreamsFrame"
  | NewConnectionIDF "NewConnectionIDFrame"
  | RetireConnectionIDF "RetireConnectionIDFrame"
  | PathChallengeF "PathFrame"
  | PathResponseF "PathFrame"
  | ConnectionCloseF "ConnectionCloseFrame"
  | HandshakeDoneF "Frame"
  | DatagramF "DatagramFrame"
  | is_UnknownF: UnknownF "Frame"

text \<open>\<^verbatim>\<open>select_Frame\<close>: a fresh frame of the type the field says.\<close>

definition select_Frame :: "FrameType \<Rightarrow> any_frame" where
  "select_Frame typ =
     (if typ = FT PADDING then PaddingF frame_fresh
      else if typ = FT PING then PingF frame_fresh
      else if typ = FT ACK then AckF ack_fresh
      else if typ = FT RESET_STREAM then ResetStreamF reset_stream_fresh
      else if typ = FT STOP_SENDING then StopSendingF stop_sending_fresh
      else if typ = FT CRYPTO then CryptoF crypto_fresh
      else if typ = FT NEW_TOKEN then NewTokenF new_token_fresh
      else if typ = FT STREAM then StreamF stream_fresh
      else if typ = FT MAX_DATA then MaxDataF max_data_fresh
      else if typ = FT MAX_STREAM_DATA then MaxStreamDataF max_stream_data_fresh
      else if typ = FT MAX_STREAMS then MaxStreamsF max_streams_fresh
      else if typ = FT DATA_BLOCKED then DataBlockedF max_data_fresh
      else if typ = FT STREAM_DATA_BLOCKED then StreamDataBlockedF max_stream_data_fresh
      else if typ = FT STREAMS_BLOCKED then StreamsBlockedF max_streams_fresh
      else if typ = FT NEW_CONNECTION_ID then NewConnectionIDF new_connid_fresh
      else if typ = FT RETIRE_CONNECTION_ID then RetireConnectionIDF retire_connid_fresh
      else if typ = FT PATH_CHALLENGE then PathChallengeF path_fresh
      else if typ = FT PATH_RESPONSE then PathResponseF path_fresh
      else if typ = FT CONNECTION_CLOSE then ConnectionCloseF conn_close_fresh
      else if typ = FT HANDSHAKE_DONE then HandshakeDoneF frame_fresh
      else if typ = FT DATAGRAM then DatagramF datagram_fresh
      else UnknownF frame_fresh)"

definition lift_parse :: "('f \<Rightarrow> any_frame) \<Rightarrow> 'f parser \<Rightarrow> 'f \<Rightarrow> reader \<Rightarrow> bool \<times> any_frame \<times> reader" where
  "lift_parse C p f r = (case p (f, r) of (ok, (f', r')) \<Rightarrow> (ok, C f', r'))"

fun any_parse :: "any_frame \<Rightarrow> reader \<Rightarrow> bool \<times> any_frame \<times> reader" where
  "any_parse (PaddingF f) = lift_parse PaddingF (typeonly_parse (FT PADDING)) f"
| "any_parse (PingF f) = lift_parse PingF (typeonly_parse (FT PING)) f"
| "any_parse (AckF f) = lift_parse AckF ack_parse f"
| "any_parse (ResetStreamF f) = lift_parse ResetStreamF reset_stream_parse f"
| "any_parse (StopSendingF f) = lift_parse StopSendingF stop_sending_parse f"
| "any_parse (CryptoF f) = lift_parse CryptoF crypto_parse f"
| "any_parse (NewTokenF f) = lift_parse NewTokenF new_token_parse f"
| "any_parse (StreamF f) = lift_parse StreamF stream_parse f"
| "any_parse (MaxDataF f) = lift_parse MaxDataF (max_data_parse (FT MAX_DATA)) f"
| "any_parse (MaxStreamDataF f) = lift_parse MaxStreamDataF (max_stream_data_parse (FT MAX_STREAM_DATA)) f"
| "any_parse (MaxStreamsF f) = lift_parse MaxStreamsF (max_streams_parse (FT MAX_STREAMS)) f"
| "any_parse (DataBlockedF f) = lift_parse DataBlockedF (max_data_parse (FT DATA_BLOCKED)) f"
| "any_parse (StreamDataBlockedF f) = lift_parse StreamDataBlockedF (max_stream_data_parse (FT STREAM_DATA_BLOCKED)) f"
| "any_parse (StreamsBlockedF f) = lift_parse StreamsBlockedF (max_streams_parse (FT STREAMS_BLOCKED)) f"
| "any_parse (NewConnectionIDF f) = lift_parse NewConnectionIDF new_connid_parse f"
| "any_parse (RetireConnectionIDF f) = lift_parse RetireConnectionIDF retire_connid_parse f"
| "any_parse (PathChallengeF f) = lift_parse PathChallengeF (path_parse (FT PATH_CHALLENGE)) f"
| "any_parse (PathResponseF f) = lift_parse PathResponseF (path_parse (FT PATH_RESPONSE)) f"
| "any_parse (ConnectionCloseF f) = lift_parse ConnectionCloseF conn_close_parse f"
| "any_parse (HandshakeDoneF f) = lift_parse HandshakeDoneF (typeonly_parse (FT HANDSHAKE_DONE)) f"
| "any_parse (DatagramF f) = lift_parse DatagramF datagram_parse f"
| "any_parse (UnknownF f) = lift_parse UnknownF frame_parse f"

fun any_render :: "any_frame \<Rightarrow> writer action" where
  "any_render (PaddingF f) = typeonly_render (FT PADDING) f"
| "any_render (PingF f) = typeonly_render (FT PING) f"
| "any_render (AckF f) = ack_render f"
| "any_render (ResetStreamF f) = reset_stream_render f"
| "any_render (StopSendingF f) = stop_sending_render f"
| "any_render (CryptoF f) = crypto_render f"
| "any_render (NewTokenF f) = new_token_render f"
| "any_render (StreamF f) = stream_render f"
| "any_render (MaxDataF f) = max_data_render (FT MAX_DATA) f"
| "any_render (MaxStreamDataF f) = max_stream_data_render (FT MAX_STREAM_DATA) f"
| "any_render (MaxStreamsF f) = max_streams_render (FT MAX_STREAMS) f"
| "any_render (DataBlockedF f) = max_data_render (FT DATA_BLOCKED) f"
| "any_render (StreamDataBlockedF f) = max_stream_data_render (FT STREAM_DATA_BLOCKED) f"
| "any_render (StreamsBlockedF f) = max_streams_render (FT STREAMS_BLOCKED) f"
| "any_render (NewConnectionIDF f) = new_connid_render f"
| "any_render (RetireConnectionIDF f) = retire_connid_render f"
| "any_render (PathChallengeF f) = path_render (FT PATH_CHALLENGE) f"
| "any_render (PathResponseF f) = path_render (FT PATH_RESPONSE) f"
| "any_render (ConnectionCloseF f) = conn_close_render f"
| "any_render (HandshakeDoneF f) = typeonly_render (FT HANDSHAKE_DONE) f"
| "any_render (DatagramF f) = datagram_render f"
| "any_render (UnknownF f) = frame_render f"

fun any_len :: "any_frame \<Rightarrow> nat" where
  "any_len (PaddingF f) = typeonly_len (FT PADDING) False f"
| "any_len (PingF f) = typeonly_len (FT PING) False f"
| "any_len (AckF f) = ack_len False f"
| "any_len (ResetStreamF f) = reset_stream_len False f"
| "any_len (StopSendingF f) = stop_sending_len False f"
| "any_len (CryptoF f) = crypto_len False f"
| "any_len (NewTokenF f) = new_token_len False f"
| "any_len (StreamF f) = stream_len False f"
| "any_len (MaxDataF f) = max_data_len (FT MAX_DATA) False f"
| "any_len (MaxStreamDataF f) = max_stream_data_len (FT MAX_STREAM_DATA) False f"
| "any_len (MaxStreamsF f) = max_streams_len (FT MAX_STREAMS) False f"
| "any_len (DataBlockedF f) = max_data_len (FT DATA_BLOCKED) False f"
| "any_len (StreamDataBlockedF f) = max_stream_data_len (FT STREAM_DATA_BLOCKED) False f"
| "any_len (StreamsBlockedF f) = max_streams_len (FT STREAMS_BLOCKED) False f"
| "any_len (NewConnectionIDF f) = new_connid_len False f"
| "any_len (RetireConnectionIDF f) = retire_connid_len False f"
| "any_len (PathChallengeF f) = path_len (FT PATH_CHALLENGE) False f"
| "any_len (PathResponseF f) = path_len (FT PATH_RESPONSE) False f"
| "any_len (ConnectionCloseF f) = conn_close_len False f"
| "any_len (HandshakeDoneF f) = typeonly_len (FT HANDSHAKE_DONE) False f"
| "any_len (DatagramF f) = datagram_len False f"
| "any_len (UnknownF f) = frame_len f"

fun any_get_type :: "any_frame \<Rightarrow> FrameType" where
  "any_get_type (PaddingF f) = typeonly_get_type (FT PADDING) False f"
| "any_get_type (PingF f) = typeonly_get_type (FT PING) False f"
| "any_get_type (AckF f) = ack_get_type False f"
| "any_get_type (ResetStreamF f) = reset_stream_get_type False f"
| "any_get_type (StopSendingF f) = stop_sending_get_type False f"
| "any_get_type (CryptoF f) = crypto_get_type False f"
| "any_get_type (NewTokenF f) = new_token_get_type False f"
| "any_get_type (StreamF f) = stream_get_type False f"
| "any_get_type (MaxDataF f) = max_data_get_type (FT MAX_DATA) False f"
| "any_get_type (MaxStreamDataF f) = max_stream_data_get_type (FT MAX_STREAM_DATA) False f"
| "any_get_type (MaxStreamsF f) = max_streams_get_type (FT MAX_STREAMS) False f"
| "any_get_type (DataBlockedF f) = max_data_get_type (FT DATA_BLOCKED) False f"
| "any_get_type (StreamDataBlockedF f) = max_stream_data_get_type (FT STREAM_DATA_BLOCKED) False f"
| "any_get_type (StreamsBlockedF f) = max_streams_get_type (FT STREAMS_BLOCKED) False f"
| "any_get_type (NewConnectionIDF f) = new_connid_get_type False f"
| "any_get_type (RetireConnectionIDF f) = retire_connid_get_type False f"
| "any_get_type (PathChallengeF f) = path_get_type (FT PATH_CHALLENGE) False f"
| "any_get_type (PathResponseF f) = path_get_type (FT PATH_RESPONSE) False f"
| "any_get_type (ConnectionCloseF f) = conn_close_get_type False f"
| "any_get_type (HandshakeDoneF f) = typeonly_get_type (FT HANDSHAKE_DONE) False f"
| "any_get_type (DatagramF f) = datagram_get_type False f"
| "any_get_type (UnknownF f) = type_detail (f_type f)"

text \<open>The bytes of a frame, when it can be rendered, and what it is read back as.\<close>

fun any_enc :: "any_frame \<Rightarrow> byte list" where
  "any_enc (PaddingF f) = typeonly_enc (FT PADDING) f"
| "any_enc (PingF f) = typeonly_enc (FT PING) f"
| "any_enc (AckF f) = ack_enc f"
| "any_enc (ResetStreamF f) = reset_stream_enc f"
| "any_enc (StopSendingF f) = stop_sending_enc f"
| "any_enc (CryptoF f) = crypto_enc f"
| "any_enc (NewTokenF f) = new_token_enc f"
| "any_enc (StreamF f) = stream_enc f"
| "any_enc (MaxDataF f) = max_data_enc (FT MAX_DATA) f"
| "any_enc (MaxStreamDataF f) = max_stream_data_enc (FT MAX_STREAM_DATA) f"
| "any_enc (MaxStreamsF f) = max_streams_enc (FT MAX_STREAMS) f"
| "any_enc (DataBlockedF f) = max_data_enc (FT DATA_BLOCKED) f"
| "any_enc (StreamDataBlockedF f) = max_stream_data_enc (FT STREAM_DATA_BLOCKED) f"
| "any_enc (StreamsBlockedF f) = max_streams_enc (FT STREAMS_BLOCKED) f"
| "any_enc (NewConnectionIDF f) = new_connid_enc f"
| "any_enc (RetireConnectionIDF f) = retire_connid_enc f"
| "any_enc (PathChallengeF f) = path_enc (FT PATH_CHALLENGE) f"
| "any_enc (PathResponseF f) = path_enc (FT PATH_RESPONSE) f"
| "any_enc (ConnectionCloseF f) = conn_close_enc f"
| "any_enc (HandshakeDoneF f) = typeonly_enc (FT HANDSHAKE_DONE) f"
| "any_enc (DatagramF f) = datagram_enc f"
| "any_enc (UnknownF f) = []"

fun any_ok :: "any_frame \<Rightarrow> bool" where
  "any_ok (PaddingF f) \<longleftrightarrow> True"
| "any_ok (PingF f) \<longleftrightarrow> True"
| "any_ok (AckF f) \<longleftrightarrow> ack_ok f"
| "any_ok (ResetStreamF f) \<longleftrightarrow> reset_stream_ok f"
| "any_ok (StopSendingF f) \<longleftrightarrow> stop_sending_ok f"
| "any_ok (CryptoF f) \<longleftrightarrow> crypto_ok f"
| "any_ok (NewTokenF f) \<longleftrightarrow> new_token_ok f"
| "any_ok (StreamF f) \<longleftrightarrow> stream_ok f"
| "any_ok (MaxDataF f) \<longleftrightarrow> max_data_ok (FT MAX_DATA) f"
| "any_ok (MaxStreamDataF f) \<longleftrightarrow> max_stream_data_ok (FT MAX_STREAM_DATA) f"
| "any_ok (MaxStreamsF f) \<longleftrightarrow> max_streams_ok (FT MAX_STREAMS) f"
| "any_ok (DataBlockedF f) \<longleftrightarrow> max_data_ok (FT DATA_BLOCKED) f"
| "any_ok (StreamDataBlockedF f) \<longleftrightarrow> max_stream_data_ok (FT STREAM_DATA_BLOCKED) f"
| "any_ok (StreamsBlockedF f) \<longleftrightarrow> max_streams_ok (FT STREAMS_BLOCKED) f"
| "any_ok (NewConnectionIDF f) \<longleftrightarrow> new_connid_ok f"
| "any_ok (RetireConnectionIDF f) \<longleftrightarrow> retire_connid_ok f"
| "any_ok (PathChallengeF f) \<longleftrightarrow> path_ok (FT PATH_CHALLENGE) f"
| "any_ok (PathResponseF f) \<longleftrightarrow> path_ok (FT PATH_RESPONSE) f"
| "any_ok (ConnectionCloseF f) \<longleftrightarrow> conn_close_ok f"
| "any_ok (HandshakeDoneF f) \<longleftrightarrow> True"
| "any_ok (DatagramF f) \<longleftrightarrow> datagram_ok f"
| "any_ok (UnknownF f) \<longleftrightarrow> False"

fun any_norm :: "any_frame \<Rightarrow> any_frame" where
  "any_norm (PaddingF f) = PaddingF (typeonly_norm (FT PADDING) f)"
| "any_norm (PingF f) = PingF (typeonly_norm (FT PING) f)"
| "any_norm (AckF f) = AckF (ack_norm f)"
| "any_norm (ResetStreamF f) = ResetStreamF (reset_stream_norm f)"
| "any_norm (StopSendingF f) = StopSendingF (stop_sending_norm f)"
| "any_norm (CryptoF f) = CryptoF (crypto_norm f)"
| "any_norm (NewTokenF f) = NewTokenF (new_token_norm f)"
| "any_norm (StreamF f) = StreamF (stream_norm f)"
| "any_norm (MaxDataF f) = MaxDataF (max_data_norm (FT MAX_DATA) f)"
| "any_norm (MaxStreamDataF f) = MaxStreamDataF (max_stream_data_norm (FT MAX_STREAM_DATA) f)"
| "any_norm (MaxStreamsF f) = MaxStreamsF (max_streams_norm (FT MAX_STREAMS) f)"
| "any_norm (DataBlockedF f) = DataBlockedF (max_data_norm (FT DATA_BLOCKED) f)"
| "any_norm (StreamDataBlockedF f) = StreamDataBlockedF (max_stream_data_norm (FT STREAM_DATA_BLOCKED) f)"
| "any_norm (StreamsBlockedF f) = StreamsBlockedF (max_streams_norm (FT STREAMS_BLOCKED) f)"
| "any_norm (NewConnectionIDF f) = NewConnectionIDF (new_connid_norm f)"
| "any_norm (RetireConnectionIDF f) = RetireConnectionIDF (retire_connid_norm f)"
| "any_norm (PathChallengeF f) = PathChallengeF (path_norm (FT PATH_CHALLENGE) f)"
| "any_norm (PathResponseF f) = PathResponseF (path_norm (FT PATH_RESPONSE) f)"
| "any_norm (ConnectionCloseF f) = ConnectionCloseF (conn_close_norm f)"
| "any_norm (HandshakeDoneF f) = HandshakeDoneF (typeonly_norm (FT HANDSHAKE_DONE) f)"
| "any_norm (DatagramF f) = DatagramF (datagram_norm f)"
| "any_norm (UnknownF f) = UnknownF f"

fun any_wf :: "any_frame \<Rightarrow> bool" where
  "any_wf (PaddingF f) \<longleftrightarrow> True"
| "any_wf (PingF f) \<longleftrightarrow> True"
| "any_wf (AckF f) \<longleftrightarrow> length (ak_ack_ranges f) < 2 ^ 64"
| "any_wf (ResetStreamF f) \<longleftrightarrow> True"
| "any_wf (StopSendingF f) \<longleftrightarrow> True"
| "any_wf (CryptoF f) \<longleftrightarrow> size_t_ok (cr_data f)"
| "any_wf (NewTokenF f) \<longleftrightarrow> size_t_ok (nt_token f)"
| "any_wf (StreamF f) \<longleftrightarrow> size_t_ok (sf_stream_data f)"
| "any_wf (MaxDataF f) \<longleftrightarrow> True"
| "any_wf (MaxStreamDataF f) \<longleftrightarrow> True"
| "any_wf (MaxStreamsF f) \<longleftrightarrow> f_type f < 2 ^ 32"
| "any_wf (DataBlockedF f) \<longleftrightarrow> True"
| "any_wf (StreamDataBlockedF f) \<longleftrightarrow> True"
| "any_wf (StreamsBlockedF f) \<longleftrightarrow> f_type f < 2 ^ 32"
| "any_wf (NewConnectionIDF f) \<longleftrightarrow> length (nc_stateless_reset_token f) = 16"
| "any_wf (RetireConnectionIDF f) \<longleftrightarrow> True"
| "any_wf (PathChallengeF f) \<longleftrightarrow> True"
| "any_wf (PathResponseF f) \<longleftrightarrow> True"
| "any_wf (ConnectionCloseF f) \<longleftrightarrow> size_t_ok (cc_reason_phrase f)"
| "any_wf (HandshakeDoneF f) \<longleftrightarrow> True"
| "any_wf (DatagramF f) \<longleftrightarrow> size_t_ok (dg_data f)"
| "any_wf (UnknownF f) \<longleftrightarrow> False"

fun any_tail :: "any_frame \<Rightarrow> bool" where
  "any_tail (PaddingF f) \<longleftrightarrow> False"
| "any_tail (PingF f) \<longleftrightarrow> False"
| "any_tail (AckF f) \<longleftrightarrow> False"
| "any_tail (ResetStreamF f) \<longleftrightarrow> False"
| "any_tail (StopSendingF f) \<longleftrightarrow> False"
| "any_tail (CryptoF f) \<longleftrightarrow> False"
| "any_tail (NewTokenF f) \<longleftrightarrow> False"
| "any_tail (StreamF f) \<longleftrightarrow> stream_tail f"
| "any_tail (MaxDataF f) \<longleftrightarrow> False"
| "any_tail (MaxStreamDataF f) \<longleftrightarrow> False"
| "any_tail (MaxStreamsF f) \<longleftrightarrow> False"
| "any_tail (DataBlockedF f) \<longleftrightarrow> False"
| "any_tail (StreamDataBlockedF f) \<longleftrightarrow> False"
| "any_tail (StreamsBlockedF f) \<longleftrightarrow> False"
| "any_tail (NewConnectionIDF f) \<longleftrightarrow> False"
| "any_tail (RetireConnectionIDF f) \<longleftrightarrow> False"
| "any_tail (PathChallengeF f) \<longleftrightarrow> False"
| "any_tail (PathResponseF f) \<longleftrightarrow> False"
| "any_tail (ConnectionCloseF f) \<longleftrightarrow> False"
| "any_tail (HandshakeDoneF f) \<longleftrightarrow> False"
| "any_tail (DatagramF f) \<longleftrightarrow> datagram_tail f"
| "any_tail (UnknownF f) \<longleftrightarrow> False"

text \<open>The value of the type field of the rendered frame.\<close>

fun any_field :: "any_frame \<Rightarrow> FrameFlags" where
  "any_field (PaddingF f) = FrameFlags_of (FT PADDING)"
| "any_field (PingF f) = FrameFlags_of (FT PING)"
| "any_field (AckF f) = FrameFlags_of (ack_get_type False f)"
| "any_field (ResetStreamF f) = FrameFlags_of (FT RESET_STREAM)"
| "any_field (StopSendingF f) = FrameFlags_of (FT STOP_SENDING)"
| "any_field (CryptoF f) = FrameFlags_of (FT CRYPTO)"
| "any_field (NewTokenF f) = FrameFlags_of (FT NEW_TOKEN)"
| "any_field (StreamF f) = stream_tyval f"
| "any_field (MaxDataF f) = FrameFlags_of (FT MAX_DATA)"
| "any_field (MaxStreamDataF f) = FrameFlags_of (FT MAX_STREAM_DATA)"
| "any_field (MaxStreamsF f) = f_type f"
| "any_field (DataBlockedF f) = FrameFlags_of (FT DATA_BLOCKED)"
| "any_field (StreamDataBlockedF f) = FrameFlags_of (FT STREAM_DATA_BLOCKED)"
| "any_field (StreamsBlockedF f) = f_type f"
| "any_field (NewConnectionIDF f) = FrameFlags_of (FT NEW_CONNECTION_ID)"
| "any_field (RetireConnectionIDF f) = FrameFlags_of (FT RETIRE_CONNECTION_ID)"
| "any_field (PathChallengeF f) = FrameFlags_of (FT PATH_CHALLENGE)"
| "any_field (PathResponseF f) = FrameFlags_of (FT PATH_RESPONSE)"
| "any_field (ConnectionCloseF f) = FrameFlags_of (conn_close_get_type False f)"
| "any_field (HandshakeDoneF f) = FrameFlags_of (FT HANDSHAKE_DONE)"
| "any_field (DatagramF f) = FrameFlags_of (datagram_get_type False f)"
| "any_field (UnknownF f) = f_type f"

section \<open>One frame and a sequence of frames\<close>

type_synonym 'c callback = "any_frame \<Rightarrow> bool \<Rightarrow> 'c \<Rightarrow> bool \<times> 'c"

definition parse_frame :: "'c callback \<Rightarrow> (reader \<times> 'c) action" where
  "parse_frame cb s =
     (case s of (r, c) \<Rightarrow>
        case frame_parse (frame_fresh, r) of (peek_ok, (f, peek)) \<Rightarrow>
          if \<not> peek_ok then (False, (r, c))
          else let frame = select_Frame (ff_type (f_type f)) in
            if is_UnknownF frame then (False, (r, snd (cb (UnknownF f) True c)))
            else case any_parse frame r of (res, frame', r') \<Rightarrow>
              if \<not> res then (False, (r', snd (cb frame' True c)))
              else case cb frame' False c of (go, c') \<Rightarrow> (go, (r', c')))"

subsection \<open>The contract for every type\<close>

lemma lift_parse_decodes:
  "decodes tail f p bs f' \<Longrightarrow> (tail \<longrightarrow> rest = []) \<Longrightarrow> lift_parse C p f (rd pre (bs @ rest)) = (True, C f', rd (pre @ bs) rest)"
  by (simp add: decodes_def lift_parse_def)

lemma lift_parse_safe: "safe p \<Longrightarrow> reader_wf r \<Longrightarrow> advances r (snd (snd (lift_parse C p f r)))"
  by (auto simp: safe_def lift_parse_def split: prod.splits) (metis snd_conv)

lemma lift_parse_progress:
  "progress p \<Longrightarrow> reader_wf r \<Longrightarrow> fst (lift_parse C p f r) \<Longrightarrow> r_index r < r_index (snd (snd (lift_parse C p f r)))"
  by (auto simp: progress_def lift_parse_def split: prod.splits) (metis fst_conv snd_conv)

lemmas codec_safe = padding_codec.parse_safe ping_codec.parse_safe handshake_done_codec.parse_safe
  ack_codec.parse_safe reset_stream_codec.parse_safe stop_sending_codec.parse_safe crypto_codec.parse_safe
  new_token_codec.parse_safe stream_codec.parse_safe max_data_codec.parse_safe data_blocked_codec.parse_safe
  max_stream_data_codec.parse_safe stream_data_blocked_codec.parse_safe max_streams_codec.parse_safe
  streams_blocked_codec.parse_safe new_connid_codec.parse_safe retire_connid_codec.parse_safe
  path_challenge_codec.parse_safe path_response_codec.parse_safe conn_close_codec.parse_safe
  datagram_codec.parse_safe safe_frame

lemmas codec_progress = padding_codec.parse_progress ping_codec.parse_progress handshake_done_codec.parse_progress
  ack_codec.parse_progress reset_stream_codec.parse_progress stop_sending_codec.parse_progress
  crypto_codec.parse_progress new_token_codec.parse_progress stream_codec.parse_progress
  max_data_codec.parse_progress data_blocked_codec.parse_progress max_stream_data_codec.parse_progress
  stream_data_blocked_codec.parse_progress max_streams_codec.parse_progress streams_blocked_codec.parse_progress
  new_connid_codec.parse_progress retire_connid_codec.parse_progress path_challenge_codec.parse_progress
  path_response_codec.parse_progress conn_close_codec.parse_progress datagram_codec.parse_progress progress_frame

lemma any_parse_safe: "reader_wf r \<Longrightarrow> advances r (snd (snd (any_parse fr r)))"
  by (cases fr) (simp_all add: lift_parse_safe codec_safe)

lemma any_parse_progress:
  "reader_wf r \<Longrightarrow> fst (any_parse fr r) \<Longrightarrow> r_index r < r_index (snd (snd (any_parse fr r)))"
  by (cases fr) (simp_all add: lift_parse_progress codec_progress)

lemmas codec_encodes = padding_codec.render_encodes ping_codec.render_encodes handshake_done_codec.render_encodes
  ack_encodes reset_stream_encodes stop_sending_encodes crypto_encodes new_token_encodes stream_encodes
  max_data_encodes max_stream_data_encodes max_streams_encodes new_connid_encodes retire_connid_encodes
  path_encodes conn_close_encodes datagram_encodes

lemma any_encodes: "any_wf fr \<Longrightarrow> encodes (any_render fr) (any_ok fr) (any_enc fr)"
  by (cases fr) (simp_all add: codec_encodes)

lemmas codec_len = padding_codec.len_enc ping_codec.len_enc handshake_done_codec.len_enc ack_codec.len_enc
  reset_stream_codec.len_enc stop_sending_codec.len_enc crypto_codec.len_enc new_token_codec.len_enc
  stream_codec.len_enc max_data_codec.len_enc data_blocked_codec.len_enc max_stream_data_codec.len_enc
  stream_data_blocked_codec.len_enc max_streams_codec.len_enc streams_blocked_codec.len_enc
  new_connid_codec.len_enc retire_connid_codec.len_enc path_challenge_codec.len_enc
  path_response_codec.len_enc conn_close_codec.len_enc datagram_codec.len_enc

lemma any_len_enc: "any_wf fr \<Longrightarrow> any_ok fr \<Longrightarrow> any_len fr = length (any_enc fr)"
  by (cases fr) (simp_all add: codec_len)

text \<open>The type field selects the frame type it was rendered for.\<close>

lemmas enc_heads = typeonly_enc_def ack_enc_def reset_stream_enc_def stop_sending_enc_def crypto_enc_def
  new_token_enc_def stream_enc_def max_data_enc_def max_stream_data_enc_def max_streams_enc_def
  new_connid_enc_def retire_connid_enc_def path_enc_def conn_close_enc_def datagram_enc_def

lemma any_enc_field:
  "any_ok fr \<Longrightarrow> \<exists>body. any_enc fr = venc (Value (any_field fr)) @ body"
  by (cases fr) (auto simp: enc_heads)

lemma any_field_ok: "any_ok fr \<Longrightarrow> varint_ok (Value (any_field fr))"
  by (cases fr) (auto simp: max_streams_ok_def ack_get_type_def conn_close_get_type_def datagram_get_type_def)

lemma field_types:
  "ff_type (FrameFlags_of (ack_get_type False f)) = FT ACK"
  "ff_type (FrameFlags_of (conn_close_get_type False g)) = FT CONNECTION_CLOSE"
  "ff_type (FrameFlags_of (datagram_get_type False h)) = FT DATAGRAM"
  by (simp_all add: ack_get_type_def conn_close_get_type_def datagram_get_type_def)

context frame_codec
begin

lemma lift_parse_enc:
  "wf f \<Longrightarrow> ok f \<Longrightarrow> (tail f \<longrightarrow> rest = []) \<Longrightarrow>
   lift_parse C parse fresh (rd pre (enc f @ rest)) = (True, C (norm f), rd (pre @ enc f) rest)"
  by (rule lift_parse_decodes [OF parse_decodes])

end

lemmas codec_lift = padding_codec.lift_parse_enc ping_codec.lift_parse_enc
  handshake_done_codec.lift_parse_enc ack_codec.lift_parse_enc reset_stream_codec.lift_parse_enc
  stop_sending_codec.lift_parse_enc crypto_codec.lift_parse_enc new_token_codec.lift_parse_enc
  stream_codec.lift_parse_enc max_data_codec.lift_parse_enc data_blocked_codec.lift_parse_enc
  max_stream_data_codec.lift_parse_enc stream_data_blocked_codec.lift_parse_enc
  max_streams_codec.lift_parse_enc streams_blocked_codec.lift_parse_enc
  new_connid_codec.lift_parse_enc retire_connid_codec.lift_parse_enc
  path_challenge_codec.lift_parse_enc path_response_codec.lift_parse_enc
  conn_close_codec.lift_parse_enc datagram_codec.lift_parse_enc

lemma select_FT:
  "select_Frame (FT PADDING) = PaddingF frame_fresh"
  "select_Frame (FT PING) = PingF frame_fresh"
  "select_Frame (FT ACK) = AckF ack_fresh"
  "select_Frame (FT RESET_STREAM) = ResetStreamF reset_stream_fresh"
  "select_Frame (FT STOP_SENDING) = StopSendingF stop_sending_fresh"
  "select_Frame (FT CRYPTO) = CryptoF crypto_fresh"
  "select_Frame (FT NEW_TOKEN) = NewTokenF new_token_fresh"
  "select_Frame (FT STREAM) = StreamF stream_fresh"
  "select_Frame (FT MAX_DATA) = MaxDataF max_data_fresh"
  "select_Frame (FT MAX_STREAM_DATA) = MaxStreamDataF max_stream_data_fresh"
  "select_Frame (FT MAX_STREAMS) = MaxStreamsF max_streams_fresh"
  "select_Frame (FT DATA_BLOCKED) = DataBlockedF max_data_fresh"
  "select_Frame (FT STREAM_DATA_BLOCKED) = StreamDataBlockedF max_stream_data_fresh"
  "select_Frame (FT STREAMS_BLOCKED) = StreamsBlockedF max_streams_fresh"
  "select_Frame (FT NEW_CONNECTION_ID) = NewConnectionIDF new_connid_fresh"
  "select_Frame (FT RETIRE_CONNECTION_ID) = RetireConnectionIDF retire_connid_fresh"
  "select_Frame (FT PATH_CHALLENGE) = PathChallengeF path_fresh"
  "select_Frame (FT PATH_RESPONSE) = PathResponseF path_fresh"
  "select_Frame (FT CONNECTION_CLOSE) = ConnectionCloseF conn_close_fresh"
  "select_Frame (FT HANDSHAKE_DONE) = HandshakeDoneF frame_fresh"
  "select_Frame (FT DATAGRAM) = DatagramF datagram_fresh"
  by (simp_all add: select_Frame_def)

fun any_fresh :: "any_frame \<Rightarrow> any_frame" where
  "any_fresh (PaddingF f) = PaddingF frame_fresh"
| "any_fresh (PingF f) = PingF frame_fresh"
| "any_fresh (AckF f) = AckF ack_fresh"
| "any_fresh (ResetStreamF f) = ResetStreamF reset_stream_fresh"
| "any_fresh (StopSendingF f) = StopSendingF stop_sending_fresh"
| "any_fresh (CryptoF f) = CryptoF crypto_fresh"
| "any_fresh (NewTokenF f) = NewTokenF new_token_fresh"
| "any_fresh (StreamF f) = StreamF stream_fresh"
| "any_fresh (MaxDataF f) = MaxDataF max_data_fresh"
| "any_fresh (MaxStreamDataF f) = MaxStreamDataF max_stream_data_fresh"
| "any_fresh (MaxStreamsF f) = MaxStreamsF max_streams_fresh"
| "any_fresh (DataBlockedF f) = DataBlockedF max_data_fresh"
| "any_fresh (StreamDataBlockedF f) = StreamDataBlockedF max_stream_data_fresh"
| "any_fresh (StreamsBlockedF f) = StreamsBlockedF max_streams_fresh"
| "any_fresh (NewConnectionIDF f) = NewConnectionIDF new_connid_fresh"
| "any_fresh (RetireConnectionIDF f) = RetireConnectionIDF retire_connid_fresh"
| "any_fresh (PathChallengeF f) = PathChallengeF path_fresh"
| "any_fresh (PathResponseF f) = PathResponseF path_fresh"
| "any_fresh (ConnectionCloseF f) = ConnectionCloseF conn_close_fresh"
| "any_fresh (HandshakeDoneF f) = HandshakeDoneF frame_fresh"
| "any_fresh (DatagramF f) = DatagramF datagram_fresh"
| "any_fresh (UnknownF f) = UnknownF frame_fresh"

lemma select_field: "any_ok fr \<Longrightarrow> select_Frame (ff_type (any_field fr)) = any_fresh fr"
  by (cases fr) (simp_all add: select_FT field_types max_streams_ok_def)

lemma any_parse_enc:
  assumes "any_wf fr" "any_ok fr" "any_tail fr \<longrightarrow> rest = []"
  shows "any_parse (any_fresh fr) (rd pre (any_enc fr @ rest)) = (True, any_norm fr, rd (pre @ any_enc fr) rest)"
  using assms by (cases fr) (simp_all add: codec_lift)

lemma any_fresh_known: "any_ok fr \<Longrightarrow> \<not> is_UnknownF (any_fresh fr)"
  by (cases fr) simp_all

subsection \<open>\<^verbatim>\<open>parse_frame\<close> and \<^verbatim>\<open>parse_frames\<close>\<close>

lemma parse_frame_enc:
  assumes "any_wf fr" "any_ok fr" "any_tail fr \<longrightarrow> rest = []"
  shows "parse_frame cb (rd pre (any_enc fr @ rest), c)
       = (fst (cb (any_norm fr) False c), (rd (pre @ any_enc fr) rest, snd (cb (any_norm fr) False c)))"
proof -
  obtain body where e: "any_enc fr = venc (Value (any_field fr)) @ body" using any_enc_field [OF assms(2)] by blast
  have "frame_parse (frame_fresh, rd pre (any_enc fr @ rest))
      = (True, (frame_fresh\<lparr>f_type := any_field fr\<rparr>, rd (pre @ venc (Value (any_field fr))) (body @ rest)))"
    unfolding e using frame_parse_step [OF any_field_ok [OF assms(2)]] by simp
  then show ?thesis
    using any_parse_enc [OF assms] any_fresh_known [OF assms(2)]
    by (simp add: parse_frame_def select_field [OF assms(2)] split_beta)
qed

lemma parse_frame_advances:
  assumes "reader_wf r"
  shows "advances r (fst (snd (parse_frame cb (r, c))))"
    and "fst (parse_frame cb (r, c)) \<Longrightarrow> r_index r < r_index (fst (snd (parse_frame cb (r, c))))"
proof -
  obtain ok f peek where "frame_parse (frame_fresh, r) = (ok, (f, peek))" by (metis surj_pair)
  then show "advances r (fst (snd (parse_frame cb (r, c))))"
    and "fst (parse_frame cb (r, c)) \<Longrightarrow> r_index r < r_index (fst (snd (parse_frame cb (r, c))))"
    using any_parse_safe [OF assms] any_parse_progress [OF assms] advances_refl [OF assms]
    by (auto simp: parse_frame_def Let_def split_beta split: if_splits)
qed

text \<open>The bytes that are left, which every round of the loop makes fewer.\<close>

definition left :: "reader \<Rightarrow> nat" where
  "left r = (if reader_wf r then length (r_buf r) - r_index r else Suc (length (r_buf r)))"

lemma left_rd [simp]: "left (rd pre rest) = length rest"
  by (simp add: left_def)

lemma advances_left: "reader_wf r \<Longrightarrow> advances r r' \<Longrightarrow> r_index r < r_index r' \<Longrightarrow> left r' < left r"
  by (auto simp: advances_def left_def reader_wf_def)

lemma varint_read_outside:
  assumes "\<not> reader_wf r"
  shows "\<not> snd (fst (varint_read r))"
proof -
  let ?n = "unat (mask_to_len (reader_remain r ! 0))"
  have n: "0 < ?n" by (rule mask_to_len_cases [of "reader_remain r ! 0"]) simp_all
  have "\<not> snd (fst (reader_read k r))" if "0 < k" for k
    using assms that
    by (auto simp: reader_read_def read_internal_def read_best_internal_def rsubstr_def reader_wf_def Let_def)
  then have "\<not> snd (fst (reader_read ?n r))" using n .
  then show ?thesis by (auto simp: varint_read_def Let_def split: prod.splits)
qed

lemma parse_frame_outside: "\<not> reader_wf r \<Longrightarrow> \<not> fst (parse_frame cb (r, c))"
  using varint_read_outside [of r] by (auto simp: parse_frame_def frame_parse_def split_beta)

lemma parse_frame_left: "parse_frame cb (r, c) = (True, (r', c')) \<Longrightarrow> left r' < left r"
  using parse_frame_advances [of r cb c] parse_frame_outside [of r cb c]
  by (cases "reader_wf r") (auto intro: advances_left)

lemma offset_left: "\<not> reader_empty r \<Longrightarrow> left (reader_offset 1 r) < left r"
  by (auto simp: reader_empty_def reader_offset_def left_def reader_wf_def)

function parse_frames :: "'c callback \<Rightarrow> nat \<Rightarrow> bool \<Rightarrow> nat \<Rightarrow> (reader \<times> 'c) action" where
  "parse_frames cb limit ignore_padding i (r, c) =
     (if reader_empty r \<or> limit \<le> i then (True, (r, c))
      else if ignore_padding \<and> reader_top r = 0
        then parse_frames cb limit ignore_padding i (reader_offset 1 r, c)
      else case parse_frame cb (r, c) of (ok, (r', c')) \<Rightarrow>
        if \<not> ok then (False, (r', c'))
        else parse_frames cb limit ignore_padding (i + 1) (r', c'))"
  by pat_completeness auto

termination
  by (relation "measure (\<lambda>(cb, limit, ignore_padding, i, r, c). left r)")
    (auto intro: parse_frame_left [OF sym] offset_left [unfolded One_nat_def])

declare parse_frames.simps [simp del]

lemma parse_frames_advances:
  "reader_wf r \<Longrightarrow> advances r (fst (snd (parse_frames cb limit ig i (r, c))))"
proof (induction cb limit ig i "(r, c)" arbitrary: r c rule: parse_frames.induct)
  case (1 cb limit ig i r c)
  have pad: "advances r (reader_offset 1 r)" using 1(3) by (rule reader_offset_advances)
  obtain ok r' c' where p: "parse_frame cb (r, c) = (ok, (r', c'))" by (metis surj_pair)
  have step: "advances r r'" using parse_frame_advances(1) [OF 1(3), of cb c] p by simp
  show ?case
    using 1(1,2) p advances_refl [OF 1(3)] pad step advances_wf [OF pad] advances_wf [OF step]
      advances_trans [OF pad] advances_trans [OF step]
    by (subst parse_frames.simps) auto
qed

subsection \<open>A packet payload of several frames\<close>

text \<open>The callback that keeps the frames it is given.\<close>

definition collect :: "(any_frame \<times> bool) list callback" where
  "collect fr err c = (True, c @ [(fr, err)])"

fun is_padding :: "any_frame \<Rightarrow> bool" where
  "is_padding (PaddingF f) \<longleftrightarrow> True"
| "is_padding _ \<longleftrightarrow> False"

text \<open>Frames that can stand in this order: one without a length only at the end.\<close>

fun payload :: "any_frame list \<Rightarrow> bool" where
  "payload [] \<longleftrightarrow> True"
| "payload (fr # frs) \<longleftrightarrow> any_wf fr \<and> any_ok fr \<and> (any_tail fr \<longrightarrow> frs = []) \<and> payload frs"

definition payload_enc :: "any_frame list \<Rightarrow> byte list" where
  "payload_enc frs = concat (map any_enc frs)"

lemma venc_one_byte: "v < 0x40 \<Longrightarrow> venc (Value v) = [ucast v]"
  by (simp add: venc_def varint_len_def min_len_def in_range_def border_def write_unchecked_def len_mask_def
      or_first_def write_be_def)

lemma padding_enc: "any_enc (PaddingF f) = [0]"
  by (simp add: typeonly_enc_def FrameFlags_of_def FT.simps venc_one_byte)

lemma typeonly_lens:
  "typeonly_len (FT PADDING) False f = 1" "typeonly_len (FT PING) False f = 1" "typeonly_len (FT HANDSHAKE_DONE) False f = 1"
  using any_len_enc [of "PaddingF f"] any_len_enc [of "PingF f"] any_len_enc [of "HandshakeDoneF f"]
  by (simp_all add: typeonly_enc_def FrameFlags_of_def FT.simps venc_one_byte)

lemma payload_encodes: "payload frs \<Longrightarrow> encodes (chain (map any_render frs)) True (payload_enc frs)"
proof (induction frs)
  case (Cons fr frs)
  then show ?case
    using encodes_chain_Cons [OF any_encodes, of fr "map any_render frs" True "payload_enc frs"]
    by (simp add: payload_enc_def del: chain.simps)
qed (simp add: payload_enc_def encodes_chain_Nil del: chain.simps)

lemma payload_len: "payload frs \<Longrightarrow> length (payload_enc frs) = sum_list (map any_len frs)"
  by (induction frs) (simp_all add: payload_enc_def any_len_enc)

lemma venc_first_zero:
  assumes "varint_ok (Value v)" "venc (Value v) ! 0 = 0"
  shows "v = 0"
proof -
  have "varint_len (Value v) = 1" using venc_decodes(1) [OF assms(1)] assms(2) by (simp add: mask_to_len_def)
  then have "read_unchecked (venc (Value v)) 1 = v" using venc_decodes(2) [OF assms(1)] by (simp add: Value_def)
  then show ?thesis using assms(2) by (simp add: read_unchecked_def)
qed

lemma any_enc_first:
  assumes "any_ok fr"
  shows "any_enc fr \<noteq> [] \<and> (any_enc fr ! 0 = 0 \<longleftrightarrow> is_padding fr)"
proof -
  note vok = any_field_ok [OF assms]
  obtain body where e: "any_enc fr = venc (Value (any_field fr)) @ body" using any_enc_field [OF assms] by blast
  have n: "venc (Value (any_field fr)) \<noteq> []" using venc_ge_1 [OF vok] by auto
  have "is_padding fr" if "any_enc fr ! 0 = 0"
  proof -
    have "any_field fr = 0" using venc_first_zero [OF vok] that n by (simp add: e nth_append)
    then have "any_field fr = any_field (PaddingF frame_fresh)" by (simp add: FrameFlags_of_def FT.simps)
    then have "any_fresh fr = any_fresh (PaddingF frame_fresh)"
      using select_field [OF assms] select_field [of "PaddingF frame_fresh"] by simp
    then show ?thesis by (cases fr) simp_all
  qed
  moreover have "any_enc fr ! 0 = 0" if "is_padding fr"
    using that padding_enc by (cases fr) (simp_all del: any_enc.simps)
  ultimately show ?thesis using n e by auto
qed

lemma padding_skip: "reader_offset 1 (rd pre (0 # rest)) = rd (pre @ [0]) rest"
  by (simp add: rd_def reader_offset_def)

lemma payload_parses:
  assumes "payload frs" "i + length frs \<le> limit"
  shows "parse_frames collect limit ig i (rd pre (payload_enc frs), c)
     = (True, (rd (pre @ payload_enc frs) [],
          c @ map (\<lambda>fr. (any_norm fr, False)) (if ig then filter (Not \<circ> is_padding) frs else frs)))"
  using assms
proof (induction frs arbitrary: i pre c)
  case Nil
  then show ?case by (subst parse_frames.simps) (simp add: payload_enc_def)
next
  case (Cons fr frs)
  then have fr: "any_wf fr" "any_ok fr" "any_tail fr \<longrightarrow> payload_enc frs = []" "payload frs"
    by (auto simp: payload_enc_def)
  have e: "payload_enc (fr # frs) = any_enc fr @ payload_enc frs" by (simp add: payload_enc_def)
  have ne: "\<not> reader_empty (rd pre (any_enc fr @ payload_enc frs))" "\<not> limit \<le> i"
    using any_enc_first [OF fr(2)] Cons.prems(2) by auto
  have top: "reader_top (rd pre (any_enc fr @ payload_enc frs)) = 0 \<longleftrightarrow> is_padding fr"
    using any_enc_first [OF fr(2)] by (auto simp: reader_top_rd hd_conv_nth nth_append)
  show ?case
  proof (cases "ig \<and> is_padding fr")
    case True
    then obtain f where f: "fr = PaddingF f" by (cases fr) auto
    have IH: "parse_frames collect limit ig i (rd (pre @ [0]) (payload_enc frs), c)
       = (True, (rd ((pre @ [0]) @ payload_enc frs) [],
            c @ map (\<lambda>fr. (any_norm fr, False)) (if ig then filter (Not \<circ> is_padding) frs else frs)))"
      by (rule Cons.IH) (use fr Cons.prems in auto)
    show ?thesis
      unfolding e
      by (subst parse_frames.simps) (use True ne top IH f padding_enc padding_skip in auto)
  next
    case False
    note step = parse_frame_enc [OF fr(1,2,3), of collect pre c]
    have IH: "parse_frames collect limit ig (i + 1) (rd (pre @ any_enc fr) (payload_enc frs), c @ [(any_norm fr, False)])
       = (True, (rd ((pre @ any_enc fr) @ payload_enc frs) [], (c @ [(any_norm fr, False)])
            @ map (\<lambda>fr. (any_norm fr, False)) (if ig then filter (Not \<circ> is_padding) frs else frs)))"
      by (rule Cons.IH) (use fr Cons.prems in auto)
    show ?thesis
      unfolding e
      by (subst parse_frames.simps) (use False ne top step IH in \<open>auto simp: collect_def\<close>)
  qed
qed

text \<open>A callback with a counter of its calls.\<close>

definition counted :: "'c callback \<Rightarrow> (nat \<times> 'c) callback" where
  "counted cb fr err s = (case s of (n, c) \<Rightarrow> case cb fr err c of (go, c') \<Rightarrow> (go, (Suc n, c')))"

lemma parse_frame_counted:
  "reader_wf r \<Longrightarrow> \<not> reader_empty r \<Longrightarrow>
   fst (snd (snd (parse_frame (counted cb) (r, (n, c))))) \<le> Suc n \<and> 0 < left r"
  by (auto simp: parse_frame_def counted_def Let_def left_def reader_empty_def reader_wf_def split_beta split: prod.splits)

lemma parse_frames_calls:
  "reader_wf r \<Longrightarrow> fst (snd (snd (parse_frames (counted cb) limit ig i (r, (n, c))))) \<le> n + min (limit - i) (left r)"
proof (induction "counted cb" limit ig i "(r, (n, c))" arbitrary: r n c rule: parse_frames.induct)
  case (1 limit ig i r n c)
  obtain ok r' n' c' where p: "parse_frame (counted cb) (r, (n, c)) = (ok, (r', (n', c')))" by (metis surj_pair)
  have wf: "reader_wf r'" "reader_wf (reader_offset 1 r)"
    using parse_frame_advances(1) [OF 1(3), of "counted cb" "(n, c)"] p reader_offset_advances [OF 1(3)]
    by (auto intro: advances_wf)
  show ?case
  proof (cases "reader_empty r \<or> limit \<le> i")
    case True
    then show ?thesis by (subst parse_frames.simps) auto
  next
    case False
    then have n: "n' \<le> Suc n" "0 < left r" and off: "left (reader_offset 1 r) < left r"
      using parse_frame_counted [OF 1(3), of cb n c] p offset_left by auto
    show ?thesis
    proof (cases "ig \<and> reader_top r = 0")
      case True
      then show ?thesis using 1(1) [OF False True wf(2)] off False
        by (subst parse_frames.simps) auto
    next
      case nopad: False
      have "left r' < left r" if ok using parse_frame_left p that by simp
      then show ?thesis using 1(2) [OF False nopad p [symmetric] refl _ wf(1)] n False nopad p
        by (subst parse_frames.simps) auto
    qed
  qed
qed

subsection \<open>Properties\<close>

text \<open>
  C3. A payload survives the wire: well-formed frames of any types are written one
  after the other in exactly the sum of their computed lengths, and the parser
  hands the callback the same frames in the same order, none of them marked as an
  error, without the PADDING frames if they are to be ignored.
\<close>

theorem payload_roundtrip:
  assumes "payload frs" and "length frs \<le> limit" and "writer_wf w" and "sum_list (map any_len frs) \<le> room w"
  shows "\<exists>bs. length bs = sum_list (map any_len frs)
     \<and> chain (map any_render frs) w = (True, emit bs w)
     \<and> parse_frames collect limit ig 0 (rd pre bs, [])
       = (True, (rd (pre @ bs) [], map (\<lambda>fr. (any_norm fr, False)) (if ig then filter (Not \<circ> is_padding) frs else frs)))"
  using payload_parses [OF assms(1), of 0 limit ig pre "[]"] payload_len [OF assms(1)] assms
    encodes_simps [OF payload_encodes [OF assms(1)]]
  by (intro exI [of _ "payload_enc frs"]) simp

theorem payload_roundtrip_witness:
  "\<exists>bs. length bs = 2
     \<and> parse_frames collect 5 True 0 (rd [] bs, []) = (True, (rd bs [], [(any_norm (PingF frame_fresh), False)]))"
proof -
  have "any_len (PaddingF frame_fresh) = 1" "any_len (PingF frame_fresh) = 1"
    by (simp_all add: typeonly_lens)
  then show ?thesis
    using payload_roundtrip [of "[PaddingF frame_fresh, PingF frame_fresh]" 5 "make_writer (replicate 9 0)" True "[]"]
    by (simp add: make_writer_def writer_wf_def room_def numeral_2_eq_2 del: any_len.simps any_norm.simps) blast
qed

text \<open>
  C13. Any frame whose fields are in range is rendered if there is room for its
  computed length and refused otherwise, and a refusal leaves a usable writer;
  what is rendered is dispatched by \<^verbatim>\<open>parse_frame\<close> to the type it was rendered for
  and is passed to the callback once, not marked as an error, whatever bytes follow.
\<close>

theorem frame_dispatch:
  assumes "any_wf fr" and "writer_wf w"
  shows "(fst (any_render fr w) \<longleftrightarrow> any_ok fr \<and> any_len fr \<le> room w) \<and> writer_wf (snd (any_render fr w))
     \<and> (fst (any_render fr w) \<longrightarrow> (\<exists>bs. length bs = any_len fr \<and> any_render fr w = (True, emit bs w)
          \<and> (\<forall>pre rest c. (any_tail fr \<longrightarrow> rest = []) \<longrightarrow>
               parse_frame collect (rd pre (bs @ rest), c) = (True, (rd (pre @ bs) rest, c @ [(any_norm fr, False)])))))"
proof (cases "any_ok fr \<and> any_len fr \<le> room w")
  case True
  then have l: "length (any_enc fr) \<le> room w" and ok: "any_ok fr" using any_len_enc [OF assms(1)] by auto
  have r: "any_render fr w = (True, emit (any_enc fr) w)"
    using encodes_simps(1) [OF any_encodes [OF assms(1)] ok assms(2) l] .
  show ?thesis
    unfolding r using True any_len_enc [OF assms(1) ok] emit_wf [OF assms(2) l] parse_frame_enc [OF assms(1) ok, of _ collect]
    by (auto intro!: exI [of _ "any_enc fr"] simp: collect_def)
next
  case False
  then show ?thesis
    using any_encodes [OF assms(1)] assms(2) any_len_enc [OF assms(1)] unfolding encodes_def by auto
qed

theorem frame_dispatch_witness:
  "\<exists>bs. length bs = any_len (HandshakeDoneF frame_fresh)
     \<and> parse_frame collect (rd [7] (bs @ [1, 2]), []) = (True, (rd (7 # bs) [1, 2], [(any_norm (HandshakeDoneF frame_fresh), False)]))"
proof -
  have "any_len (HandshakeDoneF frame_fresh) = 1"
    by (simp add: typeonly_lens)
  then have "\<exists>bs. length bs = any_len (HandshakeDoneF frame_fresh) \<and> (\<forall>pre rest c.
      parse_frame collect (rd pre (bs @ rest), c) = (True, (rd (pre @ bs) rest, c @ [(any_norm (HandshakeDoneF frame_fresh), False)])))"
    using frame_dispatch [of "HandshakeDoneF frame_fresh" "make_writer (replicate 9 0)"]
    by (auto simp: make_writer_def writer_wf_def room_def simp del: any_len.simps any_norm.simps)
  then obtain bs where "length bs = any_len (HandshakeDoneF frame_fresh)" "\<And>pre rest c.
      parse_frame collect (rd pre (bs @ rest), c) = (True, (rd (pre @ bs) rest, c @ [(any_norm (HandshakeDoneF frame_fresh), False)]))"
    by blast
  then show ?thesis by (intro exI [of _ bs]) (simp del: any_norm.simps)
qed

text \<open>
  C18. Whatever bytes arrive and whatever the callback does, the parser ends, stays
  within the buffer, never moves backwards, and calls the callback at most once
  per byte that was left and at most \<^verbatim>\<open>limit\<close> times.
\<close>

theorem parse_frames_safe:
  assumes "reader_wf r"
  shows "advances r (fst (snd (parse_frames (counted cb) limit ig 0 (r, (0, c)))))
     \<and> fst (snd (snd (parse_frames (counted cb) limit ig 0 (r, (0, c))))) \<le> min limit (length (r_buf r) - r_index r)"
  using parse_frames_advances [OF assms, of "counted cb" limit ig 0 "(0, c)"]
    parse_frames_calls [OF assms, of cb limit ig 0 0 c] assms by (simp add: left_def)

theorem parse_frames_safe_witness:
  "fst (snd (snd (parse_frames (counted collect) 9 True 0 (rd [] [0x1f, 0x1f, 0x1f], (0, []))))) \<le> 3"
  using parse_frames_safe [of "rd [] [0x1f, 0x1f, 0x1f]" collect 9 True "[]"] by (simp add: rd_def reader_wf_def)

end
