(* ===== verification/Flags.thy ===== *)
theory Flags
  imports Prelude
begin

text \<open>
  Bit fields of an integer (\<^verbatim>\<open>binary/flags.h\<close>): the class \<^verbatim>\<open>Flags\<close> reads and
  writes the field under a mask of adjacent bits, and \<^verbatim>\<open>flags_t\<close> computes the
  masks from a list of field widths, the first field in the highest bits. The
  compile-time arguments (the masks) are arguments of the definitions.
\<close>

section \<open>Masks\<close>

definition indexed_mask :: "nat \<Rightarrow> 'a::len word" where
  "indexed_mask i = push_bit (LENGTH('a) - 1 - i) 1"

text \<open>The loop of \<^verbatim>\<open>is_separated\<close>: the next index whose bit is \<open>want\<close>.\<close>

function next_bit :: "bool \<Rightarrow> 'a::len word \<Rightarrow> nat \<Rightarrow> nat" where
  "next_bit want t i =
     (if i < LENGTH('a) \<and> (t AND indexed_mask i \<noteq> 0) \<noteq> want then next_bit want t (i + 1) else i)"
  by pat_completeness auto

termination
  by (relation "measure (\<lambda>(want, t :: 'a word, i). LENGTH('a) - i)") auto

declare next_bit.simps [simp del]

definition is_separated :: "'a::len word \<Rightarrow> bool" where
  "is_separated v = (next_bit True v (next_bit False v (next_bit True v 0)) < LENGTH('a))"

lemma drop_bit_smaller: "v \<noteq> 0 \<Longrightarrow> unat (drop_bit 1 v :: 'a::len word) < unat v"
  by (simp only: unat_drop_bit_eq) (simp add: drop_bit_Suc unat_gt_0)

function lowest_index :: "'a::len word \<Rightarrow> nat \<Rightarrow> nat" where
  "lowest_index v n = (if v \<noteq> 0 \<and> v \<noteq> 1 then lowest_index (drop_bit 1 v) (n + 1) else n)"
  by pat_completeness auto

termination
  by (relation "measure (\<lambda>(v :: 'a word, n). unat v)")
    (auto simp only: wf_measure in_measure prod.case intro!: drop_bit_smaller)

declare lowest_index.simps [simp del]

definition mask_shift :: "'a::len word \<Rightarrow> nat" where
  "mask_shift t = lowest_index (t AND - t) 0"

definition is_one_bit :: "'a::len word \<Rightarrow> bool" where
  "is_one_bit t \<longleftrightarrow> t AND - t = t"

fun or_masks :: "nat \<Rightarrow> nat \<Rightarrow> 'a::len word" where
  "or_masks sp 0 = 0"
| "or_masks sp (Suc i) = or_masks sp i OR indexed_mask (sp + i)"

fun init_masks :: "nat \<Rightarrow> nat list \<Rightarrow> 'a::len word list" where
  "init_masks sp [] = []"
| "init_masks sp (s # split) = or_masks sp s # init_masks (sp + s) split"

section \<open>Fields\<close>

definition flags_limit :: "'a::len word \<Rightarrow> 'a word" where
  "flags_limit m = drop_bit (mask_shift m) m"

definition flags_set :: "'a::len word \<Rightarrow> 'a word \<Rightarrow> 'a word action" where
  "flags_set m val flags =
     (if is_one_bit m then (True, if val \<noteq> 0 then flags OR m else flags AND NOT m)
      else if flags_limit m < val then (False, flags)
      else (True, (flags AND NOT m) OR push_bit (mask_shift m) val))"

definition flags_get :: "'a::len word \<Rightarrow> 'a word \<Rightarrow> 'a word" where
  "flags_get m flags =
     (if is_one_bit m then of_bool (flags AND m \<noteq> 0) else drop_bit (mask_shift m) (flags AND m))"

section \<open>Adjacent bits\<close>

definition field :: "nat \<Rightarrow> nat \<Rightarrow> 'a::len word" where
  "field sh n = push_bit sh (mask n)"

lemma word_bits_iff: "(a :: 'a::len word) = b \<longleftrightarrow> (\<forall>n < LENGTH('a). bit a n \<longleftrightarrow> bit b n)"
  by (auto intro: bit_word_eqI)

lemma bit_field: "bit (field sh n :: 'a::len word) i \<longleftrightarrow> i < LENGTH('a) \<and> sh \<le> i \<and> i < sh + n"
  by (auto simp: field_def bit_push_bit_iff bit_mask_iff)

lemma and_indexed_mask: "i < LENGTH('a) \<Longrightarrow> (t :: 'a::len word) AND indexed_mask i \<noteq> 0 \<longleftrightarrow> bit t (LENGTH('a) - 1 - i)"
  by (auto simp: indexed_mask_def word_bits_iff bit_and_iff bit_exp_iff)

lemma next_bit_spec:
  fixes t :: "'a::len word" and want :: bool and i :: nat
  assumes "i \<le> LENGTH('a)"
  defines "k \<equiv> next_bit want t i"
  shows "i \<le> k \<and> k \<le> LENGTH('a) \<and> (\<forall>x. i \<le> x \<and> x < k \<longrightarrow> bit t (LENGTH('a) - 1 - x) \<noteq> want)
     \<and> (k < LENGTH('a) \<longrightarrow> bit t (LENGTH('a) - 1 - k) = want)"
  using assms(1) unfolding k_def
proof (induction want t i rule: next_bit.induct)
  case (1 want t i)
  show ?case
  proof (cases "i < LENGTH('a) \<and> (t AND indexed_mask i \<noteq> 0) \<noteq> want")
    case True
    then have IH: "i + 1 \<le> next_bit want t (i + 1)" "next_bit want t (i + 1) \<le> LENGTH('a)"
      "\<And>x. i + 1 \<le> x \<Longrightarrow> x < next_bit want t (i + 1) \<Longrightarrow> bit t (LENGTH('a) - 1 - x) \<noteq> want"
      "next_bit want t (i + 1) < LENGTH('a) \<Longrightarrow> bit t (LENGTH('a) - 1 - next_bit want t (i + 1)) = want"
      using 1(1) by auto
    have i: "bit t (LENGTH('a) - 1 - i) \<noteq> want" using True and_indexed_mask [of i t] by simp
    have e: "next_bit want t i = next_bit want t (i + 1)" using True by (subst next_bit.simps) simp
    have "bit t (LENGTH('a) - 1 - x) \<noteq> want" if "i \<le> x" "x < next_bit want t (i + 1)" for x
      using i IH(3) [of x] that by (cases "x = i") auto
    then show ?thesis unfolding e using IH(1,2,4) by auto
  next
    case False
    then have "next_bit want t i = i" by (simp only: next_bit.simps [of want t i] if_False)
    then show ?thesis using False 1(2) and_indexed_mask [of i t] by auto
  qed
qed

lemma not_separated_field:
  assumes "\<not> is_separated (v :: 'a::len word)"
  obtains sh n where "sh + n \<le> LENGTH('a)" "v = field sh n"
proof -
  let ?W = "LENGTH('a)"
  define i j k where "i = next_bit True v 0" and "j = next_bit False v i" and "k = next_bit True v j"
  have k: "k = ?W" "i \<le> j" "j \<le> ?W"
    and off: "\<And>x. x < i \<Longrightarrow> \<not> bit v (?W - 1 - x)" "\<And>x. j \<le> x \<Longrightarrow> x < ?W \<Longrightarrow> \<not> bit v (?W - 1 - x)"
    and on: "\<And>x. i \<le> x \<Longrightarrow> x < j \<Longrightarrow> bit v (?W - 1 - x)"
    using assms next_bit_spec [of 0 True v] next_bit_spec [of i False v] next_bit_spec [of j True v]
    by (auto simp: is_separated_def i_def [symmetric] j_def [symmetric] k_def [symmetric])
  have "v = field (?W - j) (j - i)"
  proof (rule bit_word_eqI)
    fix b assume b: "b < ?W"
    define x where "x = ?W - 1 - b"
    have x: "b = ?W - 1 - x" "x < ?W" using b by (auto simp: x_def)
    have "bit v b \<longleftrightarrow> i \<le> x \<and> x < j"
      using off on x by (metis not_less)
    also have "\<dots> \<longleftrightarrow> ?W - j \<le> b \<and> b < ?W - j + (j - i)" using k x by auto
    finally show "bit v b \<longleftrightarrow> bit (field (?W - j) (j - i) :: 'a word) b" using b by (simp add: bit_field)
  qed
  moreover have "?W - j + (j - i) \<le> ?W" using k by simp
  ultimately show ?thesis using that by blast
qed

lemma or_masks_field: "sp + s \<le> LENGTH('a::len) \<Longrightarrow> (or_masks sp s :: 'a word) = field (LENGTH('a) - sp - s) s"
proof (induction s)
  case (Suc s)
  then have IH: "(or_masks sp s :: 'a word) = field (LENGTH('a) - sp - s) s" by simp
  show ?case
    using Suc.prems by (auto simp: IH word_bits_iff bit_or_iff bit_field indexed_mask_def bit_exp_iff)
qed (simp add: field_def)

lemma odd_and_minus: "odd (u :: 'a::len word) \<Longrightarrow> u AND - u = 1"
proof -
  assume u: "odd u"
  have "u - 1 = u AND NOT 1" using u unset_bit_eq [of 0 u] by (simp add: unset_bit_eq_and_not bit_0)
  then have "- u = NOT (u AND NOT 1)" by (metis minus_eq_not_minus_1)
  then have "u AND - u = u AND 1" by (auto intro!: bit_word_eqI simp: bit_and_iff bit_or_iff bit_not_iff)
  then show ?thesis using u by (simp add: and_one_eq odd_iff_mod_2_eq_one)
qed

lemma field_and_minus:
  assumes "0 < n" "sh < LENGTH('a::len)"
  shows "(field sh n :: 'a word) AND - field sh n = 2 ^ sh"
proof -
  have "odd (mask n :: 'a word)" using assms by (simp add: mask_eq_exp_minus_1)
  moreover have "- (field sh n :: 'a word) = push_bit sh (- mask n)" by (simp add: field_def push_bit_eq_mult)
  ultimately show ?thesis
    using odd_and_minus [of "mask n :: 'a word"] by (simp add: field_def flip: push_bit_and)
qed

lemma lowest_index_exp: "sh < LENGTH('a::len) \<Longrightarrow> lowest_index (2 ^ sh :: 'a word) n = n + sh"
proof (induction sh arbitrary: n)
  case 0
  then show ?case by (subst lowest_index.simps) simp
next
  case (Suc sh)
  then have "drop_bit 1 (2 ^ Suc sh) = (2 ^ sh :: 'a word)"
    by (auto simp: word_bits_iff bit_drop_bit_eq bit_exp_iff simp del: power_Suc)
  moreover have "(2 ^ Suc sh :: 'a word) \<noteq> 0" "(2 ^ Suc sh :: 'a word) \<noteq> 1"
    using Suc.prems by (auto simp: word_bits_iff bit_exp_iff bit_1_iff simp del: power_Suc)
  ultimately show ?case using Suc by (subst lowest_index.simps) simp
qed

lemma mask_shift_field: "0 < n \<Longrightarrow> sh < LENGTH('a::len) \<Longrightarrow> mask_shift (field sh n :: 'a word) = sh"
  by (simp add: mask_shift_def field_and_minus lowest_index_exp)

lemma is_one_bit_field:
  assumes "0 < n" "sh + n \<le> LENGTH('a::len)"
  shows "is_one_bit (field sh n :: 'a word) \<longleftrightarrow> n = 1"
proof -
  have "is_one_bit (field sh n :: 'a word) \<longleftrightarrow> (2 ^ sh :: 'a word) = field sh n"
    using assms by (simp add: is_one_bit_def field_and_minus)
  also have "\<dots> \<longleftrightarrow> (\<forall>i < LENGTH('a). i = sh \<longleftrightarrow> sh \<le> i \<and> i < sh + n)"
    by (auto simp: word_bits_iff bit_exp_iff bit_field)
  also have "\<dots> \<longleftrightarrow> n = 1"
  proof
    assume a: "\<forall>i < LENGTH('a). i = sh \<longleftrightarrow> sh \<le> i \<and> i < sh + n"
    show "n = 1"
    proof (rule ccontr)
      assume "n \<noteq> 1"
      then have "Suc sh < sh + n" using assms by simp
      then show False using a [rule_format, of "Suc sh"] assms by simp
    qed
  qed (use assms in auto)
  finally show ?thesis .
qed

lemma flags_limit_field: "0 < n \<Longrightarrow> sh + n \<le> LENGTH('a::len) \<Longrightarrow> flags_limit (field sh n :: 'a word) = mask n"
  by (auto simp: flags_limit_def mask_shift_field word_bits_iff bit_drop_bit_eq bit_field bit_mask_iff)

lemma flags_get_field:
  assumes "0 < n" "sh + n \<le> LENGTH('a::len)"
  shows "flags_get (field sh n) (v :: 'a word) = take_bit n (drop_bit sh v)"
proof (cases "n = 1")
  case True
  have "v AND field sh 1 \<noteq> 0 \<longleftrightarrow> bit v sh"
    using assms by (auto simp: word_bits_iff bit_and_iff bit_field le_less_Suc_eq)
  then show ?thesis
    using True assms by (simp add: flags_get_def is_one_bit_field take_bit_Suc flip: bit_iff_odd_drop_bit)
      (simp add: of_bool_def odd_iff_mod_2_eq_one bit_iff_odd_drop_bit)
next
  case False
  then show ?thesis
    using assms
    by (auto simp: flags_get_def is_one_bit_field mask_shift_field word_bits_iff bit_drop_bit_eq bit_and_iff bit_field
        bit_take_bit_iff)
qed

lemma field_not_separated: "\<not> is_separated (field sh n :: 'a::len word)"
proof
  let ?W = "LENGTH('a)" and ?v = "field sh n :: 'a word"
  define i j k where "i = next_bit True ?v 0" and "j = next_bit False ?v i" and "k = next_bit True ?v j"
  assume "is_separated ?v"
  then have "k < ?W" by (simp add: is_separated_def i_def j_def k_def)
  then have "i \<le> j" "j \<le> k" "j < ?W" "bit ?v (?W - 1 - i)" "\<not> bit ?v (?W - 1 - j)" "bit ?v (?W - 1 - k)"
    using next_bit_spec [of 0 True ?v] next_bit_spec [of i False ?v] next_bit_spec [of j True ?v]
    by (auto simp: i_def [symmetric] j_def [symmetric] k_def [symmetric])
  then show False using \<open>k < ?W\<close> by (auto simp: bit_field)
qed

lemma le_mask_bits:
  fixes x :: "'a::len word"
  assumes "x \<le> mask n" "n \<le> LENGTH('a)" "n \<le> i"
  shows "\<not> bit x i"
proof -
  have "unat (mask n :: 'a word) = mask n"
    using assms(2) unsigned_of_nat [where ?'a = nat and ?'b = 'a and n = "mask n"] by (simp add: of_nat_mask_eq)
  then have "unat x \<le> mask n" using assms(1) by (simp add: word_le_nat_alt)
  then have "unat x < 2 ^ n" by (simp add: mask_eq_exp_minus_1 le_diff_conv2 Suc_le_eq)
  then have "take_bit n x = x" by (simp add: word_eq_iff_unsigned [where ?'a = nat] unsigned_take_bit_eq take_bit_nat_eq_self)
  then show ?thesis using assms(3) by (metis bit_take_bit_iff not_le)
qed

lemma flags_set_field:
  fixes v :: "'a::len word"
  assumes "0 < n" "sh + n \<le> LENGTH('a)"
  shows "fst (flags_set (field sh n) val v) \<longleftrightarrow> n = 1 \<or> val \<le> mask n"
    and "\<not> fst (flags_set (field sh n) val v) \<Longrightarrow> snd (flags_set (field sh n) val v) = v"
    and "fst (flags_set (field sh n) val v) \<Longrightarrow> i < LENGTH('a) \<Longrightarrow>
         bit (snd (flags_set (field sh n) val v)) i \<longleftrightarrow>
         (if sh \<le> i \<and> i < sh + n then (if n = 1 then val \<noteq> 0 else bit val (i - sh)) else bit v i)"
proof -
  show "fst (flags_set (field sh n) val v) \<longleftrightarrow> n = 1 \<or> val \<le> mask n"
    and "\<not> fst (flags_set (field sh n) val v) \<Longrightarrow> snd (flags_set (field sh n) val v) = v"
    using assms by (auto simp: flags_set_def is_one_bit_field flags_limit_field simp flip: not_less split: if_splits)
  assume ok: "fst (flags_set (field sh n) val v)" and i: "i < LENGTH('a)"
  show "bit (snd (flags_set (field sh n) val v)) i \<longleftrightarrow>
         (if sh \<le> i \<and> i < sh + n then (if n = 1 then val \<noteq> 0 else bit val (i - sh)) else bit v i)"
  proof (cases "n = 1")
    case True
    then show ?thesis
      using assms i by (auto simp: flags_set_def is_one_bit_field bit_or_iff bit_and_iff bit_not_iff bit_field)
  next
    case False
    then have l: "val \<le> mask n" using ok assms by (simp add: flags_set_def is_one_bit_field flags_limit_field not_less split: if_splits)
    have "\<not> i < sh + n \<Longrightarrow> \<not> bit val (i - sh)" using le_mask_bits [OF l] assms by simp
    then show ?thesis
      using False assms i l
      by (auto simp: flags_set_def is_one_bit_field flags_limit_field mask_shift_field bit_or_iff bit_and_iff bit_not_iff
          bit_field bit_push_bit_iff)
  qed
qed

lemma fields_disjoint:
  assumes "(field sh n :: 'a::len word) AND field sh' n' = 0" "i < LENGTH('a)" "sh' \<le> i" "i < sh' + n'"
  shows "\<not> (sh \<le> i \<and> i < sh + n)"
proof
  assume "sh \<le> i \<and> i < sh + n"
  then have "bit ((field sh n :: 'a word) AND field sh' n') i" using assms(2-4) by (simp add: bit_and_iff bit_field)
  then show False unfolding assms(1) by simp
qed

section \<open>Properties\<close>

text \<open>
  C26. A field of adjacent bits behaves like a variable: a value is refused exactly
  if it is over the limit and then nothing changes; a value that was set is read
  back; and the fields under disjoint masks are not touched.
\<close>

theorem flags_set_get:
  fixes m :: "'a::len word"
  assumes "\<not> is_separated m" and "m \<noteq> 0"
  shows "(fst (flags_set m val v) \<longleftrightarrow> is_one_bit m \<or> val \<le> flags_limit m)
     \<and> (\<not> fst (flags_set m val v) \<longrightarrow> snd (flags_set m val v) = v)
     \<and> (fst (flags_set m val v) \<longrightarrow>
          flags_get m (snd (flags_set m val v)) = (if is_one_bit m then of_bool (val \<noteq> 0) else val))
     \<and> (\<forall>m'. \<not> is_separated m' \<and> m' \<noteq> 0 \<and> m AND m' = 0 \<longrightarrow> flags_get m' (snd (flags_set m val v)) = flags_get m' v)"
proof -
  obtain sh n where m: "sh + n \<le> LENGTH('a)" "m = field sh n" using assms(1) by (rule not_separated_field)
  have n: "0 < n" using assms(2) m by (cases n) (auto simp: field_def)
  let ?w = "snd (flags_set m val v)"
  note set = flags_set_field [OF n m(1), where val = val and v = v, folded m(2)]
  have g: "bit (flags_get m w) i \<longleftrightarrow> i < n \<and> bit w (sh + i)" for w i
    by (simp add: m(2) flags_get_field [OF n m(1)] bit_take_bit_iff bit_drop_bit_eq)
  have get: "flags_get m ?w = (if n = 1 then of_bool (val \<noteq> 0) else val)" if ok: "fst (flags_set m val v)"
  proof (rule bit_word_eqI)
    fix i assume i: "i < LENGTH('a)"
    have "\<not> i < n \<Longrightarrow> n \<noteq> 1 \<Longrightarrow> \<not> bit val i" using ok set(1) le_mask_bits [of val n i] m(1) by auto
    then show "bit (flags_get m ?w) i \<longleftrightarrow> bit (if n = 1 then of_bool (val \<noteq> 0) else val) i"
      unfolding g using set(3) [OF ok, of "sh + i"] i m(1) n
      by (cases "i < n") (auto simp: bit_1_iff)
  qed
  have other: "flags_get m' ?w = flags_get m' v" if m': "\<not> is_separated m'" "m' \<noteq> 0" "m AND m' = 0" for m'
  proof (cases "fst (flags_set m val v)")
    case True
    obtain sh' n' where f: "sh' + n' \<le> LENGTH('a)" "m' = field sh' n'" using m'(1) by (rule not_separated_field)
    have n': "0 < n'" using m'(2) f by (cases n') (auto simp: field_def)
    have "bit ?w (sh' + i) = bit v (sh' + i)" if "i < n'" for i
      using set(3) [OF True, of "sh' + i"] fields_disjoint [OF m'(3) [unfolded m(2) f(2)], of "sh' + i"] f(1) that by auto
    then show ?thesis
      unfolding f(2) flags_get_field [OF n' f(1)] by (auto intro!: bit_word_eqI simp: bit_take_bit_iff bit_drop_bit_eq)
  qed (use set(2) in simp)
  show ?thesis
    using set(1,2) get other by (simp add: m(2) is_one_bit_field [OF n m(1)] flags_limit_field [OF n m(1)])
qed

theorem flags_set_get_witness:
  "flags_get (1 :: byte) (snd (flags_set 1 7 0x20)) = 1"
proof -
  have f: "(1 :: byte) = field 0 1" by (simp add: field_def mask_eq_exp_minus_1)
  have "\<not> is_separated (1 :: byte)" "is_one_bit (1 :: byte)" unfolding f by (simp_all add: field_not_separated is_one_bit_field)
  then show ?thesis using flags_set_get [of "1 :: byte" 7 "0x20"] by simp
qed

text \<open>
  The masks computed from field widths that fit the integer are masks of
  adjacent bits, in this order from the highest bit, and no two of them overlap.
\<close>

lemma init_masks_fields:
  assumes "sum_list split \<le> LENGTH('a::len)" and "i < length split"
  shows "\<not> is_separated ((init_masks 0 split :: 'a word list) ! i)
     \<and> (init_masks 0 split :: 'a word list) ! i = field (LENGTH('a) - sum_list (take (Suc i) split)) (split ! i)
     \<and> (\<forall>j < length split. j \<noteq> i \<longrightarrow> (init_masks 0 split :: 'a word list) ! i AND init_masks 0 split ! j = 0)"
proof -
  have nth: "(init_masks sp split :: 'a word list) ! i = field (LENGTH('a) - sp - sum_list (take (Suc i) split)) (split ! i)"
    if "sp + sum_list split \<le> LENGTH('a)" "i < length split" for sp split i
    using that
  proof (induction split arbitrary: sp i)
    case (Cons s split)
    then show ?case by (cases i) (simp_all add: or_masks_field add.assoc)
  qed simp
  have sums: "sum_list (take (Suc a) split) + split ! b \<le> sum_list (take (Suc b) split)" if "a < b" "b < length split" for a b
  proof -
    from less_imp_Suc_add [OF that(1)] obtain d where d: "b = Suc a + d" by auto
    have "sum_list (take (Suc a) split) \<le> sum_list (take b split)" unfolding d take_add by simp
    then show ?thesis using that(2) by (simp add: take_Suc_conv_app_nth)
  qed
  have disj: "field (LENGTH('a) - sum_list (take (Suc a) split)) (split ! a)
      AND (field (LENGTH('a) - sum_list (take (Suc b) split)) (split ! b) :: 'a word) = 0"
    if "a < b" "b < length split" for a b
  proof -
    have "sum_list split = sum_list (take (Suc b) split) + sum_list (drop (Suc b) split)"
      by (metis append_take_drop_id sum_list_append)
    then show ?thesis using sums [OF that] assms(1) by (intro bit_word_eqI) (simp add: bit_and_iff bit_field, linarith)
  qed
  have n0: "(init_masks 0 split :: 'a word list) ! k = field (LENGTH('a) - sum_list (take (Suc k) split)) (split ! k)"
    if "k < length split" for k using nth [of 0 split k] assms(1) that by simp
  have "(init_masks 0 split :: 'a word list) ! i AND init_masks 0 split ! j = 0" if "j < length split" "j \<noteq> i" for j
    using disj [of i j] disj [of j i] that assms(2) n0 by (cases "i < j") (simp_all add: and.commute)
  then show ?thesis using n0 [OF assms(2)] by (simp add: field_not_separated)
qed

end
