(* ===== verification/StreamId.thy ===== *)
theory StreamId
  imports Flags Varint
begin

text \<open>
  Stream identifiers (\<^verbatim>\<open>fnet/quic/stream/stream_id.h\<close>) and the counter with a
  limit (\<^verbatim>\<open>fnet/quic/stream/core/limiter.h\<close>) that flow control, stream limits and
  connection credit are made of.
\<close>

section \<open>Stream identifiers\<close>

datatype Origin = origin_client | origin_server | origin_unknown

datatype StreamType = stream_bidi | stream_uni | stream_unknown

fun inverse_origin :: "Origin \<Rightarrow> Origin" where
  "inverse_origin origin_client = origin_server"
| "inverse_origin origin_server = origin_client"
| "inverse_origin origin_unknown = origin_unknown"

type_synonym StreamID = u64

definition sid_mask :: "nat \<Rightarrow> u64" where
  "sid_mask i = init_masks 0 [2, 60, 1, 1] ! i"

definition invalid_id :: StreamID where
  "invalid_id = - 1"

definition make_id :: "u64 \<Rightarrow> Origin \<Rightarrow> StreamType \<Rightarrow> StreamID" where
  "make_id seq orig typ =
     (let (seq_ok, v) = flags_set (sid_mask 1) seq 0;
          v = (if \<not> seq_ok then snd (flags_set (sid_mask 0) 1 v) else v);
          v = (if orig \<noteq> origin_server \<and> orig \<noteq> origin_client then snd (flags_set (sid_mask 0) 1 v)
               else snd (flags_set (sid_mask 3) (of_bool (orig = origin_server)) v))
      in if typ \<noteq> stream_bidi \<and> typ \<noteq> stream_uni then snd (flags_set (sid_mask 0) 1 v)
         else snd (flags_set (sid_mask 2) (of_bool (typ = stream_uni)) v))"

definition id_valid :: "StreamID \<Rightarrow> bool" where
  "id_valid v = (flags_get (sid_mask 0) v = 0)"

definition id_seq_count :: "StreamID \<Rightarrow> u64" where
  "id_seq_count v = (if \<not> id_valid v then - 1 else flags_get (sid_mask 1) v)"

definition id_type :: "StreamID \<Rightarrow> StreamType" where
  "id_type v = (if \<not> id_valid v then stream_unknown
     else if flags_get (sid_mask 2) v \<noteq> 0 then stream_uni else stream_bidi)"

definition id_origin :: "StreamID \<Rightarrow> Origin" where
  "id_origin v = (if \<not> id_valid v then origin_unknown
     else if flags_get (sid_mask 3) v \<noteq> 0 then origin_server else origin_client)"

section \<open>Limiter\<close>

record Limiter =
  lim_limit :: u64
  lim_used :: u64

definition limiter_zero :: Limiter where
  "limiter_zero = \<lparr>lim_limit = 0, lim_used = 0\<rparr>"

definition avail_size :: "Limiter \<Rightarrow> u64" where
  "avail_size l = (if lim_limit l > lim_used l then lim_limit l - lim_used l else 0)"

definition on_limit :: "Limiter \<Rightarrow> u64 \<Rightarrow> bool" where
  "on_limit l delta = (avail_size l < delta)"

definition set_limit :: "u64 \<Rightarrow> Limiter action" where
  "set_limit new_limit l = (if new_limit \<ge> border 8 then (False, l) else (True, l\<lparr>lim_limit := new_limit\<rparr>))"

definition update_limit :: "u64 \<Rightarrow> Limiter action" where
  "update_limit new_limit l =
     (if new_limit \<ge> border 8 then (False, l)
      else if new_limit > lim_limit l then (True, l\<lparr>lim_limit := new_limit\<rparr>)
      else (False, l))"

definition limiter_use :: "u64 \<Rightarrow> Limiter action" where
  "limiter_use s l = (if on_limit l s then (False, l) else (True, l\<lparr>lim_used := lim_used l + s\<rparr>))"

definition update_use :: "u64 \<Rightarrow> Limiter action" where
  "update_use new_used l =
     (if lim_limit l < new_used then (False, l)
      else (True, if new_used > lim_used l then l\<lparr>lim_used := new_used\<rparr> else l))"

section \<open>Identifiers as numbers\<close>

lemma sid_masks:
  "sid_mask 0 = field 62 2" "sid_mask 1 = field 2 60" "sid_mask 2 = field 1 1" "sid_mask 3 = field 0 1"
  "sid_mask (Suc 0) = field 2 60"
  by (simp_all add: sid_mask_def or_masks_field del: or_masks.simps)

lemma sid_get:
  "flags_get (sid_mask 0) v = take_bit 2 (drop_bit 62 v)" "flags_get (sid_mask 1) v = take_bit 60 (drop_bit 2 v)"
  "flags_get (sid_mask 2) v = take_bit 1 (drop_bit 1 v)" "flags_get (sid_mask 3) v = take_bit 1 v"
  by (simp_all add: sid_masks flags_get_field)

lemma id_valid_iff: "id_valid v \<longleftrightarrow> v < 2 ^ 62"
proof -
  have "bit v (62 + n) \<Longrightarrow> n < 2" for n using bit_imp_le_length [of v "62 + n"] by simp
  then have "take_bit 2 (drop_bit 62 v) = drop_bit 62 v"
    by (auto intro!: bit_word_eqI simp: bit_take_bit_iff bit_drop_bit_eq)
  moreover have "drop_bit 62 v = 0 \<longleftrightarrow> unat v < 2 ^ 62"
    unfolding unat_eq_0 [symmetric] unat_drop_bit_eq by (simp add: drop_bit_eq_div div_eq_0_iff del: unat_eq_0)
  ultimately show ?thesis by (simp add: id_valid_def sid_get word_less_nat_alt)
qed

lemma sid_set:
  assumes "i < 64"
  shows "fst (flags_set (sid_mask 1) seq v) \<longleftrightarrow> seq < 2 ^ 60"
    and "bit (snd (flags_set (sid_mask 0) 1 v)) i \<longleftrightarrow> (if 62 \<le> i then i = 62 else bit v i)"
    and "bit (snd (flags_set (sid_mask 1) seq v)) i
       \<longleftrightarrow> (if 2 \<le> i \<and> i < 62 \<and> seq < 2 ^ 60 then bit seq (i - 2) else bit v i)"
    and "bit (snd (flags_set (sid_mask 2) (of_bool b) v)) i \<longleftrightarrow> (if i = 1 then b else bit v i)"
    and "bit (snd (flags_set (sid_mask 3) (of_bool b) v)) i \<longleftrightarrow> (if i = 0 then b else bit v i)"
proof -
  have m: "x \<le> (mask 60 :: u64) \<longleftrightarrow> x < 2 ^ 60" for x :: u64
    by (simp add: mask_eq_exp_minus_1 word_le_nat_alt word_less_nat_alt less_Suc_eq_le [symmetric])
  show "fst (flags_set (sid_mask 1) seq v) \<longleftrightarrow> seq < 2 ^ 60"
    using flags_set_field(1) [of 60 2 seq v] m by (simp add: sid_masks)
  show "bit (snd (flags_set (sid_mask 0) 1 v)) i \<longleftrightarrow> (if 62 \<le> i then i = 62 else bit v i)"
    using flags_set_field(1,3) [of 2 62 1 v] assms by (auto simp: sid_masks mask_eq_exp_minus_1 bit_1_iff)
  show "bit (snd (flags_set (sid_mask 1) seq v)) i
       \<longleftrightarrow> (if 2 \<le> i \<and> i < 62 \<and> seq < 2 ^ 60 then bit seq (i - 2) else bit v i)"
    using flags_set_field [of 60 2 seq v] m assms by (auto simp: sid_masks)
  show "bit (snd (flags_set (sid_mask 2) (of_bool b) v)) i \<longleftrightarrow> (if i = 1 then b else bit v i)"
    using flags_set_field(1,3) [of 1 1 "of_bool b" v] assms by (auto simp: sid_masks)
  show "bit (snd (flags_set (sid_mask 3) (of_bool b) v)) i \<longleftrightarrow> (if i = 0 then b else bit v i)"
    using flags_set_field(1,3) [of 1 0 "of_bool b" v] assms by (auto simp: sid_masks)
qed

definition id_args_ok :: "u64 \<Rightarrow> Origin \<Rightarrow> StreamType \<Rightarrow> bool" where
  "id_args_ok seq orig typ \<longleftrightarrow> seq < 2 ^ 60 \<and> orig \<noteq> origin_unknown \<and> typ \<noteq> stream_unknown"

lemma bit_make_id:
  assumes "i < 64"
  shows "bit (make_id seq orig typ) i \<longleftrightarrow>
    (if 62 \<le> i then i = 62 \<and> \<not> id_args_ok seq orig typ
     else if i = 0 then orig = origin_server
     else if i = 1 then typ = stream_uni
     else seq < 2 ^ 60 \<and> bit seq (i - 2))"
  using assms sid_set(1) [of i seq 0]
  by (cases orig; cases "typ") (auto simp: make_id_def id_args_ok_def Let_def split_beta sid_set
      simp del: of_bool_eq One_nat_def)

lemma id_seq_count_valid: "id_valid v \<Longrightarrow> id_seq_count v = take_bit 60 (drop_bit 2 v)"
  by (simp add: id_seq_count_def sid_get del: One_nat_def)

lemma id_type_valid: "id_valid v \<Longrightarrow> id_type v = (if bit v 1 then stream_uni else stream_bidi)"
  by (auto simp: id_type_def sid_get bit_iff_odd_drop_bit odd_iff_mod_2_eq_one)

lemma id_origin_valid: "id_valid v \<Longrightarrow> id_origin v = (if bit v 0 then origin_server else origin_client)"
  by (auto simp: id_origin_def sid_get bit_0 odd_iff_mod_2_eq_one)

lemma id_valid_bits: "id_valid v \<longleftrightarrow> \<not> bit v 62 \<and> \<not> bit v 63"
proof -
  have "i < 64 \<Longrightarrow> bit (take_bit 2 (drop_bit 62 v)) i \<longleftrightarrow> (i = 0 \<and> bit v 62 \<or> i = 1 \<and> bit v 63)" for i
    by (auto simp: bit_take_bit_iff bit_drop_bit_eq less_2_cases_iff)
  then show ?thesis by (auto simp: id_valid_def sid_get word_bits_iff dest: spec [of _ 0] spec [of _ "Suc 0"])
qed

lemma make_id_valid: "id_valid (make_id seq orig typ) \<longleftrightarrow> id_args_ok seq orig typ"
  by (simp add: id_valid_bits bit_make_id)

lemma make_id_fields:
  assumes "id_args_ok seq orig typ"
  shows "id_seq_count (make_id seq orig typ) = seq" "id_origin (make_id seq orig typ) = orig"
    "id_type (make_id seq orig typ) = typ"
proof -
  have v: "id_valid (make_id seq orig typ)" using assms by (simp add: make_id_valid)
  have s: "seq < 2 ^ 60" using assms by (simp add: id_args_ok_def)
  show "id_seq_count (make_id seq orig typ) = seq"
  proof (rule bit_word_eqI)
    fix n
    have "bit seq n \<Longrightarrow> n < 60" by (rule bit_lt_2p [OF s])
    then show "bit (id_seq_count (make_id seq orig typ)) n \<longleftrightarrow> bit seq n"
      using s by (cases "n < 60") (auto simp: id_seq_count_valid [OF v] bit_take_bit_iff bit_drop_bit_eq bit_make_id)
  qed
  show "id_origin (make_id seq orig typ) = orig"
    unfolding id_origin_valid [OF v] using assms by (cases orig) (simp_all add: bit_make_id id_args_ok_def)
  show "id_type (make_id seq orig typ) = typ"
    unfolding id_type_valid [OF v] using assms by (cases "typ") (simp_all add: bit_make_id id_args_ok_def)
qed

lemma seq_count_lt: "id_valid v \<Longrightarrow> id_seq_count v < 2 ^ 60"
  using take_bit_nat_less_exp [of 60 "unat (drop_bit 2 v)"]
  by (simp add: id_seq_count_valid word_less_nat_alt unsigned_take_bit_eq)

lemma make_id_of_fields:
  assumes "id_valid v"
  shows "make_id (id_seq_count v) (id_origin v) (id_type v) = v"
proof (rule bit_word_eqI)
  fix i assume "i < LENGTH(64)"
  then have i: "i < 64" by simp
  have ok: "id_args_ok (id_seq_count v) (id_origin v) (id_type v)"
    using assms seq_count_lt by (simp add: id_args_ok_def id_origin_valid id_type_valid)
  have "62 \<le> i \<Longrightarrow> i = 62 \<or> i = 63" "0 < i \<Longrightarrow> i \<noteq> Suc 0 \<Longrightarrow> Suc (Suc (i - 2)) = i" using i by auto
  then show "bit (make_id (id_seq_count v) (id_origin v) (id_type v)) i = bit v i"
    using ok assms i seq_count_lt [OF assms]
    by (auto simp: bit_make_id id_origin_valid id_type_valid id_seq_count_valid bit_take_bit_iff bit_drop_bit_eq
        id_valid_bits)
qed

section \<open>Credit: amounts spent against a limit that only grows\<close>

text \<open>
  Connection flow control, stream flow control and stream counts all spend
  amounts against a limit that the other side raises. The events of such a
  counter, in the order they happen, and the total of what was granted.
\<close>

datatype credit_event = Spend u64 | Raise u64

fun run_credit :: "(u64 \<Rightarrow> 's action) \<Rightarrow> (u64 \<Rightarrow> 's action) \<Rightarrow> credit_event list \<Rightarrow> 's \<Rightarrow> nat \<times> 's" where
  "run_credit spend raise [] s = (0, s)"
| "run_credit spend raise (Spend n # evs) s =
     (case spend n s of (ok, s') \<Rightarrow> case run_credit spend raise evs s' of (g, t) \<Rightarrow> ((if ok then unat n else 0) + g, t))"
| "run_credit spend raise (Raise n # evs) s = run_credit spend raise evs (snd (raise n s))"

locale credit_counter =
  fixes spend :: "u64 \<Rightarrow> 's action" and raise :: "u64 \<Rightarrow> 's action"
    and inv :: "'s \<Rightarrow> bool" and limit :: "'s \<Rightarrow> nat" and used :: "'s \<Rightarrow> nat"
  assumes inv_bound: "inv s \<Longrightarrow> used s \<le> limit s"
    and spend_iff: "inv s \<Longrightarrow> fst (spend n s) \<longleftrightarrow> used s + unat n \<le> limit s"
    and spend_used: "inv s \<Longrightarrow> used (snd (spend n s)) = used s + (if fst (spend n s) then unat n else 0)"
    and spend_inv: "inv s \<Longrightarrow> inv (snd (spend n s)) \<and> limit (snd (spend n s)) = limit s"
    and raise_inv: "inv s \<Longrightarrow> inv (snd (raise n s)) \<and> used (snd (raise n s)) = used s"
    and raise_grows: "inv s \<Longrightarrow> limit s \<le> limit (snd (raise n s))"
begin

lemma run_credit_bound:
  "inv s \<Longrightarrow> run_credit spend raise evs s = (g, t) \<Longrightarrow>
   inv t \<and> used t = used s + g \<and> used t \<le> limit t \<and> limit s \<le> limit t"
proof (induction evs arbitrary: s g)
  case Nil
  then show ?case using inv_bound by simp
next
  case (Cons e evs)
  show ?case
  proof (cases e)
    case (Spend n)
    obtain h where h: "run_credit spend raise evs (snd (spend n s)) = (h, t)"
      "g = (if fst (spend n s) then unat n else 0) + h"
      using Cons.prems(2) Spend by (auto split: prod.splits)
    show ?thesis using Cons.IH [OF _ h(1)] spend_inv [OF Cons.prems(1), of n] spend_used [OF Cons.prems(1), of n] h(2) by simp
  next
    case (Raise n)
    then show ?thesis
      using Cons.IH [of "snd (raise n s)" g] Cons.prems raise_inv [OF Cons.prems(1), of n] raise_grows [OF Cons.prems(1), of n]
      by auto
  qed
qed

end

definition lim_inv :: "Limiter \<Rightarrow> bool" where
  "lim_inv l \<longleftrightarrow> lim_used l \<le> lim_limit l \<and> lim_limit l < 2 ^ 62"

lemma border_8: "border 8 = 2 ^ 62"
  by (simp add: border_def)

lemma avail_size_nat: "unat (avail_size l) = unat (lim_limit l) - unat (lim_used l)"
  by (auto simp: avail_size_def word_less_nat_alt unat_sub_if')

lemma limiter_use_nat:
  "fst (limiter_use n l) \<longleftrightarrow> unat n \<le> unat (lim_limit l) - unat (lim_used l)"
  "fst (limiter_use n l) \<Longrightarrow> lim_inv l \<Longrightarrow> unat (lim_used l + n) = unat (lim_used l) + unat n"
  by (auto simp: limiter_use_def on_limit_def word_less_nat_alt avail_size_nat not_less word_le_nat_alt lim_inv_def
      intro!: unat_add_lem [THEN iffD1] split: if_splits)

interpretation lim_credit: credit_counter limiter_use update_limit lim_inv "\<lambda>l. unat (lim_limit l)" "\<lambda>l. unat (lim_used l)"
proof
  fix l n
  assume inv: "lim_inv l"
  show "unat (lim_used l) \<le> unat (lim_limit l)" using inv by (simp add: lim_inv_def word_le_nat_alt)
  then show "fst (limiter_use n l) \<longleftrightarrow> unat (lim_used l) + unat n \<le> unat (lim_limit l)"
    using limiter_use_nat(1) [of n l] by auto
  then show "lim_inv (snd (limiter_use n l)) \<and> unat (lim_limit (snd (limiter_use n l))) = unat (lim_limit l)"
    using inv limiter_use_nat(2) [of n l] by (auto simp: limiter_use_def lim_inv_def word_le_nat_alt)
  show "unat (lim_used (snd (limiter_use n l))) = unat (lim_used l) + (if fst (limiter_use n l) then unat n else 0)"
    using inv limiter_use_nat(2) [of n l] by (auto simp: limiter_use_def)
  show "lim_inv (snd (update_limit n l)) \<and> unat (lim_used (snd (update_limit n l))) = unat (lim_used l)"
    "unat (lim_limit l) \<le> unat (lim_limit (snd (update_limit n l)))"
    using inv by (auto simp: update_limit_def lim_inv_def border_8 word_le_nat_alt word_less_nat_alt)
qed

lemma update_use_inv:
  assumes "lim_inv l"
  shows "lim_inv (snd (update_use n l))" "lim_used l \<le> lim_used (snd (update_use n l))"
    "lim_limit (snd (update_use n l)) = lim_limit l"
    "fst (update_use n l) \<longleftrightarrow> n \<le> lim_limit l"
    "fst (update_use n l) \<Longrightarrow> lim_used (snd (update_use n l)) = max (lim_used l) n"
    "\<not> fst (update_use n l) \<Longrightarrow> snd (update_use n l) = l"
  using assms by (auto simp: update_use_def lim_inv_def max_def)

lemma set_limit_inv: "lim_used l = 0 \<Longrightarrow> lim_inv l \<Longrightarrow> lim_inv (snd (set_limit n l))"
  by (auto simp: set_limit_def lim_inv_def border_8)

section \<open>Properties\<close>

text \<open>
  C25. Stream identifiers and their parts are in one-to-one correspondence: an
  identifier made of a sequence number below 2^60, an origin and a type is valid
  and has those parts, one made of anything else is invalid, and every valid
  identifier is made of its parts; valid identifiers are those below 2^62.
\<close>

theorem stream_id_parts:
  "(id_valid (make_id seq orig typ) \<longleftrightarrow> seq < 2 ^ 60 \<and> orig \<noteq> origin_unknown \<and> typ \<noteq> stream_unknown)
   \<and> (id_valid (make_id seq orig typ) \<longrightarrow>
        id_seq_count (make_id seq orig typ) = seq \<and> id_origin (make_id seq orig typ) = orig \<and> id_type (make_id seq orig typ) = typ)
   \<and> (id_valid v \<longleftrightarrow> v < 2 ^ 62) \<and> (id_valid v \<longrightarrow> make_id (id_seq_count v) (id_origin v) (id_type v) = v)"
  using make_id_fields [of seq orig "typ"] make_id_of_fields [of v] id_valid_iff [of v] make_id_valid [of seq orig "typ"]
  by (simp add: id_args_ok_def)

theorem stream_id_parts_witness:
  "id_seq_count (make_id 5 origin_server stream_uni) = 5 \<and> id_origin (make_id 5 origin_server stream_uni) = origin_server"
  using stream_id_parts [of 5 origin_server stream_uni 0] by simp

text \<open>
  C19. Credit is never overdrawn: whatever amounts are asked for and whatever new
  limits arrive, in any order, the sum of the granted amounts is what is used,
  and it stays within the limit in force, which only grows and stays a varint.
\<close>

theorem limiter_never_overdrawn:
  assumes "lim_inv l" and "run_credit limiter_use update_limit evs l = (granted, l')"
  shows "unat (lim_used l') = unat (lim_used l) + granted \<and> lim_used l' \<le> lim_limit l'
     \<and> lim_limit l \<le> lim_limit l' \<and> lim_limit l' < 2 ^ 62"
  using lim_credit.run_credit_bound [OF assms] by (simp add: lim_inv_def word_le_nat_alt)

theorem limiter_never_overdrawn_witness:
  "lim_used (snd (run_credit limiter_use update_limit [Raise 10, Spend 7, Spend 7, Raise 20, Spend 7] limiter_zero)) \<le> 20"
proof -
  have i: "lim_inv limiter_zero" by (simp add: lim_inv_def limiter_zero_def)
  have "run_credit limiter_use update_limit [Raise 10, Spend 7, Spend 7, Raise 20, Spend 7] limiter_zero
      = (14, \<lparr>lim_limit = 20, lim_used = 14\<rparr>)"
    by (simp add: limiter_use_def update_limit_def on_limit_def avail_size_def limiter_zero_def border_def)
  then show ?thesis using limiter_never_overdrawn [OF i] by fastforce
qed

end
