(* ===== verification/StreamState.thy ===== *)
theory StreamState
  imports StreamId
begin

text \<open>
  The state machines of the two sides of a stream
  (\<^verbatim>\<open>fnet/quic/stream/core/base.h\<close>): \<^verbatim>\<open>SendUniStreamState\<close> and
  \<^verbatim>\<open>RecvUniStreamState\<close>, each a limiter, an error code, a state and flags. The
  transitions allowed by the protocol are an abstract automaton for each side, and
  every operation of the code is a step of it or leaves the state alone.
\<close>

section \<open>Sending side\<close>

datatype SendState = ready | send | data_sent | data_recved | reset_sent | reset_recved

record SendUniStreamState =
  sst_limit :: Limiter
  sst_error_code :: u64
  sst_state :: SendState
  sst_reset_flags :: byte

definition send_init :: SendUniStreamState where
  "send_init = \<lparr>sst_limit = limiter_zero, sst_error_code = 0, sst_state = ready, sst_reset_flags = 0\<rparr>"

definition flag_reset_by_peer :: byte where "flag_reset_by_peer = 0x1"

definition flag_reset_by_local :: byte where "flag_reset_by_local = 0x2"

definition flag_reset_sent :: byte where "flag_reset_sent = 0x4"

definition sendable_size :: "SendUniStreamState \<Rightarrow> u64" where
  "sendable_size s = avail_size (sst_limit s)"

definition send_limit :: "SendUniStreamState \<Rightarrow> u64" where
  "send_limit s = lim_limit (sst_limit s)"

definition sent_bytes :: "SendUniStreamState \<Rightarrow> u64" where
  "sent_bytes s = lim_used (sst_limit s)"

definition on_send_limit :: "Limiter action \<Rightarrow> SendUniStreamState action" where
  "on_send_limit f s = (case f (sst_limit s) of (ok, l) \<Rightarrow> (ok, s\<lparr>sst_limit := l\<rparr>))"

definition update_send_limit :: "u64 \<Rightarrow> SendUniStreamState action" where
  "update_send_limit credit = on_send_limit (update_limit credit)"

definition set_send_limit :: "u64 \<Rightarrow> SendUniStreamState action" where
  "set_send_limit new_limit = on_send_limit (set_limit new_limit)"

definition send_is_terminal_state :: "SendUniStreamState \<Rightarrow> bool" where
  "send_is_terminal_state s \<longleftrightarrow> sst_state s = data_recved \<or> sst_state s = reset_recved"

definition is_ready :: "SendUniStreamState \<Rightarrow> bool" where
  "is_ready s \<longleftrightarrow> sst_state s = ready"

definition can_send :: "SendUniStreamState \<Rightarrow> bool" where
  "can_send s \<longleftrightarrow> sst_state s = ready \<or> sst_state s = send"

definition can_retransmit :: "SendUniStreamState \<Rightarrow> bool" where
  "can_retransmit s \<longleftrightarrow> sst_state s = send \<or> sst_state s = data_sent"

definition can_reset :: "SendUniStreamState \<Rightarrow> bool" where
  "can_reset s \<longleftrightarrow> sst_state s = ready \<or> sst_state s = send \<or> sst_state s = data_sent"

definition can_retransmit_reset :: "SendUniStreamState \<Rightarrow> bool" where
  "can_retransmit_reset s \<longleftrightarrow> sst_state s = reset_sent"

definition is_data_sent :: "SendUniStreamState \<Rightarrow> bool" where
  "is_data_sent s \<longleftrightarrow> sst_state s = data_sent"

definition send_reset :: "SendUniStreamState action" where
  "send_reset s =
     (if sst_state s = reset_sent \<or> sst_state s = data_recved \<or> sst_state s = reset_recved then (False, s)
      else (True, s\<lparr>sst_state := reset_sent, sst_reset_flags := sst_reset_flags s OR flag_reset_sent\<rparr>))"

definition reset_ack :: "SendUniStreamState action" where
  "reset_ack s =
     (if sst_state s = reset_recved then (True, s)
      else if sst_state s \<noteq> reset_sent then (False, s)
      else (True, s\<lparr>sst_state := reset_recved\<rparr>))"

definition send_send :: "u64 \<Rightarrow> SendUniStreamState action" where
  "send_send send_max s =
     (if \<not> can_send s then (False, s)
      else case update_use send_max (sst_limit s) of (ok, l) \<Rightarrow>
        if \<not> ok then (False, s\<lparr>sst_limit := l\<rparr>) else (True, s\<lparr>sst_limit := l, sst_state := send\<rparr>))"

definition send_sent :: "SendUniStreamState action" where
  "send_sent s = (if sst_state s \<noteq> send then (False, s) else (True, s\<lparr>sst_state := data_sent\<rparr>))"

definition sent_ack :: "SendUniStreamState action" where
  "sent_ack s = (if sst_state s \<noteq> data_sent then (False, s) else (True, s\<lparr>sst_state := data_recved\<rparr>))"

definition set_error_code_impl :: "u64 \<Rightarrow> bool \<Rightarrow> SendUniStreamState action" where
  "set_error_code_impl code by_peer s =
     (if sst_state s = reset_sent \<or> sst_state s = data_recved \<or> sst_state s = reset_recved then (False, s)
      else (True, s\<lparr>sst_error_code := code,
        sst_reset_flags := sst_reset_flags s OR (if by_peer then flag_reset_by_peer else flag_reset_by_local)\<rparr>))"

definition set_error_code :: "u64 \<Rightarrow> SendUniStreamState action" where
  "set_error_code code = set_error_code_impl code False"

definition send_recv_stop_sending :: "u64 \<Rightarrow> SendUniStreamState \<Rightarrow> SendUniStreamState" where
  "send_recv_stop_sending code s = snd (set_error_code_impl code True s)"

definition is_reset_required :: "SendUniStreamState \<Rightarrow> bool" where
  "is_reset_required s \<longleftrightarrow> sst_reset_flags s AND flag_reset_sent = 0 \<and>
     (sst_reset_flags s AND flag_reset_by_local \<noteq> 0 \<or> sst_reset_flags s AND flag_reset_by_peer \<noteq> 0)"

section \<open>Receiving side\<close>

datatype RecvState = pre_recv | recv | size_known | r_data_recved | r_reset_recved | data_read | reset_read

record RecvUniStreamState =
  rst_limit :: Limiter
  rst_error_code :: u64
  rst_ini_limit :: u64
  rst_state :: RecvState
  rst_stop_required :: bool
  rst_should_send_limit_update :: bool

definition recv_init :: RecvUniStreamState where
  "recv_init = \<lparr>rst_limit = limiter_zero, rst_error_code = 0, rst_ini_limit = 0, rst_state = pre_recv,
     rst_stop_required = False, rst_should_send_limit_update = False\<rparr>"

definition update_recv_limit :: "u64 \<Rightarrow> RecvUniStreamState action" where
  "update_recv_limit new_limit s =
     (case update_limit new_limit (rst_limit s) of (ok, l) \<Rightarrow>
        let b = ok \<or> rst_should_send_limit_update s in (b, s\<lparr>rst_limit := l, rst_should_send_limit_update := b\<rparr>))"

definition set_recv_limit :: "u64 \<Rightarrow> RecvUniStreamState action" where
  "set_recv_limit new_limit s =
     (case set_limit new_limit (rst_limit s) of (ok, l) \<Rightarrow>
        if ok then (True, s\<lparr>rst_limit := l, rst_ini_limit := new_limit\<rparr>) else (False, s\<lparr>rst_limit := l\<rparr>))"

definition recv_limit :: "RecvUniStreamState \<Rightarrow> u64" where
  "recv_limit s = lim_limit (rst_limit s)"

definition recv_bytes :: "RecvUniStreamState \<Rightarrow> u64" where
  "recv_bytes s = lim_used (rst_limit s)"

definition is_recv :: "RecvUniStreamState \<Rightarrow> bool" where
  "is_recv s \<longleftrightarrow> rst_state s = pre_recv \<or> rst_state s = recv"

definition can_recv :: "RecvUniStreamState \<Rightarrow> bool" where
  "can_recv s \<longleftrightarrow> is_recv s \<or> rst_state s = size_known"

definition is_size_known :: "RecvUniStreamState \<Rightarrow> bool" where
  "is_size_known s \<longleftrightarrow> rst_state s = r_reset_recved \<or> rst_state s = size_known"

definition can_stop_sending :: "RecvUniStreamState \<Rightarrow> bool" where
  "can_stop_sending s \<longleftrightarrow> rst_state s \<noteq> r_reset_recved \<and> rst_state s \<noteq> reset_read \<and> rst_state s \<noteq> data_read"

definition recv_recv :: "u64 \<Rightarrow> RecvUniStreamState action" where
  "recv_recv recv_max s =
     (if is_size_known s \<and> recv_max > recv_bytes s then (False, s)
      else if \<not> can_recv s then (False, s)
      else case update_use recv_max (rst_limit s) of (ok, l) \<Rightarrow>
        if \<not> ok then (False, s\<lparr>rst_limit := l\<rparr>)
        else (True, s\<lparr>rst_limit := l, rst_state := (if rst_state s \<noteq> size_known then recv else rst_state s)\<rparr>))"

definition recv_size_known :: "RecvUniStreamState action" where
  "recv_size_known s =
     (if rst_state s = size_known then (True, s)
      else if rst_state s \<noteq> recv then (False, s)
      else (True, s\<lparr>rst_state := size_known\<rparr>))"

definition recv_reset :: "u64 \<Rightarrow> u64 \<Rightarrow> RecvUniStreamState action" where
  "recv_reset fin_size code s =
     (if rst_state s = data_read \<or> rst_state s = reset_read then (True, s)
      else if is_size_known s \<and> fin_size \<noteq> recv_bytes s then (False, s)
      else case update_use fin_size (rst_limit s) of (ok, l) \<Rightarrow>
        if \<not> ok then (False, s\<lparr>rst_limit := l\<rparr>)
        else (True, s\<lparr>rst_limit := l, rst_state := r_reset_recved, rst_error_code := code\<rparr>))"

definition stop_sending :: "u64 \<Rightarrow> RecvUniStreamState action" where
  "stop_sending code s =
     (if \<not> can_stop_sending s then (False, s) else (True, s\<lparr>rst_error_code := code, rst_stop_required := True\<rparr>))"

definition max_stream_data_sent :: "RecvUniStreamState \<Rightarrow> RecvUniStreamState" where
  "max_stream_data_sent s = s\<lparr>rst_should_send_limit_update := False\<rparr>"

definition recv_reset_read :: "RecvUniStreamState action" where
  "recv_reset_read s = (if rst_state s \<noteq> r_reset_recved then (False, s) else (True, s\<lparr>rst_state := reset_read\<rparr>))"

definition recv_recved :: "RecvUniStreamState action" where
  "recv_recved s = (if rst_state s \<noteq> size_known then (False, s) else (True, s\<lparr>rst_state := r_data_recved\<rparr>))"

definition recv_data_read :: "RecvUniStreamState action" where
  "recv_data_read s = (if rst_state s \<noteq> r_data_recved then (False, s) else (True, s\<lparr>rst_state := data_read\<rparr>))"

definition recv_is_terminal_state :: "RecvUniStreamState \<Rightarrow> bool" where
  "recv_is_terminal_state s \<longleftrightarrow> rst_state s = data_read \<or> rst_state s = reset_read"

definition is_recv_all_state :: "RecvUniStreamState \<Rightarrow> bool" where
  "is_recv_all_state s \<longleftrightarrow> rst_state s = r_data_recved \<or> rst_state s = r_reset_recved \<or> recv_is_terminal_state s"

definition is_reset :: "RecvUniStreamState \<Rightarrow> bool" where
  "is_reset s \<longleftrightarrow> rst_state s = r_reset_recved \<or> rst_state s = reset_read"

section \<open>Automata\<close>

text \<open>
  What the operations of a state machine promise about the state they keep: an
  operation moves along an edge of the automaton or leaves the state alone, and
  the edges lead upwards in a rank, so there are no cycles.
\<close>

fun run_ops :: "('op \<Rightarrow> 's action) \<Rightarrow> 'op list \<Rightarrow> 's \<Rightarrow> 's" where
  "run_ops exec [] s = s"
| "run_ops exec (op # ops) s = run_ops exec ops (snd (exec op s))"

fun state_changes :: "('op \<Rightarrow> 's action) \<Rightarrow> ('s \<Rightarrow> 'q) \<Rightarrow> 'op list \<Rightarrow> 's \<Rightarrow> nat" where
  "state_changes exec st [] s = 0"
| "state_changes exec st (op # ops) s =
     (if st (snd (exec op s)) = st s then 0 else 1) + state_changes exec st ops (snd (exec op s))"

locale automaton =
  fixes exec :: "'op \<Rightarrow> 's action" and st :: "'s \<Rightarrow> 'q" and edge :: "'q \<Rightarrow> 'q \<Rightarrow> bool"
    and rank :: "'q \<Rightarrow> nat" and inv :: "'s \<Rightarrow> bool"
  assumes exec_edge: "st (snd (exec op s)) \<noteq> st s \<Longrightarrow> edge (st s) (st (snd (exec op s)))"
    and edge_rank: "edge a b \<Longrightarrow> rank a < rank b"
    and exec_inv: "inv s \<Longrightarrow> inv (snd (exec op s))"
begin

lemma run_inv: "inv s \<Longrightarrow> inv (run_ops exec ops s)"
  by (induction ops arbitrary: s) (simp_all add: exec_inv)

lemma run_path: "edge\<^sup>*\<^sup>* (st s) (st (run_ops exec ops s))"
proof (induction ops arbitrary: s)
  case (Cons op ops)
  show ?case
  proof (cases "st (snd (exec op s)) = st s")
    case True
    then show ?thesis using Cons [of "snd (exec op s)"] by simp
  next
    case False
    then show ?thesis
      using converse_rtranclp_into_rtranclp [OF exec_edge Cons] by simp
  qed
qed simp

lemma changes_rank: "rank (st s) + state_changes exec st ops s \<le> rank (st (run_ops exec ops s))"
proof (induction ops arbitrary: s)
  case (Cons op ops)
  note IH = Cons [of "snd (exec op s)"]
  show ?case
    using exec_edge [of op s] edge_rank [of "st s" "st (snd (exec op s))"] IH
    by (cases "st (snd (exec op s)) = st s") simp_all
qed simp

lemma run_stays:
  assumes "\<And>q. \<not> edge (st s) q"
  shows "st (run_ops exec ops s) = st s"
  using run_path [of s ops] assms by (metis converse_rtranclpE)

end

subsection \<open>Sending\<close>

datatype send_op =
    OpSend u64 | OpSent | OpSentAck | OpReset | OpResetAck | OpSetErrorCode u64 | OpRecvStopSending u64
  | OpUpdateSendLimit u64

fun send_exec :: "send_op \<Rightarrow> SendUniStreamState action" where
  "send_exec (OpSend n) s = send_send n s"
| "send_exec OpSent s = send_sent s"
| "send_exec OpSentAck s = sent_ack s"
| "send_exec OpReset s = send_reset s"
| "send_exec OpResetAck s = reset_ack s"
| "send_exec (OpSetErrorCode c) s = set_error_code c s"
| "send_exec (OpRecvStopSending c) s = (True, send_recv_stop_sending c s)"
| "send_exec (OpUpdateSendLimit n) s = update_send_limit n s"

inductive send_edge :: "SendState \<Rightarrow> SendState \<Rightarrow> bool" where
  "send_edge ready send"
| "send_edge send data_sent"
| "send_edge data_sent data_recved"
| "send_edge ready reset_sent"
| "send_edge send reset_sent"
| "send_edge data_sent reset_sent"
| "send_edge reset_sent reset_recved"

inductive_simps send_edge_simps [simp]:
  "send_edge ready q" "send_edge send q" "send_edge data_sent q" "send_edge data_recved q" "send_edge reset_sent q"
  "send_edge reset_recved q"

fun send_rank :: "SendState \<Rightarrow> nat" where
  "send_rank ready = 0"
| "send_rank send = 1"
| "send_rank data_sent = 2"
| "send_rank reset_sent = 3"
| "send_rank data_recved = 4"
| "send_rank reset_recved = 4"

definition send_wf :: "SendUniStreamState \<Rightarrow> bool" where
  "send_wf s \<longleftrightarrow> lim_inv (sst_limit s) \<and>
     (sst_reset_flags s AND flag_reset_sent \<noteq> 0 \<longleftrightarrow> sst_state s = reset_sent \<or> sst_state s = reset_recved)"

lemmas send_op_defs = send_send_def send_sent_def sent_ack_def send_reset_def reset_ack_def set_error_code_def
  set_error_code_impl_def send_recv_stop_sending_def update_send_limit_def on_send_limit_def can_send_def

lemma reset_flag_bits:
  "flag_reset_sent \<noteq> 0" "(x OR flag_reset_sent) AND flag_reset_sent = flag_reset_sent"
  "(x OR flag_reset_by_peer) AND flag_reset_sent = x AND flag_reset_sent"
  "(x OR flag_reset_by_local) AND flag_reset_sent = x AND flag_reset_sent"
  by (auto simp: flag_reset_sent_def flag_reset_by_peer_def flag_reset_by_local_def bit.conj_disj_distrib2 or_eq_0_iff)

lemma update_limit_inv: "lim_inv l \<Longrightarrow> lim_inv (snd (update_limit n l))"
  using lim_credit.raise_inv by blast

interpretation send_auto: automaton send_exec sst_state send_edge send_rank send_wf
proof
  fix op s
  show "sst_state (snd (send_exec op s)) \<noteq> sst_state s \<Longrightarrow> send_edge (sst_state s) (sst_state (snd (send_exec op s)))"
    by (cases op; cases "sst_state s") (auto simp: send_op_defs split: prod.splits if_splits)
  show "send_wf s \<Longrightarrow> send_wf (snd (send_exec op s))"
    using update_use_inv(1) [of "sst_limit s"] update_limit_inv [of "sst_limit s"]
    by (cases op) (auto simp: send_op_defs send_wf_def reset_flag_bits split_beta split: if_splits)
qed (auto elim: send_edge.cases)

lemma update_limit_used: "lim_used (snd (update_limit n l)) = lim_used l"
  by (simp add: update_limit_def)

lemma update_limit_grows: "lim_inv l \<Longrightarrow> lim_limit l \<le> lim_limit (snd (update_limit n l))"
  using lim_credit.raise_grows [of l n] by (simp add: word_le_nat_alt)

lemma send_exec_bytes:
  assumes "send_wf s"
  shows "sent_bytes s \<le> sent_bytes (snd (send_exec op s))" "send_limit s \<le> send_limit (snd (send_exec op s))"
    and "\<not> can_send s \<Longrightarrow> sent_bytes (snd (send_exec op s)) = sent_bytes s \<and> \<not> can_send (snd (send_exec op s))"
proof -
  have l: "lim_inv (sst_limit s)" using assms by (simp add: send_wf_def)
  show "sent_bytes s \<le> sent_bytes (snd (send_exec op s))"
    by (cases op) (simp_all add: send_op_defs sent_bytes_def split_beta update_use_inv(2) [OF l] update_limit_used)
  show "send_limit s \<le> send_limit (snd (send_exec op s))"
    by (cases op) (simp_all add: send_op_defs send_limit_def split_beta update_use_inv(3) [OF l] update_limit_grows [OF l])
  show "\<not> can_send s \<Longrightarrow> sent_bytes (snd (send_exec op s)) = sent_bytes s \<and> \<not> can_send (snd (send_exec op s))"
    by (cases op) (auto simp: send_op_defs sent_bytes_def update_limit_used split_beta)
qed

lemma send_run_bytes:
  "send_wf s \<Longrightarrow> sent_bytes s \<le> sent_bytes (run_ops send_exec ops s) \<and> send_limit s \<le> send_limit (run_ops send_exec ops s)
     \<and> (\<not> can_send s \<longrightarrow> sent_bytes (run_ops send_exec ops s) = sent_bytes s)"
proof (induction ops arbitrary: s)
  case (Cons op ops)
  note IH = Cons.IH [OF send_auto.exec_inv [OF Cons.prems], of op]
  show ?case using IH send_exec_bytes [OF Cons.prems, of op] by auto
qed simp

subsection \<open>Receiving\<close>

datatype recv_op =
    OpRecv u64 | OpSizeKnown | OpRecvReset u64 u64 | OpStopSending u64 | OpMaxStreamDataSent | OpResetRead | OpRecved
  | OpDataRead | OpUpdateRecvLimit u64

fun recv_exec :: "recv_op \<Rightarrow> RecvUniStreamState action" where
  "recv_exec (OpRecv n) s = recv_recv n s"
| "recv_exec OpSizeKnown s = recv_size_known s"
| "recv_exec (OpRecvReset n c) s = recv_reset n c s"
| "recv_exec (OpStopSending c) s = stop_sending c s"
| "recv_exec OpMaxStreamDataSent s = (True, max_stream_data_sent s)"
| "recv_exec OpResetRead s = recv_reset_read s"
| "recv_exec OpRecved s = recv_recved s"
| "recv_exec OpDataRead s = recv_data_read s"
| "recv_exec (OpUpdateRecvLimit n) s = update_recv_limit n s"

inductive recv_edge :: "RecvState \<Rightarrow> RecvState \<Rightarrow> bool" where
  "recv_edge pre_recv recv"
| "recv_edge recv size_known"
| "recv_edge size_known r_data_recved"
| "recv_edge r_data_recved data_read"
| "recv_edge pre_recv r_reset_recved"
| "recv_edge recv r_reset_recved"
| "recv_edge size_known r_reset_recved"
| "recv_edge r_data_recved r_reset_recved"
| "recv_edge r_reset_recved reset_read"

inductive_simps recv_edge_simps [simp]:
  "recv_edge pre_recv q" "recv_edge recv q" "recv_edge size_known q" "recv_edge r_data_recved q"
  "recv_edge r_reset_recved q" "recv_edge data_read q" "recv_edge reset_read q"

fun recv_rank :: "RecvState \<Rightarrow> nat" where
  "recv_rank pre_recv = 0"
| "recv_rank recv = 1"
| "recv_rank size_known = 2"
| "recv_rank r_data_recved = 3"
| "recv_rank r_reset_recved = 4"
| "recv_rank data_read = 5"
| "recv_rank reset_read = 5"

definition recv_wf :: "RecvUniStreamState \<Rightarrow> bool" where
  "recv_wf s \<longleftrightarrow> lim_inv (rst_limit s)"

lemmas recv_op_defs = recv_recv_def recv_size_known_def recv_reset_def stop_sending_def max_stream_data_sent_def
  recv_reset_read_def recv_recved_def recv_data_read_def update_recv_limit_def can_recv_def is_recv_def is_size_known_def

interpretation recv_auto: automaton recv_exec rst_state recv_edge recv_rank recv_wf
proof
  fix op s
  show "rst_state (snd (recv_exec op s)) \<noteq> rst_state s \<Longrightarrow> recv_edge (rst_state s) (rst_state (snd (recv_exec op s)))"
    by (cases op; cases "rst_state s") (auto simp: recv_op_defs Let_def split: prod.splits if_splits)
  show "recv_wf s \<Longrightarrow> recv_wf (snd (recv_exec op s))"
    using update_use_inv(1) [of "rst_limit s"] update_limit_inv [of "rst_limit s"]
    by (cases op) (auto simp: recv_op_defs recv_wf_def Let_def split_beta)
qed (auto elim: recv_edge.cases)

lemma recv_exec_bytes:
  assumes "recv_wf s"
  shows "recv_bytes s \<le> recv_bytes (snd (recv_exec op s))" "recv_limit s \<le> recv_limit (snd (recv_exec op s))"
    and "is_size_known s \<Longrightarrow> recv_bytes (snd (recv_exec op s)) = recv_bytes s"
proof -
  have l: "lim_inv (rst_limit s)" using assms by (simp add: recv_wf_def)
  show "recv_bytes s \<le> recv_bytes (snd (recv_exec op s))"
    by (cases op) (simp_all add: recv_op_defs recv_bytes_def Let_def split_beta update_use_inv(2) [OF l] update_limit_used)
  show "recv_limit s \<le> recv_limit (snd (recv_exec op s))"
    by (cases op) (simp_all add: recv_op_defs recv_limit_def Let_def split_beta update_use_inv(3) [OF l] update_limit_grows [OF l])
  show "is_size_known s \<Longrightarrow> recv_bytes (snd (recv_exec op s)) = recv_bytes s"
    using update_use_inv [OF l] update_limit_used
    by (cases op) (auto simp: recv_op_defs recv_bytes_def Let_def split_beta update_use_def)
qed

section \<open>Properties\<close>

text \<open>
  C4. The sending side of a stream implements the sending automaton of the
  protocol: whatever operations are called in whatever order, the state moves
  along its edges, at most four times, terminal states are kept, the bytes sent
  never exceed the limit, both only grow, and once the data or a reset are sent the final size is fixed.
\<close>

theorem send_stream_refines:
  fixes s :: SendUniStreamState and ops :: "send_op list"
  assumes "send_wf s"
  defines "t \<equiv> run_ops send_exec ops s"
  shows "send_edge\<^sup>*\<^sup>* (sst_state s) (sst_state t) \<and> state_changes send_exec sst_state ops s \<le> 4
     \<and> (send_is_terminal_state s \<longrightarrow> sst_state t = sst_state s)
     \<and> send_wf t \<and> sent_bytes t \<le> send_limit t \<and> sent_bytes s \<le> sent_bytes t \<and> send_limit s \<le> send_limit t
     \<and> (\<not> can_send s \<longrightarrow> sent_bytes t = sent_bytes s)"
proof -
  have "send_rank q \<le> 4" for q by (cases q) simp_all
  then have "state_changes send_exec sst_state ops s \<le> 4"
    using send_auto.changes_rank [of s ops] by (meson add_leE le_trans)
  moreover have "send_is_terminal_state s \<longrightarrow> sst_state t = sst_state s"
    using send_auto.run_stays [of s ops] by (auto simp: send_is_terminal_state_def t_def)
  moreover have wf: "send_wf t" unfolding t_def by (rule send_auto.run_inv [OF assms(1)])
  moreover have "sent_bytes t \<le> send_limit t" using wf by (simp add: send_wf_def lim_inv_def sent_bytes_def send_limit_def)
  ultimately show ?thesis
    using send_auto.run_path [of s ops] send_run_bytes [OF assms(1), of ops] by (simp add: t_def)
qed

theorem send_stream_refines_witness:
  "send_edge\<^sup>*\<^sup>* ready (sst_state (run_ops send_exec [OpUpdateSendLimit 9, OpSend 5, OpSent, OpReset, OpSend 6] send_init))
   \<and> sent_bytes (run_ops send_exec [OpUpdateSendLimit 9, OpSend 5, OpSent, OpReset, OpSend 6] send_init) = 5"
proof -
  have "send_wf send_init" by (simp add: send_wf_def send_init_def lim_inv_def limiter_zero_def)
  from send_stream_refines [OF this, of "[OpUpdateSendLimit 9, OpSend 5, OpSent, OpReset, OpSend 6]"]
  show ?thesis
    by (simp add: send_op_defs send_init_def limiter_zero_def update_limit_def update_use_def border_def sent_bytes_def)
qed

text \<open>
  C24. Every edge of the sending automaton can be taken: in each state there is an
  operation that succeeds and moves along it, so the stream can always be brought to an end.
\<close>

theorem send_stream_complete:
  assumes "send_edge (sst_state s) q"
  shows "\<exists>op. fst (send_exec op s) \<and> sst_state (snd (send_exec op s)) = q"
  using assms
proof cases
  case 1
  then show ?thesis by (intro exI [of _ "OpSend 0"]) (simp add: send_op_defs update_use_def)
next
  case 2
  then show ?thesis by (intro exI [of _ OpSent]) (simp add: send_op_defs)
next
  case 3
  then show ?thesis by (intro exI [of _ OpSentAck]) (simp add: send_op_defs)
next
  case 7
  then show ?thesis by (intro exI [of _ OpResetAck]) (simp add: send_op_defs)
qed (intro exI [of _ OpReset], simp add: send_op_defs)+

theorem send_stream_complete_witness:
  "\<exists>op. fst (send_exec op send_init) \<and> sst_state (snd (send_exec op send_init)) = reset_sent"
  using send_stream_complete [of send_init reset_sent] by (simp add: send_init_def)



text \<open>
  C38. The final size is not protected everywhere. A FIN at an offset below what was
  already received is taken, and after all data were received a reset with
  another, larger final size within the limit is taken and changes the size.
\<close>

theorem recv_final_size_unprotected:
  assumes "recv_wf s"
  shows "(rst_state s = recv \<and> n < recv_bytes s \<longrightarrow>
            chain [recv_recv n, recv_size_known] s = (True, s\<lparr>rst_state := size_known\<rparr>))
     \<and> (rst_state s = r_data_recved \<and> recv_bytes s < m \<and> m \<le> recv_limit s \<longrightarrow>
            fst (recv_reset m code s) \<and> recv_bytes (snd (recv_reset m code s)) = m)"
  using assms
  by (auto simp: recv_op_defs recv_wf_def lim_inv_def recv_bytes_def recv_limit_def update_use_def)

theorem recv_final_size_unprotected_witness:
  "recv_bytes (snd (recv_reset 8 0 (recv_init\<lparr>rst_state := r_data_recved, rst_limit := \<lparr>lim_limit = 9, lim_used = 5\<rparr>\<rparr>))) = 8"
  using recv_final_size_unprotected [of "recv_init\<lparr>rst_state := r_data_recved, rst_limit := \<lparr>lim_limit = 9, lim_used = 5\<rparr>\<rparr>" 0 8 0]
  by (simp add: recv_wf_def lim_inv_def recv_bytes_def recv_limit_def)

end
