(* ===== verification/FrameWriter.thy ===== *)
theory FrameWriter
  imports FrameParse PacketNumber
begin

text \<open>
  The writer of frames into a packet (\<^verbatim>\<open>fnet/quic/frame/writer.h\<close>) and the status
  it keeps of what kinds of frames the packet holds (\<^verbatim>\<open>fnet/quic/packet/summary.h\<close>).
\<close>

section \<open>Packet status\<close>

type_synonym PacketStatus = byte

definition flag_is_ack_eliciting :: byte where "flag_is_ack_eliciting = 0x1"

definition flag_is_byte_counted :: byte where "flag_is_byte_counted = 0x2"

definition flag_is_non_path_probe :: byte where "flag_is_non_path_probe = 0x4"

definition flag_is_mtu_probe :: byte where "flag_is_mtu_probe = 0x8"

definition flag_is_skip :: byte where "flag_is_skip = 0x10"

definition is_ack_eliciting :: "PacketStatus \<Rightarrow> bool" where
  "is_ack_eliciting flags \<longleftrightarrow> flags AND flag_is_ack_eliciting \<noteq> 0"

definition is_byte_counted :: "PacketStatus \<Rightarrow> bool" where
  "is_byte_counted flags \<longleftrightarrow> flags AND flag_is_byte_counted \<noteq> 0"

definition is_non_path_probe :: "PacketStatus \<Rightarrow> bool" where
  "is_non_path_probe flags \<longleftrightarrow> flags AND flag_is_non_path_probe \<noteq> 0"

definition is_mtu_probe :: "PacketStatus \<Rightarrow> bool" where
  "is_mtu_probe flags \<longleftrightarrow> flags AND flag_is_non_path_probe \<noteq> 0"

definition is_skipped :: "PacketStatus \<Rightarrow> bool" where
  "is_skipped flags \<longleftrightarrow> flags AND flag_is_skip \<noteq> 0"

definition set_mtu_probe :: "PacketStatus \<Rightarrow> PacketStatus" where
  "set_mtu_probe flags = flags OR flag_is_mtu_probe"

definition set_skipped :: "PacketStatus \<Rightarrow> PacketStatus" where
  "set_skipped flags = flags OR flag_is_skip"

definition add_flag :: "bool \<Rightarrow> byte \<Rightarrow> PacketStatus \<Rightarrow> PacketStatus" where
  "add_flag f flag flags = flags OR (if f then flag else 0)"

definition add_frame :: "FrameType \<Rightarrow> PacketStatus \<Rightarrow> PacketStatus" where
  "add_frame type flags =
     (let flags = add_flag (is_ack_eliciting flags \<or> is_ACKEliciting type) flag_is_ack_eliciting flags;
          flags = add_flag (is_byte_counted flags \<or> is_ByteCounted type) flag_is_byte_counted flags
      in add_flag (is_non_path_probe flags \<or> \<not> is_PathProbe type) flag_is_non_path_probe flags)"

section \<open>Frame writer\<close>

record fwriter =
  fw_w :: writer
  fw_status :: PacketStatus
  fw_prev_type :: FrameType

definition make_fwriter :: "writer \<Rightarrow> fwriter" where
  "make_fwriter w = \<lparr>fw_w = w, fw_status = 0, fw_prev_type = FT PADDING\<rparr>"

definition fw_remain :: "fwriter \<Rightarrow> byte list" where
  "fw_remain fw = writer_remain (fw_w fw)"

definition fw_write :: "any_frame \<Rightarrow> fwriter action" where
  "fw_write frame fw =
     (let fw = fw\<lparr>fw_prev_type := any_get_type frame\<rparr> in
      case any_render frame (fw_w fw) of (ok, w) \<Rightarrow>
        if \<not> ok then (False, fw\<lparr>fw_w := w\<rparr>)
        else (True, fw\<lparr>fw_w := w, fw_status := add_frame (any_get_type frame) (fw_status fw)\<rparr>))"

definition add_padding_for_encryption :: "WireVal \<Rightarrow> nat \<Rightarrow> fwriter \<Rightarrow> fwriter" where
  "add_padding_for_encryption wire auth_tag fw =
     (if length (written (fw_w fw)) + unat (wv_len wire) < auth_tag
      then (let fw = snd (fw_write (PaddingF frame_fresh) fw)
            in fw\<lparr>fw_w := snd (writer_fill 0 (auth_tag - length (written (fw_w fw)) - unat (wv_len wire)) (fw_w fw))\<rparr>)
      else fw)"

section \<open>Lemmas\<close>

lemmas status_flags = flag_is_ack_eliciting_def flag_is_byte_counted_def flag_is_non_path_probe_def
  flag_is_mtu_probe_def flag_is_skip_def

lemmas status_defs = is_ack_eliciting_def is_byte_counted_def is_non_path_probe_def is_mtu_probe_def is_skipped_def
  set_mtu_probe_def set_skipped_def add_flag_def

lemma status_or:
  "(x OR y) AND (z :: byte) = (x AND z) OR (y AND z)"
  by (rule bit.conj_disj_distrib2)

lemma add_frame_status:
  "is_ack_eliciting (add_frame t st) \<longleftrightarrow> is_ack_eliciting st \<or> is_ACKEliciting t"
  "is_byte_counted (add_frame t st) \<longleftrightarrow> is_byte_counted st \<or> is_ByteCounted t"
  "is_non_path_probe (add_frame t st) \<longleftrightarrow> is_non_path_probe st \<or> \<not> is_PathProbe t"
  "is_skipped (add_frame t st) \<longleftrightarrow> is_skipped st"
  by (auto simp: add_frame_def Let_def status_defs status_or status_flags or_eq_0_iff)

lemma fw_write_ok:
  assumes "any_wf fr" "any_ok fr" "writer_wf (fw_w fw)" "any_len fr \<le> room (fw_w fw)"
  shows "fw_write fr fw = (True, fw\<lparr>fw_w := emit (any_enc fr) (fw_w fw), fw_prev_type := any_get_type fr,
            fw_status := add_frame (any_get_type fr) (fw_status fw)\<rparr>)"
  using encodes_simps(1) [OF any_encodes [OF assms(1)] assms(2,3)] assms(4) any_len_enc [OF assms(1,2)]
  by (simp add: fw_write_def Let_def)

lemma fw_write_fail:
  assumes "any_wf fr" "writer_wf (fw_w fw)" "\<not> (any_ok fr \<and> any_len fr \<le> room (fw_w fw))"
  shows "\<not> fst (fw_write fr fw) \<and> writer_wf (fw_w (snd (fw_write fr fw)))"
proof -
  have "\<not> (any_ok fr \<and> length (any_enc fr) \<le> room (fw_w fw))" using assms(3) any_len_enc [OF assms(1)] by auto
  then have "\<not> fst (any_render fr (fw_w fw)) \<and> writer_wf (snd (any_render fr (fw_w fw)))"
    using any_encodes [OF assms(1)] assms(2) unfolding encodes_def by presburger
  then show ?thesis by (simp add: fw_write_def Let_def split_beta)
qed

lemma fw_write_all:
  assumes "payload frs" "writer_wf (fw_w fw)" "sum_list (map any_len frs) \<le> room (fw_w fw)"
  shows "\<exists>fw'. chain (map fw_write frs) fw = (True, fw') \<and> fw_w fw' = emit (payload_enc frs) (fw_w fw)
     \<and> (is_ack_eliciting (fw_status fw') \<longleftrightarrow> is_ack_eliciting (fw_status fw) \<or> (\<exists>fr \<in> set frs. is_ACKEliciting (any_get_type fr)))
     \<and> (is_byte_counted (fw_status fw') \<longleftrightarrow> is_byte_counted (fw_status fw) \<or> (\<exists>fr \<in> set frs. is_ByteCounted (any_get_type fr)))
     \<and> (is_non_path_probe (fw_status fw') \<longleftrightarrow> is_non_path_probe (fw_status fw) \<or> (\<exists>fr \<in> set frs. \<not> is_PathProbe (any_get_type fr)))"
  using assms
proof (induction frs arbitrary: fw)
  case Nil
  then show ?case by (simp add: payload_enc_def)
next
  case (Cons fr frs)
  then have fr: "any_wf fr" "any_ok fr" "any_len fr \<le> room (fw_w fw)" "payload frs"
    and rest: "sum_list (map any_len frs) \<le> room (fw_w fw) - any_len fr" by auto
  have l: "length (any_enc fr) = any_len fr" using any_len_enc [OF fr(1,2)] by simp
  define fw1 where "fw1 = snd (fw_write fr fw)"
  have w: "fw_write fr fw = (True, fw1)" "fw_w fw1 = emit (any_enc fr) (fw_w fw)"
    "fw_status fw1 = add_frame (any_get_type fr) (fw_status fw)"
    using fw_write_ok [OF fr(1,2) Cons.prems(2) fr(3)] by (simp_all add: fw1_def)
  have wf1: "writer_wf (fw_w fw1)" "sum_list (map any_len frs) \<le> room (fw_w fw1)"
    using emit_wf emit_room Cons.prems(2) fr(3) l rest w(2) by simp_all
  have e: "emit (payload_enc frs) (fw_w fw1) = emit (payload_enc (fr # frs)) (fw_w fw)"
    using emit_append [of "fw_w fw" "any_enc fr" "payload_enc frs"] Cons.prems(2,3) l payload_len [OF fr(4)] w(2)
    by (simp add: payload_enc_def)
  show ?case using Cons.IH [OF fr(4) wf1] e w by (auto simp: add_frame_status)
qed

text \<open>The padding for header protection reaches the size of the sample, if there is room.\<close>

lemma written_length: "writer_wf w \<Longrightarrow> length (written w) = w_index w"
  by (simp add: written_def writer_wf_def rsubstr_def)

lemma fill_length: "writer_wf w \<Longrightarrow> k \<le> room w \<Longrightarrow> w_index (snd (writer_fill b k w)) = w_index w + k"
  by (simp add: writer_fill_def rsubstr_def writer_wf_def room_def Let_def)

lemma fill_wf: "writer_wf w \<Longrightarrow> k \<le> room w \<Longrightarrow> writer_wf (snd (writer_fill b k w))"
  by (simp add: writer_fill_def rsubstr_def writer_wf_def room_def Let_def)

lemma padding_for_encryption:
  assumes "writer_wf (fw_w fw)" "auth_tag \<le> w_index (fw_w fw) + room (fw_w fw)"
  shows "auth_tag \<le> length (written (fw_w (add_padding_for_encryption wire auth_tag fw))) + unat (wv_len wire)"
proof (cases "length (written (fw_w fw)) + unat (wv_len wire) < auth_tag")
  case True
  let ?w = "emit [0] (fw_w fw)"
  have r: "any_len (PaddingF frame_fresh) \<le> room (fw_w fw)"
    using True assms written_length [OF assms(1)] by (simp add: typeonly_lens)
  have l: "length [0 :: byte] \<le> room (fw_w fw)" using r by (simp add: typeonly_lens)
  have fw1: "fw_w (snd (fw_write (PaddingF frame_fresh) fw)) = ?w"
    using fw_write_ok [OF _ _ assms(1) r] padding_enc [of frame_fresh] by (simp del: any_enc.simps any_get_type.simps)
  have w: "writer_wf ?w" "room ?w = room (fw_w fw) - 1" "w_index ?w = w_index (fw_w fw) + 1"
    using emit_wf [OF assms(1) l] emit_room [OF assms(1) l] by simp_all
  define k where "k = auth_tag - length (written ?w) - unat (wv_len wire)"
  have k: "k \<le> room ?w" using assms(2) w l written_length [OF w(1)] by (simp add: k_def)
  have "add_padding_for_encryption wire auth_tag fw = (snd (fw_write (PaddingF frame_fresh) fw))\<lparr>fw_w := snd (writer_fill 0 k ?w)\<rparr>"
    using True fw1 by (simp add: add_padding_for_encryption_def Let_def k_def del: any_get_type.simps)
  then show ?thesis
    using fill_length [OF w(1) k, of 0] fill_wf [OF w(1) k, of 0] written_length [OF w(1)]
    by (simp add: written_length k_def)
qed (simp add: add_padding_for_encryption_def)

text \<open>
  The MTU probe flag is never read: the query looks at the flag of non-probing
  frames, so a packet marked as an MTU probe is not one and an ordinary packet is.
\<close>

lemma mtu_probe_wrong_flag: "is_mtu_probe (set_mtu_probe st) \<longleftrightarrow> is_non_path_probe st"
  by (simp add: status_defs status_or status_flags)

section \<open>Properties\<close>

text \<open>
  C21. The status of a packet summarises its frames: after a sequence of frames was
  written into a fresh packet, it is ack-eliciting, counted in flight, or more
  than a path probe exactly if one of the frames is, and its bytes are the
  frames' bytes in order.
\<close>

theorem packet_status_summarises:
  assumes "payload frs" and "writer_wf w" and "sum_list (map any_len frs) \<le> room w"
  shows "\<exists>fw. chain (map fw_write frs) (make_fwriter w) = (True, fw) \<and> fw_w fw = emit (payload_enc frs) w
     \<and> (is_ack_eliciting (fw_status fw) \<longleftrightarrow> (\<exists>fr \<in> set frs. is_ACKEliciting (any_get_type fr)))
     \<and> (is_byte_counted (fw_status fw) \<longleftrightarrow> (\<exists>fr \<in> set frs. is_ByteCounted (any_get_type fr)))
     \<and> (is_non_path_probe (fw_status fw) \<longleftrightarrow> (\<exists>fr \<in> set frs. \<not> is_PathProbe (any_get_type fr)))"
  using fw_write_all [OF assms(1), of "make_fwriter w"] assms(2,3)
  by (simp add: make_fwriter_def status_defs)

theorem packet_status_summarises_witness:
  "\<exists>fw. chain (map fw_write [PaddingF frame_fresh, PingF frame_fresh]) (make_fwriter (make_writer [0, 0])) = (True, fw)
     \<and> is_ack_eliciting (fw_status fw)"
proof -
  have "is_ACKEliciting (FT PING)" by (simp add: is_ACKEliciting_def is_ACK_def is_CONNECTION_CLOSE_def FT.simps)
  then show ?thesis
    using packet_status_summarises [of "[PaddingF frame_fresh, PingF frame_fresh]" "make_writer [0, 0]"]
    by (auto simp: typeonly_lens make_writer_def writer_wf_def room_def typeonly_get_type_def simp del: chain.simps)
qed

end
