(* ===== verification/ConnBase.thy ===== *)
theory ConnBase
  imports StreamState FrameWriter
begin

text \<open>
  Streams of a connection (\<^verbatim>\<open>fnet/quic/stream/core/issue_accept.h\<close> and
  \<^verbatim>\<open>conn_base.h\<close>): issuing and accepting stream identifiers, connection flow
  control, and the frames about them. The locks of the source protect the same
  state against other threads; the model has one sequence of operations. A callback is represented by
  the arguments it is called with, in order, where it only receives results, and
  is a function argument where its result is used.
\<close>

section \<open>Results and errors\<close>

datatype IOResult = io_ok | io_id_mismatch | io_not_in_io_state | io_no_data | io_block_by_stream
  | io_block_by_conn | io_no_capacity | io_cancel | io_invalid_data | io_fatal

datatype TransportError = NO_ERROR | INTERNAL_ERROR | CONNECTION_REFUSED | FLOW_CONTROL_ERROR | STREAM_LIMIT_ERROR
  | STREAM_STATE_ERROR | FINAL_SIZE_ERROR | FRAME_ENCODING_ERROR | TRANSPORT_PARAMETER_ERROR
  | CONNECTION_ID_LIMIT_ERROR | PROTOCOL_VIOLATION | INVALID_TOKEN | APPLICATION_ERROR | CRYPTO_BUFFER_EXCEEDED
  | KEY_UPDATE_ERROR | AEAD_LIMIT_REACHED | NO_VIABLE_PATH | CRYPTO_ERROR

record QUICError =
  qe_msg :: string
  qe_transport_error :: TransportError
  qe_frame_type :: FrameType

text \<open>\<^verbatim>\<open>error::Error\<close>: no error, an error of the transport, or an error of the library itself.\<close>

datatype error = error_none | error_quic QUICError | error_lib string

definition quic_error :: "string \<Rightarrow> TransportError \<Rightarrow> FrameType \<Rightarrow> error" where
  "quic_error msg te ft = error_quic \<lparr>qe_msg = msg, qe_transport_error = te, qe_frame_type = ft\<rparr>"

section \<open>Issuing and accepting identifiers\<close>

record StreamIDAcceptor =
  ac_limit :: Limiter
  ac_type :: StreamType
  ac_origin :: Origin
  ac_should_send_limit_update :: bool

definition make_acceptor :: "StreamType \<Rightarrow> StreamIDAcceptor" where
  "make_acceptor t = \<lparr>ac_limit = limiter_zero, ac_type = t, ac_origin = origin_unknown, ac_should_send_limit_update = False\<rparr>"

definition acceptor_accept :: "StreamID \<Rightarrow> StreamIDAcceptor \<Rightarrow> error \<times> StreamIDAcceptor" where
  "acceptor_accept new_id a =
     (if \<not> id_valid new_id \<or> id_type new_id \<noteq> ac_type a
        then (quic_error ''invalid stream_id or type not matched. library bug!'' INTERNAL_ERROR (FT PADDING), a)
      else if id_origin new_id \<noteq> ac_origin a
        then (quic_error ''stream id provided by peer has not valid direction flag'' STREAM_STATE_ERROR (FT PADDING), a)
      else case update_use (id_seq_count new_id + 1) (ac_limit a) of (ok, l) \<Rightarrow>
        if \<not> ok then (quic_error ''stream over concurrency limit received'' FLOW_CONTROL_ERROR (FT PADDING), a\<lparr>ac_limit := l\<rparr>)
        else (error_none, a\<lparr>ac_limit := l\<rparr>))"

definition is_accepted :: "StreamID \<Rightarrow> StreamIDAcceptor \<Rightarrow> bool" where
  "is_accepted sid a \<longleftrightarrow> id_origin sid = ac_origin a \<and> id_type sid = ac_type a \<and> id_seq_count sid < lim_used (ac_limit a)"

definition acceptor_update_limit :: "u64 \<Rightarrow> StreamIDAcceptor action" where
  "acceptor_update_limit new_limit a =
     (case update_limit new_limit (ac_limit a) of (res, l) \<Rightarrow>
        (res, a\<lparr>ac_limit := l, ac_should_send_limit_update := (res \<or> ac_should_send_limit_update a)\<rparr>))"

record StreamIDIssuer =
  isu_limit :: Limiter
  isu_type :: StreamType
  isu_origin :: Origin

definition make_issuer :: "StreamType \<Rightarrow> StreamIDIssuer" where
  "make_issuer t = \<lparr>isu_limit = limiter_zero, isu_type = t, isu_origin = origin_unknown\<rparr>"

definition issuer_next :: "StreamIDIssuer \<Rightarrow> StreamID" where
  "issuer_next i = make_id (lim_used (isu_limit i)) (isu_origin i) (isu_type i)"

definition issuer_issue :: "StreamIDIssuer \<Rightarrow> StreamID \<times> StreamIDIssuer" where
  "issuer_issue i =
     (let res = issuer_next i in
      if \<not> id_valid res then (invalid_id, i)
      else case limiter_use 1 (isu_limit i) of (ok, l) \<Rightarrow>
        if \<not> ok then (invalid_id, i\<lparr>isu_limit := l\<rparr>) else (res, i\<lparr>isu_limit := l\<rparr>))"

definition is_issued :: "StreamID \<Rightarrow> StreamIDIssuer \<Rightarrow> bool" where
  "is_issued sid i \<longleftrightarrow> id_origin sid = isu_origin i \<and> id_type sid = isu_type i \<and> id_seq_count sid < lim_used (isu_limit i)"

definition issuer_update_limit :: "u64 \<Rightarrow> StreamIDIssuer \<Rightarrow> error \<times> StreamIDIssuer" where
  "issuer_update_limit new_limit i =
     (if new_limit \<ge> push_bit 60 1
      then (quic_error '''' FRAME_ENCODING_ERROR (if isu_type i = stream_bidi then FT MAX_STREAMS else FT MAX_STREAMS_UNI), i)
      else (error_none, i\<lparr>isu_limit := snd (update_limit new_limit (isu_limit i))\<rparr>))"

record ConnFlowLimit =
  cf_send :: Limiter
  cf_recv :: Limiter
  cf_should_send_limit_update :: bool

definition flow_update_recv_limit :: "u64 \<Rightarrow> ConnFlowLimit action" where
  "flow_update_recv_limit lim c =
     (case update_limit lim (cf_recv c) of (res, l) \<Rightarrow>
        (res, c\<lparr>cf_recv := l, cf_should_send_limit_update := (res \<or> cf_should_send_limit_update c)\<rparr>))"

record InitialLimits =
  il_conn_data_limit :: u64
  il_bidi_stream_limit :: u64
  il_uni_stream_limit :: u64
  il_bidi_stream_data_local_limit :: u64
  il_bidi_stream_data_remote_limit :: u64
  il_uni_stream_data_limit :: u64

definition initial_limits_zero :: InitialLimits where
  "initial_limits_zero = \<lparr>il_conn_data_limit = 0, il_bidi_stream_limit = 0, il_uni_stream_limit = 0,
     il_bidi_stream_data_local_limit = 0, il_bidi_stream_data_remote_limit = 0, il_uni_stream_data_limit = 0\<rparr>"

record StreamsState =
  s_uni_issuer :: StreamIDIssuer
  s_bidi_issuer :: StreamIDIssuer
  s_uni_acceptor :: StreamIDAcceptor
  s_bidi_acceptor :: StreamIDAcceptor
  s_conn_flow :: ConnFlowLimit
  s_send_ini_limit :: InitialLimits
  s_recv_ini_limit :: InitialLimits

definition streams_init :: StreamsState where
  "streams_init = \<lparr>s_uni_issuer = make_issuer stream_uni, s_bidi_issuer = make_issuer stream_bidi,
     s_uni_acceptor = make_acceptor stream_uni, s_bidi_acceptor = make_acceptor stream_bidi,
     s_conn_flow = \<lparr>cf_send = limiter_zero, cf_recv = limiter_zero, cf_should_send_limit_update = False\<rparr>,
     s_send_ini_limit = initial_limits_zero, s_recv_ini_limit = initial_limits_zero\<rparr>"

definition streams_set_dir :: "Origin \<Rightarrow> StreamsState \<Rightarrow> StreamsState" where
  "streams_set_dir orig s = s
     \<lparr>s_uni_issuer := (s_uni_issuer s)\<lparr>isu_origin := orig\<rparr>,
      s_bidi_issuer := (s_bidi_issuer s)\<lparr>isu_origin := orig\<rparr>,
      s_uni_acceptor := (s_uni_acceptor s)\<lparr>ac_origin := inverse_origin orig\<rparr>,
      s_bidi_acceptor := (s_bidi_acceptor s)\<lparr>ac_origin := inverse_origin orig\<rparr>\<rparr>"

definition peer_origin :: "StreamsState \<Rightarrow> Origin" where
  "peer_origin s = ac_origin (s_uni_acceptor s)"

definition local_origin :: "StreamsState \<Rightarrow> Origin" where
  "local_origin s = isu_origin (s_uni_issuer s)"

definition set_send_initial_limit :: "InitialLimits \<Rightarrow> StreamsState \<Rightarrow> StreamsState" where
  "set_send_initial_limit lim s = s
     \<lparr>s_send_ini_limit := lim,
      s_uni_issuer := (s_uni_issuer s)\<lparr>isu_limit := snd (set_limit (il_uni_stream_limit lim) (isu_limit (s_uni_issuer s)))\<rparr>,
      s_bidi_issuer := (s_bidi_issuer s)\<lparr>isu_limit := snd (set_limit (il_bidi_stream_limit lim) (isu_limit (s_bidi_issuer s)))\<rparr>,
      s_conn_flow := (s_conn_flow s)\<lparr>cf_send := snd (set_limit (il_conn_data_limit lim) (cf_send (s_conn_flow s)))\<rparr>\<rparr>"

definition set_recv_initial_limit :: "InitialLimits \<Rightarrow> StreamsState \<Rightarrow> StreamsState" where
  "set_recv_initial_limit lim s = s
     \<lparr>s_recv_ini_limit := lim,
      s_uni_acceptor := (s_uni_acceptor s)\<lparr>ac_limit := snd (set_limit (il_uni_stream_limit lim) (ac_limit (s_uni_acceptor s)))\<rparr>,
      s_bidi_acceptor := (s_bidi_acceptor s)\<lparr>ac_limit := snd (set_limit (il_bidi_stream_limit lim) (ac_limit (s_bidi_acceptor s)))\<rparr>,
      s_conn_flow := (s_conn_flow s)\<lparr>cf_recv := snd (set_limit (il_conn_data_limit lim) (cf_recv (s_conn_flow s)))\<rparr>\<rparr>"

section \<open>Connection\<close>

text \<open>
  \<^verbatim>\<open>ConnectionBase\<close> is its \<^verbatim>\<open>StreamsState\<close>. The callback of \<open>use_send_credit\<close>
  computes the amount to use from what is available and the limit, and updates the
  variables it captures.
\<close>

definition use_send_credit :: "(u64 \<Rightarrow> u64 \<Rightarrow> 'c \<Rightarrow> u64 \<times> 'c) \<Rightarrow> (StreamsState \<times> 'c) action" where
  "use_send_credit cb sc =
     (case sc of (s, c) \<Rightarrow>
        case cb (avail_size (cf_send (s_conn_flow s))) (lim_limit (cf_send (s_conn_flow s))) c of (reqsize, c') \<Rightarrow>
          if reqsize = 0 then (True, (s, c'))
          else case limiter_use reqsize (cf_send (s_conn_flow s)) of (ok, l) \<Rightarrow>
            (ok, (s\<lparr>s_conn_flow := (s_conn_flow s)\<lparr>cf_send := l\<rparr>\<rparr>, c')))"

definition use_recv_credit :: "u64 \<Rightarrow> StreamsState action" where
  "use_recv_credit use_delta s =
     (case limiter_use use_delta (cf_recv (s_conn_flow s)) of (ok, l) \<Rightarrow>
        (ok, s\<lparr>s_conn_flow := (s_conn_flow s)\<lparr>cf_recv := l\<rparr>\<rparr>))"

definition recv_max_data :: "MaxDataFrame \<Rightarrow> StreamsState action" where
  "recv_max_data f s =
     (case update_limit (vval (md_max_data f)) (cf_send (s_conn_flow s)) of (ok, l) \<Rightarrow>
        (ok, s\<lparr>s_conn_flow := (s_conn_flow s)\<lparr>cf_send := l\<rparr>\<rparr>))"

definition recv_max_streams :: "MaxStreamsFrame \<Rightarrow> StreamsState \<Rightarrow> error \<times> StreamsState" where
  "recv_max_streams f s =
     (if type_detail (f_type f) = FT MAX_STREAMS_UNI
        then (case issuer_update_limit (vval (ms_max_streams f)) (s_uni_issuer s) of (e, i) \<Rightarrow> (e, s\<lparr>s_uni_issuer := i\<rparr>))
      else if type_detail (f_type f) = FT MAX_STREAMS
        then (case issuer_update_limit (vval (ms_max_streams f)) (s_bidi_issuer s) of (e, i) \<Rightarrow> (e, s\<lparr>s_bidi_issuer := i\<rparr>))
      else (error_none, s))"

text \<open>
  \<^verbatim>\<open>recv\<close> is given a frame by its base class and looks at the type field before it
  casts it down; the frame of the model is the one the parser hands over, and None
  is the downcast of an object of another class.
\<close>

fun any_type_field :: "any_frame \<Rightarrow> FrameFlags" where
  "any_type_field (PaddingF f) = f_type f"
| "any_type_field (PingF f) = f_type f"
| "any_type_field (AckF f) = f_type f"
| "any_type_field (ResetStreamF f) = f_type f"
| "any_type_field (StopSendingF f) = f_type f"
| "any_type_field (CryptoF f) = f_type f"
| "any_type_field (NewTokenF f) = f_type f"
| "any_type_field (StreamF f) = f_type f"
| "any_type_field (MaxDataF f) = f_type f"
| "any_type_field (MaxStreamDataF f) = f_type f"
| "any_type_field (MaxStreamsF f) = f_type f"
| "any_type_field (DataBlockedF f) = f_type f"
| "any_type_field (StreamDataBlockedF f) = f_type f"
| "any_type_field (StreamsBlockedF f) = f_type f"
| "any_type_field (NewConnectionIDF f) = f_type f"
| "any_type_field (RetireConnectionIDF f) = f_type f"
| "any_type_field (PathChallengeF f) = f_type f"
| "any_type_field (PathResponseF f) = f_type f"
| "any_type_field (ConnectionCloseF f) = f_type f"
| "any_type_field (HandshakeDoneF f) = f_type f"
| "any_type_field (DatagramF f) = f_type f"
| "any_type_field (UnknownF f) = f_type f"

definition conn_recv :: "any_frame \<Rightarrow> StreamsState \<Rightarrow> (error \<times> StreamsState) option" where
  "conn_recv frame s =
     (let t = type_detail (any_type_field frame) in
      if is_MAX_STREAMS t then (case frame of MaxStreamsF f \<Rightarrow> Some (recv_max_streams f s) | _ \<Rightarrow> None)
      else if t = FT MAX_DATA then (case frame of MaxDataF f \<Rightarrow> Some (error_none, snd (recv_max_data f s)) | _ \<Rightarrow> None)
      else if t = FT DATA_BLOCKED \<or> is_STREAMS_BLOCKED t then Some (error_none, s)
      else Some (quic_error ''unexpected frame type. expect MAX_STREAMS(bidi/uni) or MAX_DATA'' INTERNAL_ERROR (FT PADDING), s))"

definition update_max_data :: "(Limiter \<Rightarrow> u64 \<Rightarrow> u64) \<Rightarrow> StreamsState action" where
  "update_max_data decide_new_limit s =
     (let new_limit = decide_new_limit (cf_recv (s_conn_flow s)) (il_conn_data_limit (s_recv_ini_limit s)) in
      case flow_update_recv_limit new_limit (s_conn_flow s) of (res, c) \<Rightarrow> (res, s\<lparr>s_conn_flow := c\<rparr>))"

definition update_max_uni_streams :: "(Limiter \<Rightarrow> u64 \<Rightarrow> u64) \<Rightarrow> StreamsState action" where
  "update_max_uni_streams decide_new_limit s =
     (let new_limit = decide_new_limit (ac_limit (s_uni_acceptor s)) (il_uni_stream_limit (s_recv_ini_limit s)) in
      case acceptor_update_limit new_limit (s_uni_acceptor s) of (res, a) \<Rightarrow> (res, s\<lparr>s_uni_acceptor := a\<rparr>))"

definition update_max_bidi_streams :: "(Limiter \<Rightarrow> u64 \<Rightarrow> u64) \<Rightarrow> StreamsState action" where
  "update_max_bidi_streams decide_new_limit s =
     (let new_limit = decide_new_limit (ac_limit (s_bidi_acceptor s)) (il_bidi_stream_limit (s_recv_ini_limit s)) in
      case acceptor_update_limit new_limit (s_bidi_acceptor s) of (res, a) \<Rightarrow> (res, s\<lparr>s_bidi_acceptor := a\<rparr>))"

subsection \<open>Frames about limits\<close>

definition send_max_data :: "fwriter \<Rightarrow> StreamsState \<Rightarrow> IOResult \<times> fwriter \<times> StreamsState" where
  "send_max_data w s =
     (let frame = MaxDataF (max_data_fresh\<lparr>md_max_data := Value (lim_limit (cf_recv (s_conn_flow s)))\<rparr>) in
      if length (fw_remain w) < any_len frame then (io_no_capacity, w, s)
      else case fw_write frame w of (ok, w') \<Rightarrow>
        if \<not> ok then (io_fatal, w', s)
        else (io_ok, w', s\<lparr>s_conn_flow := (s_conn_flow s)\<lparr>cf_should_send_limit_update := False\<rparr>\<rparr>))"

definition send_max_data_if_updated :: "fwriter \<Rightarrow> StreamsState \<Rightarrow> IOResult \<times> fwriter \<times> StreamsState" where
  "send_max_data_if_updated w s =
     (if \<not> cf_should_send_limit_update (s_conn_flow s) then (io_not_in_io_state, w, s) else send_max_data w s)"

definition send_max_uni_streams :: "fwriter \<Rightarrow> StreamsState \<Rightarrow> IOResult \<times> fwriter \<times> StreamsState" where
  "send_max_uni_streams w s =
     (let frame = MaxStreamsF (max_streams_fresh\<lparr>f_type := FrameFlags_of (FT MAX_STREAMS_UNI),
                    ms_max_streams := Value (lim_limit (ac_limit (s_uni_acceptor s)))\<rparr>) in
      if length (fw_remain w) < any_len frame then (io_no_capacity, w, s)
      else case fw_write frame w of (ok, w') \<Rightarrow>
        if \<not> ok then (io_fatal, w', s)
        else (io_ok, w', s\<lparr>s_uni_acceptor := (s_uni_acceptor s)\<lparr>ac_should_send_limit_update := False\<rparr>\<rparr>))"

definition send_max_uni_streams_if_updated :: "fwriter \<Rightarrow> StreamsState \<Rightarrow> IOResult \<times> fwriter \<times> StreamsState" where
  "send_max_uni_streams_if_updated w s =
     (if \<not> ac_should_send_limit_update (s_uni_acceptor s) then (io_not_in_io_state, w, s) else send_max_uni_streams w s)"

definition send_max_bidi_streams :: "fwriter \<Rightarrow> StreamsState \<Rightarrow> IOResult \<times> fwriter \<times> StreamsState" where
  "send_max_bidi_streams w s =
     (let frame = MaxStreamsF (max_streams_fresh\<lparr>f_type := FrameFlags_of (FT MAX_STREAMS),
                    ms_max_streams := Value (lim_limit (ac_limit (s_bidi_acceptor s)))\<rparr>) in
      if length (fw_remain w) < any_len frame then (io_no_capacity, w, s)
      else case fw_write frame w of (ok, w') \<Rightarrow>
        if \<not> ok then (io_fatal, w', s)
        else (io_ok, w', s\<lparr>s_bidi_acceptor := (s_bidi_acceptor s)\<lparr>ac_should_send_limit_update := False\<rparr>\<rparr>))"

definition send_max_bidi_streams_if_updated :: "fwriter \<Rightarrow> StreamsState \<Rightarrow> IOResult \<times> fwriter \<times> StreamsState" where
  "send_max_bidi_streams_if_updated w s =
     (if \<not> ac_should_send_limit_update (s_bidi_acceptor s) then (io_not_in_io_state, w, s) else send_max_bidi_streams w s)"

definition send_conn_blocked :: "u64 \<Rightarrow> fwriter \<Rightarrow> IOResult \<times> fwriter" where
  "send_conn_blocked max_data w =
     (if max_data \<ge> border 8 then (io_invalid_data, w)
      else let blocked = DataBlockedF (max_data_fresh\<lparr>md_max_data := Value max_data\<rparr>) in
        if length (fw_remain w) < any_len blocked then (io_no_capacity, w)
        else case fw_write blocked w of (ok, w') \<Rightarrow> (if ok then io_ok else io_fatal, w'))"

definition send_streams_blocked :: "u64 \<Rightarrow> bool \<Rightarrow> fwriter \<Rightarrow> IOResult \<times> fwriter" where
  "send_streams_blocked max_streams uni w =
     (if max_streams \<ge> border 8 then (io_invalid_data, w)
      else let blocked = StreamsBlockedF (max_streams_fresh
                 \<lparr>f_type := FrameFlags_of (if uni then FT MAX_STREAMS_UNI else FT MAX_STREAMS),
                  ms_max_streams := Value max_streams\<rparr>) in
        if length (fw_remain w) < any_len blocked then (io_no_capacity, w)
        else case fw_write blocked w of (ok, w') \<Rightarrow> (if ok then io_ok else io_fatal, w'))"

subsection \<open>Opening and accepting streams\<close>

text \<open>The arguments of the callback of \<^verbatim>\<open>open_impl\<close>: the identifier and whether the peer's limit blocks it.\<close>

definition open_impl :: "StreamIDIssuer \<Rightarrow> (StreamID \<times> bool) \<times> StreamIDIssuer" where
  "open_impl issuer =
     (case issuer_issue issuer of (sid, issuer') \<Rightarrow>
        if \<not> id_valid sid then ((sid, on_limit (isu_limit issuer') 1), issuer') else ((sid, False), issuer'))"

definition open_uni :: "StreamsState \<Rightarrow> (StreamID \<times> bool) \<times> StreamsState" where
  "open_uni s = (case open_impl (s_uni_issuer s) of (r, i) \<Rightarrow> (r, s\<lparr>s_uni_issuer := i\<rparr>))"

definition open_bidi :: "StreamsState \<Rightarrow> (StreamID \<times> bool) \<times> StreamsState" where
  "open_bidi s = (case open_impl (s_bidi_issuer s) of (r, i) \<Rightarrow> (r, s\<lparr>s_bidi_issuer := i\<rparr>))"

text \<open>The calls of the callback of \<^verbatim>\<open>accept_impl\<close>, in order: the identifier, whether a higher one created it, the error.\<close>

type_synonym accept_call = "StreamID \<times> bool \<times> error"

definition accept_impl :: "StreamID \<Rightarrow> StreamIDAcceptor \<Rightarrow> accept_call list \<times> StreamIDAcceptor" where
  "accept_impl sid acceptor =
     (let current_usage = lim_used (ac_limit acceptor) in
      case acceptor_accept sid acceptor of (err, a) \<Rightarrow>
        if err \<noteq> error_none then ([(sid, False, err)], a)
        else (map (\<lambda>i. (make_id (of_nat i) (ac_origin a) (ac_type a), of_nat i \<noteq> id_seq_count sid, error_none))
                [unat current_usage ..< unat (lim_used (ac_limit a))], a))"

definition conn_accept :: "StreamID \<Rightarrow> StreamsState \<Rightarrow> accept_call list \<times> StreamsState" where
  "conn_accept sid s =
     (let first = (if id_type sid = stream_unknown
                   then [(sid, False, quic_error ''invalid stream id by peer? or library bug'' PROTOCOL_VIOLATION (FT PADDING))]
                   else []) in
      if id_type sid = stream_bidi
      then (case accept_impl sid (s_bidi_acceptor s) of (calls, a) \<Rightarrow> (first @ calls, s\<lparr>s_bidi_acceptor := a\<rparr>))
      else (case accept_impl sid (s_uni_acceptor s) of (calls, a) \<Rightarrow> (first @ calls, s\<lparr>s_uni_acceptor := a\<rparr>)))"

definition check_recv_frame :: "FrameType \<Rightarrow> StreamID \<Rightarrow> StreamsState \<Rightarrow> bool \<times> error" where
  "check_recv_frame t sid s =
     (let unexpected = (False, quic_error ''unexpected stream type. library bug!!'' INTERNAL_ERROR (FT PADDING)) in
      if id_origin sid = local_origin s then
        (if id_type sid = stream_bidi then
           (if \<not> is_issued sid (s_bidi_issuer s)
              then (True, quic_error ''not created stream id on bidirectional stream'' PROTOCOL_VIOLATION t)
            else if \<not> is_BidiStreamOK t
              then (True, quic_error ''not allowed frame type for bidirectional stream. library bug!'' STREAM_STATE_ERROR t)
            else (True, error_none))
         else if id_type sid = stream_uni then
           (if \<not> is_issued sid (s_uni_issuer s)
              then (True, quic_error ''not created stream id on unidirectional stream'' PROTOCOL_VIOLATION t)
            else if \<not> is_UniStreamReceiverOK t
              then (True, quic_error ''not allowed frame type for sending unidirectional stream.'' STREAM_STATE_ERROR t)
            else (True, error_none))
         else unexpected)
      else if id_origin sid = peer_origin s then
        (if id_type sid = stream_bidi then
           (if \<not> is_BidiStreamOK t
              then (True, quic_error ''not allowed frame type for bidirectional stream. library bug!'' STREAM_STATE_ERROR t)
            else (False, error_none))
         else
           (if \<not> is_UniStreamSenderOK t
              then (True, quic_error ''not allowed frame type for receiving unidirectional stream.'' STREAM_STATE_ERROR t)
            else (False, error_none)))
      else unexpected)"

section \<open>Contracts\<close>

text \<open>Both directions of the connection's flow control are credit counters.\<close>

definition spend_send :: "u64 \<Rightarrow> StreamsState action" where
  "spend_send n s = (case use_send_credit (\<lambda>_ _ c. (n, c)) (s, ()) of (ok, (s', _)) \<Rightarrow> (ok, s'))"

definition raise_send :: "u64 \<Rightarrow> StreamsState action" where
  "raise_send n = recv_max_data (max_data_fresh\<lparr>md_max_data := Value n\<rparr>)"

definition raise_recv :: "u64 \<Rightarrow> StreamsState action" where
  "raise_recv n = update_max_data (\<lambda>_ _. n)"

lemma limiter_use_zero: "lim_inv l \<Longrightarrow> limiter_use 0 l = (True, l)"
  by (simp add: limiter_use_def on_limit_def)

lemma use_send_credit_limiter:
  "lim_inv (cf_send (s_conn_flow s)) \<Longrightarrow>
   use_send_credit cb (s, c) =
     (case cb (avail_size (cf_send (s_conn_flow s))) (lim_limit (cf_send (s_conn_flow s))) c of (n, c') \<Rightarrow>
        case limiter_use n (cf_send (s_conn_flow s)) of (ok, l) \<Rightarrow>
          (ok, (s\<lparr>s_conn_flow := (s_conn_flow s)\<lparr>cf_send := l\<rparr>\<rparr>, c')))"
  by (auto simp: use_send_credit_def limiter_use_zero split: prod.splits)

interpretation conn_send: credit_counter spend_send raise_send "\<lambda>s. lim_inv (cf_send (s_conn_flow s))"
    "\<lambda>s. unat (lim_limit (cf_send (s_conn_flow s)))" "\<lambda>s. unat (lim_used (cf_send (s_conn_flow s)))"
  using lim_credit.inv_bound lim_credit.spend_iff lim_credit.spend_used lim_credit.spend_inv lim_credit.raise_inv
    lim_credit.raise_grows
  by unfold_locales
    (simp_all add: spend_send_def raise_send_def use_send_credit_limiter recv_max_data_def Value_def split_beta)

interpretation conn_recv_flow: credit_counter use_recv_credit raise_recv "\<lambda>s. lim_inv (cf_recv (s_conn_flow s))"
    "\<lambda>s. unat (lim_limit (cf_recv (s_conn_flow s)))" "\<lambda>s. unat (lim_used (cf_recv (s_conn_flow s)))"
  using lim_credit.inv_bound lim_credit.spend_iff lim_credit.spend_used lim_credit.spend_inv lim_credit.raise_inv
    lim_credit.raise_grows
  by unfold_locales
    (simp_all add: use_recv_credit_def raise_recv_def update_max_data_def flow_update_recv_limit_def Let_def split_beta)

subsection \<open>Opening\<close>

definition issuer_wf :: "StreamIDIssuer \<Rightarrow> bool" where
  "issuer_wf i \<longleftrightarrow> lim_inv (isu_limit i) \<and> lim_limit (isu_limit i) \<le> 2 ^ 60
     \<and> isu_origin i \<noteq> origin_unknown \<and> isu_type i \<noteq> stream_unknown"

fun open_n :: "nat \<Rightarrow> StreamIDIssuer \<Rightarrow> (StreamID \<times> bool) list \<times> StreamIDIssuer" where
  "open_n 0 i = ([], i)"
| "open_n (Suc n) i = (case open_impl i of (r, i') \<Rightarrow> case open_n n i' of (rs, i'') \<Rightarrow> (r # rs, i''))"

lemma invalid_id_invalid: "\<not> id_valid invalid_id"
  by (simp add: id_valid_iff invalid_id_def)

lemma open_impl_open:
  assumes "issuer_wf i" "lim_used (isu_limit i) < lim_limit (isu_limit i)"
  shows "open_impl i = ((make_id (lim_used (isu_limit i)) (isu_origin i) (isu_type i), False),
            i\<lparr>isu_limit := (isu_limit i)\<lparr>lim_used := lim_used (isu_limit i) + 1\<rparr>\<rparr>)"
    and "issuer_wf (snd (open_impl i))"
    and "unat (lim_used (isu_limit i) + 1) = Suc (unat (lim_used (isu_limit i)))"
proof -
  let ?l = "isu_limit i"
  have inv: "lim_inv ?l" using assms(1) by (simp add: issuer_wf_def)
  have use: "limiter_use 1 ?l = (True, ?l\<lparr>lim_used := lim_used ?l + 1\<rparr>)"
    using lim_credit.spend_iff [OF inv, of 1] assms(2) by (auto simp: limiter_use_def word_less_nat_alt split: if_splits)
  have "lim_used ?l < 2 ^ 60" using assms by (auto simp: issuer_wf_def)
  then have v: "id_valid (issuer_next i)"
    using assms(1) by (simp add: issuer_next_def make_id_valid id_args_ok_def issuer_wf_def)
  then show o: "open_impl i = ((make_id (lim_used (isu_limit i)) (isu_origin i) (isu_type i), False),
            i\<lparr>isu_limit := (isu_limit i)\<lparr>lim_used := lim_used (isu_limit i) + 1\<rparr>\<rparr>)"
    using use by (simp add: open_impl_def issuer_issue_def issuer_next_def Let_def)
  show "issuer_wf (snd (open_impl i))"
    using lim_credit.spend_inv [OF inv, of 1] use assms(1) by (simp add: o issuer_wf_def)
  show "unat (lim_used ?l + 1) = Suc (unat (lim_used ?l))"
    using lim_credit.spend_used [OF inv, of 1] use by simp
qed

lemma open_impl_blocked:
  assumes "issuer_wf i" "lim_used (isu_limit i) = lim_limit (isu_limit i)"
  shows "open_impl i = ((invalid_id, True), i)"
  using assms invalid_id_invalid
  by (auto simp: open_impl_def issuer_issue_def limiter_use_def on_limit_def avail_size_def Let_def)

lemma upt_min_Suc: "a < b \<Longrightarrow> [a ..< a + min (Suc n) (b - a)] = a # [Suc a ..< Suc a + min n (b - Suc a)]"
proof -
  assume "a < b"
  then have "a + min (Suc n) (b - a) = Suc a + min n (b - Suc a)" by linarith
  then show ?thesis by (simp only:) (rule upt_conv_Cons, simp)
qed

lemma open_n_ids:
  assumes "issuer_wf i"
  defines "avail \<equiv> unat (lim_limit (isu_limit i)) - unat (lim_used (isu_limit i))"
  shows "fst (open_n n i) = map (\<lambda>k. (make_id (of_nat k) (isu_origin i) (isu_type i), False))
            [unat (lim_used (isu_limit i)) ..< unat (lim_used (isu_limit i)) + min n avail]
          @ replicate (n - avail) (invalid_id, True)"
  using assms(1) unfolding avail_def
proof (induction n arbitrary: i)
  case (Suc n)
  let ?l = "isu_limit i"
  have le: "unat (lim_used ?l) \<le> unat (lim_limit ?l)"
    using Suc.prems lim_credit.inv_bound by (simp add: issuer_wf_def)
  show ?case
  proof (cases "lim_used ?l < lim_limit ?l")
    case True
    note o = open_impl_open [OF Suc.prems True]
    have lt: "unat (lim_used ?l) < unat (lim_limit ?l)" using True by (simp add: word_less_nat_alt)
    define i' where "i' = i\<lparr>isu_limit := ?l\<lparr>lim_used := lim_used ?l + 1\<rparr>\<rparr>"
    have i': "open_impl i = ((make_id (lim_used ?l) (isu_origin i) (isu_type i), False), i')"
      "issuer_wf i'" "unat (lim_used (isu_limit i')) = Suc (unat (lim_used ?l))" "lim_limit (isu_limit i') = lim_limit ?l"
      "isu_origin i' = isu_origin i" "isu_type i' = isu_type i"
      using o by (simp_all add: i'_def)
    have e: "[unat (lim_used ?l) ..< unat (lim_used ?l) + min (Suc n) (unat (lim_limit ?l) - unat (lim_used ?l))]
       = unat (lim_used ?l) # [Suc (unat (lim_used ?l)) ..< Suc (unat (lim_used ?l)) + min n (unat (lim_limit ?l) - Suc (unat (lim_used ?l)))]"
      using lt upt_min_Suc by blast
    show ?thesis
      unfolding e using Suc.IH [OF i'(2)] i' lt by (simp add: split_beta Suc_diff_Suc)
  next
    case False
    then have eq: "lim_used ?l = lim_limit ?l" using le by (simp add: word_less_nat_alt word_eq_iff_unsigned [where ?'a = nat])
    show ?thesis
      using Suc.IH [OF Suc.prems] open_impl_blocked [OF Suc.prems eq] eq by (simp add: split_beta)
  qed
qed simp

subsection \<open>Accepting\<close>

lemma seq_count_Suc:
  assumes "id_valid sid"
  shows "unat (id_seq_count sid + 1) = Suc (unat (id_seq_count sid))"
proof -
  have "unat (id_seq_count sid) + unat (1 :: u64) < 2 ^ LENGTH(64)"
    using seq_count_lt [OF assms] by (simp add: word_less_nat_alt)
  then show ?thesis using unat_add_lem [of "id_seq_count sid" 1] by simp
qed

lemma accept_impl_calls:
  assumes "lim_inv (ac_limit a)" "id_valid sid" "id_type sid = ac_type a" "id_origin sid = ac_origin a"
    and "id_seq_count sid < lim_limit (ac_limit a)"
  shows "accept_impl sid a =
     (map (\<lambda>i. (make_id (of_nat i) (ac_origin a) (ac_type a), i \<noteq> unat (id_seq_count sid), error_none))
        [unat (lim_used (ac_limit a)) ..< Suc (unat (id_seq_count sid))],
      a\<lparr>ac_limit := (ac_limit a)\<lparr>lim_used := max (lim_used (ac_limit a)) (id_seq_count sid + 1)\<rparr>\<rparr>)"
proof -
  let ?l = "ac_limit a" and ?q = "id_seq_count sid"
  have q: "unat (?q + 1) = Suc (unat ?q)" using seq_count_Suc [OF assms(2)] .
  have use: "update_use (?q + 1) ?l = (True, ?l\<lparr>lim_used := max (lim_used ?l) (?q + 1)\<rparr>)"
  proof -
    have "\<not> lim_limit ?l < ?q + 1" using assms(5) q by (simp add: word_less_nat_alt)
    then show ?thesis by (cases "lim_used ?l < ?q + 1") (simp_all add: update_use_def max_def not_less)
  qed
  have m: "unat (max (lim_used ?l) (?q + 1)) = max (unat (lim_used ?l)) (Suc (unat ?q))"
    using q by (auto simp: max_def word_le_nat_alt)
  have e: "[unat (lim_used ?l) ..< max (unat (lim_used ?l)) (Suc (unat ?q))] = [unat (lim_used ?l) ..< Suc (unat ?q)]"
    by (auto simp: max_def)
  have n: "(of_nat i :: u64) = ?q \<longleftrightarrow> i = unat ?q" if "i < Suc (unat ?q)" for i
    using that seq_count_lt [OF assms(2)] unat_of_nat_u64 [of i]
    by (auto simp: word_less_nat_alt word_eq_iff_unsigned [where ?'a = nat])
  show ?thesis
    using use assms by (auto simp: accept_impl_def acceptor_accept_def Let_def m e n simp del: upt_Suc)
qed

lemma accept_impl_over:
  assumes "id_valid sid" "id_type sid = ac_type a" "id_origin sid = ac_origin a"
    and "lim_limit (ac_limit a) \<le> id_seq_count sid"
  shows "accept_impl sid a =
     ([(sid, False, quic_error ''stream over concurrency limit received'' FLOW_CONTROL_ERROR (FT PADDING))], a)"
proof -
  let ?q = "id_seq_count sid"
  have "lim_limit (ac_limit a) < ?q + 1"
    using seq_count_Suc [OF assms(1)] assms(4) by (simp add: word_less_nat_alt word_le_nat_alt)
  then show ?thesis
    using assms by (simp add: accept_impl_def acceptor_accept_def update_use_def quic_error_def Let_def)
qed

section \<open>Properties\<close>

text \<open>
  C20. Streams are opened in order: opening any number of streams yields the
  consecutive identifiers from the first unused one up to the peer's limit, all of
  them not blocked, and after that only the invalid identifier with the mark that
  the peer's limit blocks it.
\<close>

theorem open_streams_consecutive:
  assumes "issuer_wf i"
  shows "fst (open_n n i) =
     map (\<lambda>k. (make_id (of_nat k) (isu_origin i) (isu_type i), False))
       [unat (lim_used (isu_limit i)) ..< unat (lim_used (isu_limit i)) + min n (unat (lim_limit (isu_limit i)) - unat (lim_used (isu_limit i)))]
     @ replicate (n - (unat (lim_limit (isu_limit i)) - unat (lim_used (isu_limit i)))) (invalid_id, True)"
  by (rule open_n_ids [OF assms])

theorem open_streams_consecutive_witness:
  "fst (open_n 3 ((make_issuer stream_bidi)\<lparr>isu_origin := origin_client, isu_limit := \<lparr>lim_limit = 2, lim_used = 0\<rparr>\<rparr>))
   = [(make_id 0 origin_client stream_bidi, False), (make_id 1 origin_client stream_bidi, False), (invalid_id, True)]"
  using open_streams_consecutive
    [of "(make_issuer stream_bidi)\<lparr>isu_origin := origin_client, isu_limit := \<lparr>lim_limit = 2, lim_used = 0\<rparr>\<rparr>" 3]
  by (simp add: issuer_wf_def make_issuer_def lim_inv_def upt_rec)

text \<open>
  C17. Accepting a peer's stream creates every stream up to it: the callback is
  called once for each identifier not seen before, in ascending order, marked as
  created by a higher one except for the last, and afterwards exactly the
  identifiers up to the highest seen are accepted. Beyond the limit it is called
  once with an error and nothing changes.
\<close>

theorem accept_creates_all:
  assumes "lim_inv (ac_limit a)" and "id_valid sid" and "id_type sid = ac_type a" and "id_origin sid = ac_origin a"
  shows "(id_seq_count sid < lim_limit (ac_limit a) \<longrightarrow>
            fst (accept_impl sid a) =
              map (\<lambda>i. (make_id (of_nat i) (ac_origin a) (ac_type a), i \<noteq> unat (id_seq_count sid), error_none))
                [unat (lim_used (ac_limit a)) ..< Suc (unat (id_seq_count sid))]
            \<and> (\<forall>x. is_accepted x (snd (accept_impl sid a)) \<longleftrightarrow>
                 is_accepted x a \<or> id_origin x = ac_origin a \<and> id_type x = ac_type a \<and> id_seq_count x \<le> id_seq_count sid))
     \<and> (lim_limit (ac_limit a) \<le> id_seq_count sid \<longrightarrow>
            (\<exists>err. err \<noteq> error_none \<and> accept_impl sid a = ([(sid, False, err)], a)))"
proof -
  have "x < id_seq_count sid + 1 \<longleftrightarrow> x \<le> id_seq_count sid" for x
    using seq_count_Suc [OF assms(2)] by (simp add: word_less_nat_alt word_le_nat_alt less_Suc_eq_le)
  then show ?thesis
    using accept_impl_calls [OF assms] accept_impl_over [OF assms(2-4)]
    by (auto simp: is_accepted_def less_max_iff_disj quic_error_def)
qed

theorem accept_creates_all_witness:
  "fst (accept_impl (make_id 2 origin_server stream_uni)
     ((make_acceptor stream_uni)\<lparr>ac_origin := origin_server, ac_limit := \<lparr>lim_limit = 5, lim_used = 1\<rparr>\<rparr>))
   = [(make_id 1 origin_server stream_uni, True, error_none), (make_id 2 origin_server stream_uni, False, error_none)]"
proof -
  have "id_args_ok 2 origin_server stream_uni" by (simp add: id_args_ok_def)
  then show ?thesis
    using accept_creates_all [of "(make_acceptor stream_uni)\<lparr>ac_origin := origin_server, ac_limit := \<lparr>lim_limit = 5, lim_used = 1\<rparr>\<rparr>"
        "make_id 2 origin_server stream_uni"]
    by (simp add: make_id_valid make_id_fields lim_inv_def make_acceptor_def upt_rec)
qed

text \<open>
  C39. A STREAMS\_BLOCKED frame can never be sent: with room for it the result is
  fatal, because the frame is given a MAX\_STREAMS type; and accepting an
  invalid identifier calls the callback twice, since the first error does not return.
\<close>

theorem streams_blocked_never_sent:
  assumes "writer_wf (fw_w w)"
  shows "fst (send_streams_blocked max_streams uni w) \<noteq> io_ok
     \<and> (max_streams < 2 ^ 62 \<and> 9 \<le> room (fw_w w) \<longrightarrow> fst (send_streams_blocked max_streams uni w) = io_fatal)
     \<and> (\<not> id_valid sid \<longrightarrow> length (fst (conn_accept sid s)) = 2)"
proof -
  define f where "f = max_streams_fresh\<lparr>f_type := FrameFlags_of (if uni then FT MAX_STREAMS_UNI else FT MAX_STREAMS),
    ms_max_streams := Value max_streams\<rparr>"
  have "f_type f < 2 ^ 32 \<and> \<not> max_streams_ok (FT STREAMS_BLOCKED) f"
    by (simp add: f_def max_streams_ok_def max_streams_fresh_def FrameFlags_of_def ff_type_def type_detail_def
        is_STREAM_def is_MAX_STREAMS_def FT.simps Let_def)
  then have fail: "\<not> fst (fw_write (StreamsBlockedF f) w)" using fw_write_fail [of "StreamsBlockedF f" w] assms by simp
  have "any_len (StreamsBlockedF f) \<le> 9"
    using min_len_cases [of max_streams]
    by (auto simp: max_streams_len_def f_def varint_len_def Value_def type_minlen_def min_len_def [of 22]
        FrameFlags_of_def FT.simps in_range_def border_def)
  then show ?thesis
    using fail assms
    by (auto simp: send_streams_blocked_def Let_def split_beta f_def [symmetric] border_8 fw_remain_def room_remain not_le
        conn_accept_def id_type_def accept_impl_def acceptor_accept_def quic_error_def)
qed

theorem streams_blocked_never_sent_witness:
  "fst (send_streams_blocked 5 True (make_fwriter (make_writer (replicate 20 0)))) = io_fatal"
  using streams_blocked_never_sent [of "make_fwriter (make_writer (replicate 20 0))" 5 True]
  by (simp add: make_fwriter_def make_writer_def writer_wf_def room_def)

end
