(* ===== verification/StreamBase.thy ===== *)
theory StreamBase
  imports ConnBase FitSize
begin

text \<open>
  One stream over a connection (\<^verbatim>\<open>fnet/quic/stream/core/stream_base.h\<close>): sending
  data and resets, receiving data and resets, and the frames that control them.
  The data of the source are views of the application's buffer; here they are the
  bytes. Callbacks of the source that store or deliver a fragment are functions
  on the state they capture.
\<close>

section \<open>Data to send\<close>

record StreamWriteData =
  wd_src :: "byte list"
  wd_discarded_offset :: u64
  wd_written_offset :: u64
  wd_fin :: bool
  wd_fin_written :: bool

definition write_data_init :: StreamWriteData where
  "write_data_init = \<lparr>wd_src = [], wd_discarded_offset = 0, wd_written_offset = 0, wd_fin = False, wd_fin_written = False\<rparr>"

definition get_remain :: "u64 \<Rightarrow> StreamWriteData \<Rightarrow> byte list" where
  "get_remain limit d = rsubstr (wd_src d) (unat (wd_written_offset d - wd_discarded_offset d)) (unat limit)"

definition wd_update :: "u64 \<Rightarrow> byte list \<Rightarrow> bool \<Rightarrow> StreamWriteData action" where
  "wd_update new_discard new_src is_fin d =
     (let old_end = of_nat (length (wd_src d)) + wd_discarded_offset d;
          new_end = of_nat (length new_src) + new_discard in
      if (if wd_fin d then old_end \<noteq> new_end else old_end > new_end) \<or> new_discard > wd_written_offset d
      then (False, d)
      else (True, d\<lparr>wd_src := new_src, wd_discarded_offset := new_discard, wd_fin := (wd_fin d \<or> is_fin)\<rparr>))"

definition wd_remain :: "StreamWriteData \<Rightarrow> u64" where
  "wd_remain d = of_nat (length (wd_src d)) + wd_discarded_offset d - wd_written_offset d"

definition should_fin :: "StreamWriteData \<Rightarrow> bool" where
  "should_fin d \<longleftrightarrow> wd_fin d \<and> \<not> wd_fin_written d"

definition write_fin :: "StreamWriteData \<Rightarrow> StreamWriteData" where
  "write_fin d = d\<lparr>wd_fin_written := True\<rparr>"

record Fragment =
  frag_offset :: u64
  frag_fragment :: "byte list"
  frag_fin :: bool

section \<open>Sending\<close>

text \<open>The objects \<^verbatim>\<open>send_impl\<close> is given by reference, and the state of the callback that saves the fragment.\<close>

record 'c send_env =
  se_w :: fwriter
  se_conn :: StreamsState
  se_state :: SendUniStreamState
  se_data :: StreamWriteData
  se_saved :: 'c

text \<open>The variables the callback of \<^verbatim>\<open>use_send_credit\<close> captures and the callback itself.\<close>

record credit_vars =
  cv_ok :: bool
  cv_block :: bool
  cv_frame :: StreamFrame
  cv_max_conn_data :: u64

definition credit_vars_init :: credit_vars where
  "credit_vars_init = \<lparr>cv_ok = True, cv_block = False, cv_frame = stream_fresh, cv_max_conn_data = 0\<rparr>"

definition credit_cb :: "u64 \<Rightarrow> StreamID \<Rightarrow> u64 \<Rightarrow> StreamWriteData \<Rightarrow> u64 \<Rightarrow> u64 \<Rightarrow> credit_vars \<Rightarrow> u64 \<times> credit_vars" where
  "credit_cb writable_size sid payload_limit d conn_limit max_data v =
     (let v = v\<lparr>cv_max_conn_data := max_data\<rparr>;
          flow_control_limit = (if conn_limit < payload_limit then conn_limit else payload_limit) in
      if flow_control_limit = 0 \<and> \<not> should_fin d then (0, v\<lparr>cv_block := True\<rparr>)
      else case make_fit_size_Stream writable_size sid (wd_written_offset d) (get_remain flow_control_limit d)
                  (should_fin d) (should_fin d) of (frame, ok) \<Rightarrow>
        (if ok then of_nat (length (sf_stream_data frame)) else 0, v\<lparr>cv_frame := frame, cv_ok := ok\<rparr>))"

definition send_impl :: "StreamID \<Rightarrow> u64 \<Rightarrow> (Fragment \<Rightarrow> 'c action) \<Rightarrow> 'c send_env \<Rightarrow> (IOResult \<times> u64) \<times> 'c send_env" where
  "send_impl sid fairness_limit save_fragment e =
     (if \<not> can_send (se_state e) then ((io_not_in_io_state, 0), e)
      else let d = se_data e;
               writable_size = of_nat (length (fw_remain (se_w e)));
               least_overhead = calc_stream_overhead sid (wd_written_offset d) (wd_written_offset d \<noteq> 0) in
      if writable_size < least_overhead then ((io_no_capacity, 0), e)
      else let remain_data_size = wd_remain d in
      if remain_data_size = 0 \<and> \<not> should_fin d then ((io_no_data, 0), e)
      else let adjust_data_size = (if remain_data_size < fairness_limit then remain_data_size else fairness_limit);
               stream_flow_limit = sendable_size (se_state e);
               payload_limit = (if adjust_data_size < stream_flow_limit then adjust_data_size else stream_flow_limit) in
      if payload_limit = 0 \<and> \<not> should_fin d then ((io_block_by_stream, send_limit (se_state e)), e)
      else case use_send_credit (credit_cb writable_size sid payload_limit d) (se_conn e, credit_vars_init) of
        (_, (conn, v)) \<Rightarrow>
      (let e = e\<lparr>se_conn := conn\<rparr>; frame = cv_frame v; size = of_nat (length (sf_stream_data frame)) in
       if cv_block v then ((io_block_by_conn, cv_max_conn_data v), e)
       else if \<not> cv_ok v then ((io_no_capacity, 0), e)
       else case send_send (vval (sf_offset frame) + size) (se_state e) of (ok, st) \<Rightarrow>
         if \<not> ok then ((io_fatal, 0), e\<lparr>se_state := st\<rparr>)
         else let e = e\<lparr>se_state := st, se_data := d\<lparr>wd_written_offset := wd_written_offset d + size\<rparr>\<rparr> in
           case fw_write (StreamF frame) (se_w e) of (ok, w) \<Rightarrow>
             if \<not> ok then ((io_fatal, 0), e\<lparr>se_w := w\<rparr>)
             else let fin = STREAM_fin (f_type frame);
                      e = e\<lparr>se_w := w, se_state := (if fin then snd (send_sent (se_state e)) else se_state e),
                            se_data := (if fin then write_fin (se_data e) else se_data e)\<rparr> in
               case save_fragment \<lparr>frag_offset = vval (sf_offset frame), frag_fragment = sf_stream_data frame, frag_fin = fin\<rparr>
                      (se_saved e) of (ok, c) \<Rightarrow>
                 ((if \<not> ok then io_fatal else io_ok, 0), e\<lparr>se_saved := c\<rparr>)))"

record SendUniStreamBase =
  sb_id :: StreamID
  sb_state :: SendUniStreamState
  sb_data :: StreamWriteData

definition sb_update_data :: "u64 \<Rightarrow> byte list \<Rightarrow> bool \<Rightarrow> SendUniStreamBase action" where
  "sb_update_data discard src fin b = (case wd_update discard src fin (sb_data b) of (ok, d) \<Rightarrow> (ok, b\<lparr>sb_data := d\<rparr>))"

definition has_data_to_send :: "SendUniStreamBase \<Rightarrow> bool" where
  "has_data_to_send b \<longleftrightarrow> can_send (sb_state b) \<and> wd_remain (sb_data b) \<noteq> 0"

definition sb_set_initial :: "InitialLimits \<Rightarrow> Origin \<Rightarrow> SendUniStreamBase \<Rightarrow> SendUniStreamBase" where
  "sb_set_initial ini self b =
     (let set = (\<lambda>l. b\<lparr>sb_state := snd (set_send_limit l (sb_state b))\<rparr>) in
      if id_type (sb_id b) = stream_uni then set (il_uni_stream_data_limit ini)
      else if id_type (sb_id b) = stream_bidi then
        (if id_origin (sb_id b) = self then set (il_bidi_stream_data_remote_limit ini)
         else set (il_bidi_stream_data_local_limit ini))
      else b)"

definition send_stream :: "u64 \<Rightarrow> (Fragment \<Rightarrow> 'c action) \<Rightarrow> SendUniStreamBase \<Rightarrow> StreamsState \<Rightarrow> fwriter \<Rightarrow> 'c
    \<Rightarrow> (IOResult \<times> u64) \<times> SendUniStreamBase \<times> StreamsState \<times> fwriter \<times> 'c" where
  "send_stream fairness_limit save_fragment b conn w c =
     (case send_impl (sb_id b) fairness_limit save_fragment
             \<lparr>se_w = w, se_conn = conn, se_state = sb_state b, se_data = sb_data b, se_saved = c\<rparr> of (r, e) \<Rightarrow>
        (r, b\<lparr>sb_state := se_state e, sb_data := se_data e\<rparr>, se_conn e, se_w e, se_saved e))"

definition recv_max_stream_data :: "MaxStreamDataFrame \<Rightarrow> SendUniStreamBase action" where
  "recv_max_stream_data frame b =
     (if sb_id b \<noteq> vval (msd_streamID frame) then (False, b)
      else case update_send_limit (vval (msd_max_stream_data frame)) (sb_state b) of (ok, st) \<Rightarrow> (ok, b\<lparr>sb_state := st\<rparr>))"

definition reset_frame :: "SendUniStreamBase \<Rightarrow> any_frame" where
  "reset_frame b = ResetStreamF (reset_stream_fresh\<lparr>rs_streamID := Value (sb_id b),
     rs_error_code := Value (sst_error_code (sb_state b)), rs_final_size := Value (sent_bytes (sb_state b))\<rparr>)"

definition stream_send_reset :: "fwriter \<Rightarrow> SendUniStreamBase \<Rightarrow> IOResult \<times> fwriter \<times> SendUniStreamBase" where
  "stream_send_reset w b =
     (let reset = reset_frame b in
      if length (fw_remain w) < any_len reset then (io_no_capacity, w, b)
      else case send_reset (sb_state b) of (ok, st) \<Rightarrow>
        let b = b\<lparr>sb_state := st\<rparr> in
        if \<not> ok then (io_not_in_io_state, w, b)
        else case fw_write reset w of (ok, w') \<Rightarrow> (if ok then io_ok else io_fatal, w', b))"

definition send_reset_if_stop_required :: "fwriter \<Rightarrow> SendUniStreamBase \<Rightarrow> IOResult \<times> fwriter \<times> SendUniStreamBase" where
  "send_reset_if_stop_required w b =
     (if is_reset_required (sb_state b) then stream_send_reset w b else (io_not_in_io_state, w, b))"

definition send_retransmit_reset :: "fwriter \<Rightarrow> SendUniStreamBase \<Rightarrow> IOResult \<times> fwriter" where
  "send_retransmit_reset w b =
     (if \<not> can_retransmit_reset (sb_state b) then (io_not_in_io_state, w)
      else let reset = reset_frame b in
        if length (fw_remain w) < any_len reset then (io_no_capacity, w)
        else case fw_write reset w of (ok, w') \<Rightarrow> (if ok then io_ok else io_fatal, w'))"

definition stream_recv_stop_sending :: "StopSendingFrame \<Rightarrow> SendUniStreamBase \<Rightarrow> SendUniStreamBase" where
  "stream_recv_stop_sending frame b =
     (if vval (ss_streamID frame) \<noteq> sb_id b then b
      else b\<lparr>sb_state := send_recv_stop_sending (vval (ss_error_code frame)) (sb_state b)\<rparr>)"

definition request_reset :: "u64 \<Rightarrow> SendUniStreamBase \<Rightarrow> IOResult \<times> SendUniStreamBase" where
  "request_reset code b =
     (case set_error_code code (sb_state b) of (ok, st) \<Rightarrow> (if ok then io_ok else io_not_in_io_state, b\<lparr>sb_state := st\<rparr>))"

definition all_send_done :: "SendUniStreamBase action" where
  "all_send_done b = (case sent_ack (sb_state b) of (ok, st) \<Rightarrow> (ok, b\<lparr>sb_state := st\<rparr>))"

definition reset_done :: "SendUniStreamBase \<Rightarrow> IOResult \<times> SendUniStreamBase" where
  "reset_done b =
     (case reset_ack (sb_state b) of (ok, st) \<Rightarrow> (if \<not> ok then io_not_in_io_state else io_ok, b\<lparr>sb_state := st\<rparr>))"

definition send_retransmit_stream :: "u64 \<Rightarrow> byte list \<Rightarrow> bool \<Rightarrow> (Fragment \<Rightarrow> Fragment \<Rightarrow> bool \<Rightarrow> 'c action)
    \<Rightarrow> SendUniStreamBase \<Rightarrow> fwriter \<Rightarrow> 'c \<Rightarrow> IOResult \<times> fwriter \<times> 'c" where
  "send_retransmit_stream offset fragment fin save_retransmit b w c =
     (let frag_end = offset + of_nat (length fragment); written = wd_written_offset (sb_data b) in
      if \<not> can_retransmit (sb_state b) then (io_not_in_io_state, w, c)
      else if frag_end > written then (io_invalid_data, w, c)
      else if fin \<and> \<not> wd_fin_written (sb_data b) then (io_invalid_data, w, c)
      else if fin \<and> frag_end \<noteq> written then (io_invalid_data, w, c)
      else if \<not> fin \<and> frag_end > written then (io_invalid_data, w, c)
      else case make_fit_size_Stream (of_nat (length (fw_remain w))) (sb_id b) offset fragment fin fin of (frame, ok) \<Rightarrow>
        if \<not> ok then (io_no_capacity, w, c)
        else case fw_write (StreamF frame) w of (ok, w') \<Rightarrow>
          if \<not> ok then (io_fatal, w', c)
          else let sent_fin = STREAM_fin (f_type frame);
                   frag = \<lparr>frag_offset = vval (sf_offset frame), frag_fragment = sf_stream_data frame, frag_fin = sent_fin\<rparr>;
                   rest = \<lparr>frag_offset = vval (sf_offset frame) + of_nat (length (sf_stream_data frame)),
                           frag_fragment = rsubstr_from fragment (length (sf_stream_data frame)),
                           frag_fin = (fin \<and> \<not> sent_fin)\<rparr> in
            case save_retransmit frag rest (length (frag_fragment rest) \<noteq> 0) c of (ok, c') \<Rightarrow>
              (if \<not> ok then io_fatal else io_ok, w', c'))"

definition send_stream_blocked :: "StreamID \<Rightarrow> u64 \<Rightarrow> fwriter \<Rightarrow> IOResult \<times> fwriter" where
  "send_stream_blocked sid max_data w =
     (if max_data \<ge> border 8 \<or> \<not> id_valid sid then (io_invalid_data, w)
      else let blocked = StreamDataBlockedF (max_stream_data_fresh\<lparr>msd_streamID := Value sid, msd_max_stream_data := Value max_data\<rparr>) in
        if length (fw_remain w) < any_len blocked then (io_no_capacity, w)
        else case fw_write blocked w of (ok, w') \<Rightarrow> (if ok then io_ok else io_fatal, w'))"

section \<open>Receiving\<close>

record 'c recv_env =
  re_conn :: StreamsState
  re_state :: RecvUniStreamState
  re_delivered :: 'c

definition recv_impl :: "StreamFrame \<Rightarrow> StreamID \<Rightarrow> (Fragment \<Rightarrow> u64 \<Rightarrow> 'c \<Rightarrow> error \<times> 'c) \<Rightarrow> 'c recv_env
    \<Rightarrow> (IOResult \<times> error) \<times> 'c recv_env" where
  "recv_impl frame sid deliver_data e =
     (if vval (sf_streamID frame) \<noteq> sid
        then ((io_id_mismatch, error_lib ''unexpected streamID on StreamFrame. library bug!!''), e)
      else if \<not> can_recv (re_state e) then ((io_not_in_io_state, error_none), e)
      else let prev_used = recv_bytes (re_state e) in
      case recv_recv (vval (sf_offset frame) + of_nat (length (sf_stream_data frame))) (re_state e) of (ok, st) \<Rightarrow>
      let e = e\<lparr>re_state := st\<rparr> in
      if \<not> ok then ((io_block_by_stream,
             quic_error ''stream flow control limit overflow'' FLOW_CONTROL_ERROR (type_detail (f_type frame))), e)
      else let cur_used = recv_bytes st in
      case (if cur_used - prev_used \<noteq> 0 then use_recv_credit (cur_used - prev_used) (re_conn e) else (True, re_conn e)) of
        (ok, conn) \<Rightarrow>
      let e = e\<lparr>re_conn := conn\<rparr> in
      if \<not> ok then ((io_block_by_conn,
             quic_error ''connection flow control limit overflow'' FLOW_CONTROL_ERROR (type_detail (f_type frame))), e)
      else let fin = STREAM_fin (f_type frame);
               e = e\<lparr>re_state := (if fin then snd (recv_size_known (re_state e)) else re_state e)\<rparr> in
      case deliver_data \<lparr>frag_offset = vval (sf_offset frame), frag_fragment = sf_stream_data frame, frag_fin = fin\<rparr>
             cur_used (re_delivered e) of (err, c) \<Rightarrow>
      let e = e\<lparr>re_delivered := c\<rparr> in
      if err \<noteq> error_none then ((io_fatal, err), e) else ((io_ok, error_none), e))"

record RecvUniStreamBase =
  rb_id :: StreamID
  rb_state :: RecvUniStreamState

definition rb_set_initial :: "InitialLimits \<Rightarrow> Origin \<Rightarrow> RecvUniStreamBase \<Rightarrow> RecvUniStreamBase" where
  "rb_set_initial ini self b =
     (let set = (\<lambda>l. b\<lparr>rb_state := snd (set_recv_limit l (rb_state b))\<rparr>) in
      if id_type (rb_id b) = stream_uni then set (il_uni_stream_data_limit ini)
      else if id_type (rb_id b) = stream_bidi then
        (if id_origin (rb_id b) = self then set (il_bidi_stream_data_local_limit ini)
         else set (il_bidi_stream_data_remote_limit ini))
      else b)"

definition recv_stream :: "StreamFrame \<Rightarrow> (Fragment \<Rightarrow> u64 \<Rightarrow> 'c \<Rightarrow> error \<times> 'c) \<Rightarrow> RecvUniStreamBase \<Rightarrow> StreamsState \<Rightarrow> 'c
    \<Rightarrow> (IOResult \<times> error) \<times> RecvUniStreamBase \<times> StreamsState \<times> 'c" where
  "recv_stream frame deliver_data b conn c =
     (case recv_impl frame (rb_id b) deliver_data \<lparr>re_conn = conn, re_state = rb_state b, re_delivered = c\<rparr> of (r, e) \<Rightarrow>
        (r, b\<lparr>rb_state := re_state e\<rparr>, re_conn e, re_delivered e))"

definition rb_update_recv_limit :: "(Limiter \<Rightarrow> u64 \<Rightarrow> u64) \<Rightarrow> RecvUniStreamBase action" where
  "rb_update_recv_limit decide_new_limit b =
     (True, b\<lparr>rb_state := snd (update_recv_limit
        (decide_new_limit (rst_limit (rb_state b)) (rst_ini_limit (rb_state b))) (rb_state b))\<rparr>)"

definition send_max_stream_data :: "fwriter \<Rightarrow> RecvUniStreamBase \<Rightarrow> IOResult \<times> fwriter \<times> RecvUniStreamBase" where
  "send_max_stream_data w b =
     (if \<not> is_recv (rb_state b) then (io_not_in_io_state, w, b)
      else let frame = MaxStreamDataF (max_stream_data_fresh\<lparr>msd_streamID := Value (rb_id b),
                         msd_max_stream_data := Value (recv_limit (rb_state b))\<rparr>) in
        if length (fw_remain w) < any_len frame then (io_no_capacity, w, b)
        else case fw_write frame w of (ok, w') \<Rightarrow>
          if \<not> ok then (io_fatal, w', b)
          else (io_ok, w', b\<lparr>rb_state := max_stream_data_sent (rb_state b)\<rparr>))"

definition send_max_stream_data_if_updated :: "fwriter \<Rightarrow> RecvUniStreamBase \<Rightarrow> IOResult \<times> fwriter \<times> RecvUniStreamBase" where
  "send_max_stream_data_if_updated w b =
     (if \<not> rst_should_send_limit_update (rb_state b) then (io_not_in_io_state, w, b) else send_max_stream_data w b)"

definition stream_recv_reset :: "ResetStreamFrame \<Rightarrow> RecvUniStreamBase \<Rightarrow> StreamsState
    \<Rightarrow> (IOResult \<times> error) \<times> RecvUniStreamBase \<times> StreamsState" where
  "stream_recv_reset reset b conn =
     (if rb_id b \<noteq> vval (rs_streamID reset)
        then ((io_id_mismatch, error_lib ''unexpected stream id on ResetFrame. library bug!!''), b, conn)
      else let prev_used = recv_bytes (rb_state b) in
      case recv_reset (vval (rs_final_size reset)) (vval (rs_error_code reset)) (rb_state b) of (ok, st) \<Rightarrow>
      let b = b\<lparr>rb_state := st\<rparr> in
      if \<not> ok then ((io_block_by_stream,
             quic_error ''final size has no consistency'' FINAL_SIZE_ERROR (FT RESET_STREAM)), b, conn)
      else let cur_used = recv_bytes st in
      case (if cur_used - prev_used \<noteq> 0 then use_recv_credit (cur_used - prev_used) conn else (True, conn)) of (ok, conn) \<Rightarrow>
      if \<not> ok then ((io_block_by_stream,
             quic_error ''connection flow control limit violation'' FLOW_CONTROL_ERROR (FT RESET_STREAM)), b, conn)
      else ((io_ok, error_none), b, conn))"

definition request_stop_sending :: "u64 \<Rightarrow> RecvUniStreamBase action" where
  "request_stop_sending code b = (case stop_sending code (rb_state b) of (ok, st) \<Rightarrow> (ok, b\<lparr>rb_state := st\<rparr>))"

definition send_stop_sending :: "fwriter \<Rightarrow> RecvUniStreamBase \<Rightarrow> IOResult \<times> fwriter" where
  "send_stop_sending w b =
     (if \<not> rst_stop_required (rb_state b) \<or> \<not> can_stop_sending (rb_state b) then (io_not_in_io_state, w)
      else let frame = StopSendingF (stop_sending_fresh\<lparr>ss_streamID := Value (rb_id b),
                         ss_error_code := Value (rst_error_code (rb_state b))\<rparr>) in
        if length (fw_remain w) < any_len frame then (io_no_capacity, w)
        else case fw_write frame w of (ok, w') \<Rightarrow> (if ok then io_ok else io_fatal, w'))"

section \<open>Sending within the limits\<close>

definition write_data_wf :: "StreamWriteData \<Rightarrow> bool" where
  "write_data_wf d \<longleftrightarrow> wd_discarded_offset d \<le> wd_written_offset d
     \<and> unat (wd_written_offset d) \<le> length (wd_src d) + unat (wd_discarded_offset d)
     \<and> length (wd_src d) + unat (wd_discarded_offset d) < 2 ^ 62"

definition send_env_wf :: "StreamID \<Rightarrow> 'c send_env \<Rightarrow> bool" where
  "send_env_wf sid e \<longleftrightarrow> id_valid sid \<and> send_wf (se_state e) \<and> lim_inv (cf_send (s_conn_flow (se_conn e)))
     \<and> sent_bytes (se_state e) = wd_written_offset (se_data e) \<and> write_data_wf (se_data e)
     \<and> writer_wf (fw_w (se_w e)) \<and> room (fw_w (se_w e)) < 2 ^ 61"

lemma wd_remain_nat:
  assumes "write_data_wf d"
  shows "unat (wd_remain d) = length (wd_src d) + unat (wd_discarded_offset d) - unat (wd_written_offset d)"
proof -
  have l: "unat (of_nat (length (wd_src d)) :: u64) = length (wd_src d)"
    using assms by (simp add: write_data_wf_def unat_of_nat_u64)
  have s: "unat (of_nat (length (wd_src d)) + wd_discarded_offset d) = length (wd_src d) + unat (wd_discarded_offset d)"
    using unat_add_lem [of "of_nat (length (wd_src d)) :: u64" "wd_discarded_offset d"] assms l by (simp add: write_data_wf_def)
  have "wd_written_offset d \<le> of_nat (length (wd_src d)) + wd_discarded_offset d"
    using assms s by (simp add: write_data_wf_def word_le_nat_alt)
  then show ?thesis unfolding wd_remain_def using s unat_sub by metis
qed

lemma get_remain_take:
  assumes "write_data_wf d" "k \<le> wd_remain d"
  shows "get_remain k d = take (unat k) (drop (unat (wd_written_offset d) - unat (wd_discarded_offset d)) (wd_src d))"
    and "length (get_remain k d) = unat k"
proof -
  have p: "unat (wd_written_offset d - wd_discarded_offset d) = unat (wd_written_offset d) - unat (wd_discarded_offset d)"
    using assms(1) by (simp add: write_data_wf_def unat_sub)
  have k: "unat k + (unat (wd_written_offset d) - unat (wd_discarded_offset d)) \<le> length (wd_src d)"
    using assms wd_remain_nat [OF assms(1)] by (simp add: word_le_nat_alt write_data_wf_def, linarith)
  show "get_remain k d = take (unat k) (drop (unat (wd_written_offset d) - unat (wd_discarded_offset d)) (wd_src d))"
    using k by (simp add: get_remain_def rsubstr_def p Let_def)
  then show "length (get_remain k d) = unat k" using k by simp
qed

text \<open>What is left of \<^verbatim>\<open>send_impl\<close> after the credit was given for a frame.\<close>

definition sent_env :: "StreamFrame \<Rightarrow> StreamsState \<Rightarrow> 'c \<Rightarrow> 'c send_env \<Rightarrow> 'c send_env" where
  "sent_env f conn c e =
     (let size = of_nat (length (sf_stream_data f)); st = snd (send_send (vval (sf_offset f) + size) (se_state e));
          d = (se_data e)\<lparr>wd_written_offset := wd_written_offset (se_data e) + size\<rparr>; fin = STREAM_fin (f_type f) in
      e\<lparr>se_w := snd (fw_write (StreamF f) (se_w e)), se_conn := conn, se_state := (if fin then snd (send_sent st) else st),
        se_data := (if fin then write_fin d else d), se_saved := c\<rparr>)"

definition fragment_of :: "StreamFrame \<Rightarrow> Fragment" where
  "fragment_of f = \<lparr>frag_offset = vval (sf_offset f), frag_fragment = sf_stream_data f, frag_fin = STREAM_fin (f_type f)\<rparr>"

definition granted_frame :: "StreamID \<Rightarrow> u64 \<Rightarrow> 'c send_env \<Rightarrow> u64 \<Rightarrow> StreamFrame \<Rightarrow> bool" where
  "granted_frame sid fairness e k f \<longleftrightarrow>
     make_fit_size_Stream (of_nat (length (fw_remain (se_w e)))) sid (wd_written_offset (se_data e)) (get_remain k (se_data e))
       (should_fin (se_data e)) (should_fin (se_data e)) = (f, True)
     \<and> k \<le> wd_remain (se_data e) \<and> k \<le> fairness \<and> k \<le> sendable_size (se_state e)
     \<and> k \<le> avail_size (cf_send (s_conn_flow (se_conn e)))"

lemma granted_frame_spec:
  assumes "send_env_wf sid e" "granted_frame sid fairness e k f"
  defines "n \<equiv> length (sf_stream_data f)"
  shows "n \<le> unat k" "sf_stream_data f = take n (drop (unat (wd_written_offset (se_data e)) - unat (wd_discarded_offset (se_data e))) (wd_src (se_data e)))"
    and "STREAM_fin (f_type f) \<longleftrightarrow> should_fin (se_data e) \<and> n = unat k"
    and "vval (sf_streamID f) = sid" "vval (sf_offset f) = wd_written_offset (se_data e)"
    and "any_wf (StreamF f)" "any_ok (StreamF f)" "any_len (StreamF f) \<le> room (fw_w (se_w e))"
proof -
  let ?d = "se_data e" and ?w = "fw_w (se_w e)"
  have wf: "write_data_wf ?d" "writer_wf ?w" "room ?w < 2 ^ 61" "id_valid sid"
    using assms(1) by (simp_all add: send_env_wf_def)
  have ws: "length (fw_remain (se_w e)) = room ?w" by (simp add: fw_remain_def room_remain)
  have u: "uint (of_nat (room ?w) :: u64) = int (room ?w)"
  proof -
    have "unat (of_nat (room ?w) :: u64) = room ?w" using wf(3) by (simp add: unat_of_nat_u64)
    then show ?thesis by (metis uint_nat)
  qed
  note k = get_remain_take [OF wf(1), of k]
  have kr: "k \<le> wd_remain ?d" using assms(2) by (simp add: granted_frame_def)
  have b: "unat k < 2 ^ 62" "wd_written_offset ?d < 2 ^ 62"
    using kr wd_remain_nat [OF wf(1)] wf(1) by (auto simp: write_data_wf_def word_le_nat_alt word_less_nat_alt)
  have fit: "int (stream_len False f) \<le> uint (of_nat (room ?w) :: u64)"
    "\<exists>m \<le> length (get_remain k ?d). sf_stream_data f = take m (get_remain k ?d) \<and> (STREAM_fin (f_type f) \<longleftrightarrow> should_fin ?d \<and> m = length (get_remain k ?d))"
    "vval (sf_streamID f) = sid" "vval (sf_offset f) = wd_written_offset ?d" "stream_ok f"
    using fit_stream [of "of_nat (room ?w)" sid "wd_written_offset ?d" "get_remain k ?d" "should_fin ?d" "should_fin ?d" f]
      assms(2) ws u wf(3,4) k(2) [OF kr] b by (simp_all add: granted_frame_def id_valid_iff)
  then obtain m where m: "m \<le> unat k" "sf_stream_data f = take m (get_remain k ?d)" "STREAM_fin (f_type f) \<longleftrightarrow> should_fin ?d \<and> m = unat k"
    using k(2) [OF kr] by auto
  have n: "n = m" using m k(2) [OF kr] by (simp add: n_def)
  show "n \<le> unat k" using m n by simp
  show "sf_stream_data f = take n (drop (unat (wd_written_offset ?d) - unat (wd_discarded_offset ?d)) (wd_src ?d))"
    using m n k(1) [OF kr] by (simp add: min_def)
  show "STREAM_fin (f_type f) \<longleftrightarrow> should_fin ?d \<and> n = unat k" using m n by simp
  show "vval (sf_streamID f) = sid" "vval (sf_offset f) = wd_written_offset ?d" using fit by simp_all
  show "any_wf (StreamF f)" using m(1) n b(1) by (simp add: size_t_ok_def n_def)
  show "any_ok (StreamF f)" "any_len (StreamF f) \<le> room ?w" using fit(1,5) u by simp_all
qed

lemma granted_send:
  assumes "send_env_wf sid e" "granted_frame sid fairness e k f" "can_send (se_state e)"
  defines "n \<equiv> length (sf_stream_data f)" and "st \<equiv> se_state e"
  shows "send_send (vval (sf_offset f) + of_nat n) st
      = (True, st\<lparr>sst_limit := (sst_limit st)\<lparr>lim_used := sent_bytes st + of_nat n\<rparr>, sst_state := send\<rparr>)"
    and "unat (sent_bytes st + of_nat n) = unat (sent_bytes st) + n"
    and "unat (sent_bytes st) + n \<le> unat (send_limit st)"
proof -
  note g = granted_frame_spec [OF assms(1,2)]
  have inv: "lim_inv (sst_limit st)" and off: "vval (sf_offset f) = lim_used (sst_limit st)"
    using assms(1) g(5) by (simp_all add: send_env_wf_def send_wf_def sent_bytes_def st_def)
  have "k \<le> avail_size (sst_limit st)" using assms(2) by (simp add: granted_frame_def sendable_size_def st_def)
  then have n: "n \<le> unat (lim_limit (sst_limit st)) - unat (lim_used (sst_limit st))"
    using g(1) avail_size_nat [of "sst_limit st"] by (simp add: word_le_nat_alt n_def)
  have lim: "unat (lim_used (sst_limit st)) \<le> unat (lim_limit (sst_limit st))" "unat (lim_limit (sst_limit st)) < 2 ^ 62"
    using inv by (simp_all add: lim_inv_def word_le_nat_alt word_less_nat_alt)
  have nn: "unat (of_nat n :: u64) = n" using n lim by (intro unat_of_nat_u64) simp
  show sum: "unat (sent_bytes st + of_nat n) = unat (sent_bytes st) + n"
  proof -
    have "unat (lim_used (sst_limit st)) + n < 2 ^ 64" using n lim by simp
    then show ?thesis using unat_add_lem [of "lim_used (sst_limit st)" "of_nat n"] nn by (simp add: sent_bytes_def)
  qed
  show "unat (sent_bytes st) + n \<le> unat (send_limit st)" using n lim by (simp add: sent_bytes_def send_limit_def)
  have "\<not> lim_limit (sst_limit st) < lim_used (sst_limit st) + of_nat n"
    "lim_used (sst_limit st) \<le> lim_used (sst_limit st) + of_nat n"
    using sum n lim by (simp_all add: sent_bytes_def word_less_nat_alt word_le_nat_alt)
  then have "update_use (lim_used (sst_limit st) + of_nat n) (sst_limit st) = (True, (sst_limit st)\<lparr>lim_used := lim_used (sst_limit st) + of_nat n\<rparr>)"
    by (cases "lim_used (sst_limit st) < lim_used (sst_limit st) + of_nat n") (simp_all add: update_use_def)
  then show "send_send (vval (sf_offset f) + of_nat n) st
      = (True, st\<lparr>sst_limit := (sst_limit st)\<lparr>lim_used := sent_bytes st + of_nat n\<rparr>, sst_state := send\<rparr>)"
    using assms(3) by (simp add: send_send_def off st_def sent_bytes_def)
qed

lemma granted_credit:
  assumes "send_env_wf sid e" "granted_frame sid fairness e k f"
  defines "n \<equiv> length (sf_stream_data f)" and "l \<equiv> cf_send (s_conn_flow (se_conn e))"
  shows "limiter_use (of_nat n) l = (True, l\<lparr>lim_used := lim_used l + of_nat n\<rparr>)"
    and "unat (lim_used l + of_nat n) = unat (lim_used l) + n" and "lim_inv (l\<lparr>lim_used := lim_used l + of_nat n\<rparr>)"
proof -
  note g = granted_frame_spec [OF assms(1,2)]
  have inv: "lim_inv l" using assms(1) by (simp add: send_env_wf_def l_def)
  have nk: "n \<le> unat (avail_size l)"
    using assms(2) g(1) by (simp add: granted_frame_def l_def n_def word_le_nat_alt)
  have "unat (lim_limit l) < 2 ^ 62" using inv by (simp add: lim_inv_def word_less_nat_alt)
  then have nn: "unat (of_nat n :: u64) = n" using nk avail_size_nat [of l] by (intro unat_of_nat_u64) simp
  have ok: "fst (limiter_use (of_nat n) l)" using limiter_use_nat(1) [of "of_nat n" l] nk nn avail_size_nat [of l] by simp
  then show use: "limiter_use (of_nat n) l = (True, l\<lparr>lim_used := lim_used l + of_nat n\<rparr>)"
    by (simp add: limiter_use_def split: if_splits)
  show "unat (lim_used l + of_nat n) = unat (lim_used l) + n" using limiter_use_nat(2) [OF ok inv] nn by simp
  show "lim_inv (l\<lparr>lim_used := lim_used l + of_nat n\<rparr>)" using lim_credit.spend_inv [OF inv, of "of_nat n"] use by simp
qed

lemma credit_cb_cases:
  obtains (block) v where "credit_cb ws sid pl d cl md credit_vars_init = (0, v)" "cv_block v"
  | (refuse) v where "credit_cb ws sid pl d cl md credit_vars_init = (0, v)" "\<not> cv_block v" "\<not> cv_ok v"
  | (frame) v where
      "make_fit_size_Stream ws sid (wd_written_offset d) (get_remain (min cl pl) d) (should_fin d) (should_fin d) = (cv_frame v, True)"
      "credit_cb ws sid pl d cl md credit_vars_init = (of_nat (length (sf_stream_data (cv_frame v))), v)" "\<not> cv_block v" "cv_ok v"
proof -
  let ?k = "if cl < pl then cl else pl"
  have k: "?k = min cl pl" by (auto simp: min_def)
  obtain f ok where f: "make_fit_size_Stream ws sid (wd_written_offset d) (get_remain (min cl pl) d) (should_fin d) (should_fin d) = (f, ok)"
    by (metis surj_pair)
  show ?thesis
  proof (cases "min cl pl = 0 \<and> \<not> should_fin d")
    case True
    then show ?thesis
      by (intro block [of "credit_vars_init\<lparr>cv_max_conn_data := md, cv_block := True\<rparr>"]) (simp_all add: credit_cb_def k Let_def)
  next
    case False
    then have c: "credit_cb ws sid pl d cl md credit_vars_init
        = (if ok then of_nat (length (sf_stream_data f)) else 0, credit_vars_init\<lparr>cv_max_conn_data := md, cv_frame := f, cv_ok := ok\<rparr>)"
      using f by (auto simp: credit_cb_def k Let_def)
    show ?thesis
    proof (cases ok)
      case True
      then show ?thesis
        using c f by (intro frame [of "credit_vars_init\<lparr>cv_max_conn_data := md, cv_frame := f, cv_ok := ok\<rparr>"])
          (simp_all add: credit_vars_init_def)
    next
      case False
      then show ?thesis
        using c by (intro refuse [of "credit_vars_init\<lparr>cv_max_conn_data := md, cv_frame := f, cv_ok := False\<rparr>"])
          (simp_all add: credit_vars_init_def)
    qed
  qed
qed

definition spent_credit :: "nat \<Rightarrow> StreamsState \<Rightarrow> StreamsState" where
  "spent_credit n s = s\<lparr>s_conn_flow := (s_conn_flow s)\<lparr>cf_send := (cf_send (s_conn_flow s))
     \<lparr>lim_used := lim_used (cf_send (s_conn_flow s)) + of_nat n\<rparr>\<rparr>\<rparr>"

definition payload_limit :: "u64 \<Rightarrow> 'c send_env \<Rightarrow> u64" where
  "payload_limit fairness e = min (min (wd_remain (se_data e)) fairness) (sendable_size (se_state e))"

definition credit_limit :: "u64 \<Rightarrow> 'c send_env \<Rightarrow> u64" where
  "credit_limit fairness e = min (avail_size (cf_send (s_conn_flow (se_conn e)))) (payload_limit fairness e)"

lemma payload_limit_code:
  "(if (if wd_remain (se_data e) < fairness then wd_remain (se_data e) else fairness) < sendable_size (se_state e)
    then if wd_remain (se_data e) < fairness then wd_remain (se_data e) else fairness else sendable_size (se_state e))
   = payload_limit fairness e"
  by (auto simp: payload_limit_def min_def)

lemma send_impl_granted:
  assumes wf: "send_env_wf sid e"
    and st: "can_send (se_state e)"
      "\<not> of_nat (length (fw_remain (se_w e))) < calc_stream_overhead sid (wd_written_offset (se_data e)) (wd_written_offset (se_data e) \<noteq> 0)"
      "\<not> (wd_remain (se_data e) = 0 \<and> \<not> should_fin (se_data e))"
      "\<not> (payload_limit fairness e = 0 \<and> \<not> should_fin (se_data e))"
    and g: "granted_frame sid fairness e (credit_limit fairness e) f"
    and v: "credit_cb (of_nat (length (fw_remain (se_w e)))) sid (payload_limit fairness e) (se_data e)
        (avail_size (cf_send (s_conn_flow (se_conn e)))) (lim_limit (cf_send (s_conn_flow (se_conn e)))) credit_vars_init
        = (of_nat (length (sf_stream_data f)), v)" "\<not> cv_block v" "cv_ok v" "cv_frame v = f"
  shows "send_impl sid fairness save e =
     ((if fst (save (fragment_of f) (se_saved e)) then io_ok else io_fatal, 0),
      sent_env f (spent_credit (length (sf_stream_data f)) (se_conn e)) (snd (save (fragment_of f) (se_saved e))) e)"
proof -
  have inv: "lim_inv (cf_send (s_conn_flow (se_conn e)))" using wf by (simp add: send_env_wf_def)
  note spec = granted_frame_spec [OF wf g]
  have "fst (fw_write (StreamF f) (se_w e))"
    using fw_write_ok [OF spec(6,7) _ spec(8)] wf by (simp add: send_env_wf_def)
  then show ?thesis
    using granted_send(1) [OF wf g st(1)] granted_credit(1) [OF wf g] st v
    by (auto simp: send_impl_def use_send_credit_limiter [OF inv] payload_limit_code Let_def sent_env_def fragment_of_def
        spent_credit_def split_beta)
qed

lemma send_impl_cases:
  assumes "send_env_wf sid e"
  obtains (stop) r l where "send_impl sid fairness save e = ((r, l), e)" "r \<noteq> io_ok" "r \<noteq> io_fatal"
  | (sent) f where "granted_frame sid fairness e (credit_limit fairness e) f" "can_send (se_state e)"
      "send_impl sid fairness save e =
         ((if fst (save (fragment_of f) (se_saved e)) then io_ok else io_fatal, 0),
          sent_env f (spent_credit (length (sf_stream_data f)) (se_conn e)) (snd (save (fragment_of f) (se_saved e))) e)"
proof -
  let ?d = "se_data e" and ?st = "se_state e" and ?pl = "payload_limit fairness e"
  let ?ws = "of_nat (length (fw_remain (se_w e))) :: u64" and ?l = "cf_send (s_conn_flow (se_conn e))"
  have inv: "lim_inv ?l" using assms by (simp add: send_env_wf_def)
  note unf = send_impl_def [of sid fairness save e] use_send_credit_limiter [OF inv] payload_limit_code Let_def
    limiter_use_zero [OF inv]
  consider (early) r l where "send_impl sid fairness save e = ((r, l), e)" "r \<noteq> io_ok" "r \<noteq> io_fatal"
    | (credit) "can_send ?st" "\<not> ?ws < calc_stream_overhead sid (wd_written_offset ?d) (wd_written_offset ?d \<noteq> 0)"
        "\<not> (wd_remain ?d = 0 \<and> \<not> should_fin ?d)" "\<not> (?pl = 0 \<and> \<not> should_fin ?d)"
    by (cases "can_send ?st"; cases "?ws < calc_stream_overhead sid (wd_written_offset ?d) (wd_written_offset ?d \<noteq> 0)";
        cases "wd_remain ?d = 0 \<and> \<not> should_fin ?d"; cases "?pl = 0 \<and> \<not> should_fin ?d") (simp_all add: unf)
  then show ?thesis
  proof cases
    case early
    then show ?thesis by (rule stop)
  next
    case credit
    show ?thesis
    proof (rule credit_cb_cases [of ?ws sid ?pl ?d "avail_size ?l" "lim_limit ?l"])
      fix v assume "credit_cb ?ws sid ?pl ?d (avail_size ?l) (lim_limit ?l) credit_vars_init = (0, v)" "cv_block v"
      then show ?thesis using credit by (intro stop [of io_block_by_conn "cv_max_conn_data v"]) (auto simp: unf)
    next
      fix v assume "credit_cb ?ws sid ?pl ?d (avail_size ?l) (lim_limit ?l) credit_vars_init = (0, v)" "\<not> cv_block v" "\<not> cv_ok v"
      then show ?thesis using credit by (intro stop [of io_no_capacity 0]) (auto simp: unf)
    next
      fix v assume v: "make_fit_size_Stream ?ws sid (wd_written_offset ?d) (get_remain (min (avail_size ?l) ?pl) ?d)
          (should_fin ?d) (should_fin ?d) = (cv_frame v, True)"
        "credit_cb ?ws sid ?pl ?d (avail_size ?l) (lim_limit ?l) credit_vars_init = (of_nat (length (sf_stream_data (cv_frame v))), v)"
        "\<not> cv_block v" "cv_ok v"
      then have g: "granted_frame sid fairness e (credit_limit fairness e) (cv_frame v)"
        by (simp add: granted_frame_def credit_limit_def payload_limit_def min.coboundedI1 min.coboundedI2)
      show ?thesis by (rule sent [OF g credit(1) send_impl_granted [OF assms credit g v(2-4) refl]])
    qed
  qed
qed

lemma granted_frame_exists:
  assumes "make_fit_size_Stream (of_nat (length (fw_remain (se_w e)))) sid (wd_written_offset (se_data e))
     (get_remain (credit_limit fairness e) (se_data e)) (should_fin (se_data e)) (should_fin (se_data e)) = (f, True)"
  shows "granted_frame sid fairness e (credit_limit fairness e) f"
  using assms by (simp add: granted_frame_def credit_limit_def payload_limit_def min.coboundedI1 min.coboundedI2)

lemma sent_env_fields:
  fixes c :: 'c and e :: "'c send_env" and f :: StreamFrame
  assumes wf: "send_env_wf sid e" and g: "granted_frame sid fairness e k f" and st: "can_send (se_state e)"
  defines "n \<equiv> length (sf_stream_data f)"
  defines "e' \<equiv> sent_env f (spent_credit n (se_conn e)) c e"
  shows "unat (wd_written_offset (se_data e')) = unat (wd_written_offset (se_data e)) + n"
    and "sent_bytes (se_state e') = wd_written_offset (se_data e')"
    and "sst_state (se_state e') = (if STREAM_fin (f_type f) then data_sent else send)"
    and "wd_src (se_data e') = wd_src (se_data e)" "wd_discarded_offset (se_data e') = wd_discarded_offset (se_data e)"
    and "wd_fin_written (se_data e') \<longleftrightarrow> STREAM_fin (f_type f) \<or> wd_fin_written (se_data e)"
    and "fw_w (se_w e') = emit (any_enc (StreamF f)) (fw_w (se_w e))"
    and "unat (lim_used (cf_send (s_conn_flow (se_conn e')))) = unat (lim_used (cf_send (s_conn_flow (se_conn e)))) + n"
    and "send_env_wf sid e'"
proof -
  let ?d = "se_data e" and ?st = "se_state e"
  note spec = granted_frame_spec [OF wf g]
  note s = granted_send [OF wf g st, folded n_def] and cr = granted_credit [OF wf g, folded n_def]
  have wb: "sent_bytes ?st = wd_written_offset ?d" "write_data_wf ?d" "id_valid sid" "send_wf ?st" "writer_wf (fw_w (se_w e))"
    "room (fw_w (se_w e)) < 2 ^ 61"
    using wf by (simp_all add: send_env_wf_def)
  have w: "fw_write (StreamF f) (se_w e) = (True, (se_w e)\<lparr>fw_w := emit (any_enc (StreamF f)) (fw_w (se_w e)),
      fw_prev_type := any_get_type (StreamF f), fw_status := add_frame (any_get_type (StreamF f)) (fw_status (se_w e))\<rparr>)"
    by (rule fw_write_ok [OF spec(6,7) wb(5) spec(8)])
  show off: "unat (wd_written_offset (se_data e')) = unat (wd_written_offset ?d) + n"
    using s(2) wb(1) by (simp add: e'_def sent_env_def Let_def write_fin_def n_def)
  show state: "sst_state (se_state e') = (if STREAM_fin (f_type f) then data_sent else send)"
    using s(1) by (simp add: e'_def sent_env_def Let_def n_def send_sent_def)
  show sb: "sent_bytes (se_state e') = wd_written_offset (se_data e')"
    using s(1) wb(1) by (simp add: e'_def sent_env_def Let_def n_def send_sent_def write_fin_def sent_bytes_def)
  show d: "wd_src (se_data e') = wd_src ?d" "wd_discarded_offset (se_data e') = wd_discarded_offset ?d"
    "wd_fin_written (se_data e') \<longleftrightarrow> STREAM_fin (f_type f) \<or> wd_fin_written ?d"
    by (simp_all add: e'_def sent_env_def Let_def write_fin_def)
  show em: "fw_w (se_w e') = emit (any_enc (StreamF f)) (fw_w (se_w e))"
    using w by (simp add: e'_def sent_env_def Let_def)
  show "unat (lim_used (cf_send (s_conn_flow (se_conn e')))) = unat (lim_used (cf_send (s_conn_flow (se_conn e)))) + n"
    using cr(2) by (simp add: e'_def sent_env_def Let_def spent_credit_def)
  have "send_wf (snd (send_exec (OpSend (vval (sf_offset f) + of_nat n)) ?st))" by (rule send_auto.exec_inv [OF wb(4)])
  then have sw: "send_wf (se_state e')"
    using send_auto.exec_inv [of _ OpSent] by (simp add: e'_def sent_env_def Let_def n_def)
  have kr: "n \<le> unat (wd_remain ?d)" using g spec(1) by (auto simp: granted_frame_def n_def word_le_nat_alt)
  have dw: "write_data_wf (se_data e')"
    using wb(2) kr wd_remain_nat [OF wb(2)] off d by (simp add: write_data_wf_def word_le_nat_alt, linarith)
  have l: "length (any_enc (StreamF f)) \<le> room (fw_w (se_w e))" using any_len_enc [OF spec(6,7)] spec(8) by simp
  have ww: "writer_wf (fw_w (se_w e'))" "room (fw_w (se_w e')) < 2 ^ 61"
    using emit_wf [OF wb(5) l] emit_room [OF wb(5) l] wb(6) em by simp_all
  have ci: "lim_inv (cf_send (s_conn_flow (se_conn e')))" using cr(3) by (simp add: e'_def sent_env_def Let_def spent_credit_def)
  show "send_env_wf sid e'" unfolding send_env_wf_def using wb(3) sw ci sb dw ww by simp
qed

section \<open>Receiving within the limits\<close>

lemma use_recv_credit_facts:
  assumes "lim_inv (cf_recv (s_conn_flow s))" "use_recv_credit n s = (ok, s')"
  shows "lim_inv (cf_recv (s_conn_flow s'))" "\<not> ok \<Longrightarrow> s' = s"
    "ok \<Longrightarrow> unat (lim_used (cf_recv (s_conn_flow s'))) = unat (lim_used (cf_recv (s_conn_flow s))) + unat n"
    "ok \<longleftrightarrow> unat (lim_used (cf_recv (s_conn_flow s))) + unat n \<le> unat (lim_limit (cf_recv (s_conn_flow s)))"
proof -
  have r: "ok = fst (use_recv_credit n s)" "s' = snd (use_recv_credit n s)" using assms(2) by simp_all
  show "lim_inv (cf_recv (s_conn_flow s'))" using conn_recv_flow.spend_inv [OF assms(1), of n] r by simp
  show "\<not> ok \<Longrightarrow> s' = s" using assms(2) by (simp add: use_recv_credit_def limiter_use_def split: if_splits)
  show "ok \<Longrightarrow> unat (lim_used (cf_recv (s_conn_flow s'))) = unat (lim_used (cf_recv (s_conn_flow s))) + unat n"
    using conn_recv_flow.spend_used [OF assms(1), of n] r by simp
  show "ok \<longleftrightarrow> unat (lim_used (cf_recv (s_conn_flow s))) + unat n \<le> unat (lim_limit (cf_recv (s_conn_flow s)))"
    using conn_recv_flow.spend_iff [OF assms(1), of n] r by simp
qed

lemma recv_recv_facts:
  assumes "recv_wf s" "recv_recv m s = (ok, s')"
  shows "recv_wf s'" "recv_bytes s \<le> recv_bytes s'" "\<not> ok \<Longrightarrow> s' = s"
    "ok \<Longrightarrow> recv_bytes s' = max (recv_bytes s) m" "ok \<Longrightarrow> m \<le> recv_limit s'"
proof -
  have l: "lim_inv (rst_limit s)" using assms(1) by (simp add: recv_wf_def)
  show "recv_wf s'" using recv_auto.exec_inv [OF assms(1), of "OpRecv m"] assms(2) by simp
  show "recv_bytes s \<le> recv_bytes s'" using recv_exec_bytes(1) [OF assms(1), of "OpRecv m"] assms(2) by simp
  show "\<not> ok \<Longrightarrow> s' = s"
    using assms(2) update_use_inv(6) [OF l, of m] by (auto simp: recv_recv_def split_beta split: if_splits)
  show "ok \<Longrightarrow> recv_bytes s' = max (recv_bytes s) m" "ok \<Longrightarrow> m \<le> recv_limit s'"
    using assms(2) update_use_inv(3,4,5) [OF l, of m]
    by (auto simp: recv_recv_def recv_bytes_def recv_limit_def split_beta split: if_splits)
qed

definition frame_end :: "StreamFrame \<Rightarrow> u64" where
  "frame_end f = vval (sf_offset f) + of_nat (length (sf_stream_data f))"

definition recv_env_wf :: "'c recv_env \<Rightarrow> bool" where
  "recv_env_wf e \<longleftrightarrow> recv_wf (re_state e) \<and> lim_inv (cf_recv (s_conn_flow (re_conn e)))"

definition conn_received :: "'c recv_env \<Rightarrow> nat" where
  "conn_received e = unat (lim_used (cf_recv (s_conn_flow (re_conn e))))"

lemma size_known_bytes:
  "recv_bytes (snd (recv_size_known s)) = recv_bytes s" "recv_limit (snd (recv_size_known s)) = recv_limit s"
  "recv_wf (snd (recv_size_known s)) \<longleftrightarrow> recv_wf s"
  by (simp_all add: recv_size_known_def recv_bytes_def recv_limit_def recv_wf_def)

lemma recv_impl_cases:
  assumes wf: "recv_env_wf e"
  obtains (unchanged) r err where "recv_impl f sid deliver e = ((r, err), e)" "r \<in> {io_id_mismatch, io_not_in_io_state, io_block_by_stream}"
  | (conn_blocked) st err where "recv_recv (frame_end f) (re_state e) = (True, st)"
      "recv_impl f sid deliver e = ((io_block_by_conn, err), e\<lparr>re_state := st\<rparr>)"
      "unat (lim_limit (cf_recv (s_conn_flow (re_conn e)))) < conn_received e + (unat (recv_bytes st) - unat (recv_bytes (re_state e)))"
  | (received) st conn err c where "recv_recv (frame_end f) (re_state e) = (True, st)"
      "deliver (fragment_of f) (recv_bytes st) (re_delivered e) = (err, c)"
      "recv_impl f sid deliver e = ((if err = error_none then io_ok else io_fatal, err),
         e\<lparr>re_conn := conn, re_state := (if STREAM_fin (f_type f) then snd (recv_size_known st) else st), re_delivered := c\<rparr>)"
      "lim_inv (cf_recv (s_conn_flow conn))"
      "unat (lim_used (cf_recv (s_conn_flow conn))) = conn_received e + (unat (recv_bytes st) - unat (recv_bytes (re_state e)))"
proof -
  have rw: "recv_wf (re_state e)" and ci: "lim_inv (cf_recv (s_conn_flow (re_conn e)))" using wf by (simp_all add: recv_env_wf_def)
  obtain ok st where st: "recv_recv (frame_end f) (re_state e) = (ok, st)" by (metis surj_pair)
  note rf = recv_recv_facts [OF rw st]
  note unf = recv_impl_def [of f sid deliver e] st [unfolded frame_end_def] Let_def
  consider "vval (sf_streamID f) \<noteq> sid" | "vval (sf_streamID f) = sid" "\<not> can_recv (re_state e)"
    | "vval (sf_streamID f) = sid" "can_recv (re_state e)" "\<not> ok" | (go) "vval (sf_streamID f) = sid" "can_recv (re_state e)" ok
    by blast
  then show ?thesis
  proof cases
    case 1
    then show ?thesis by (intro unchanged [of io_id_mismatch]) (simp_all add: unf)
  next
    case 2
    then show ?thesis by (intro unchanged [of io_not_in_io_state]) (simp_all add: unf)
  next
    case 3
    then show ?thesis using rf(3) by (intro unchanged [of io_block_by_stream]) (simp_all add: unf)
  next
    case go
    define dl where "dl = recv_bytes st - recv_bytes (re_state e)"
    obtain cok conn where cr: "(if dl \<noteq> 0 then use_recv_credit dl (re_conn e) else (True, re_conn e)) = (cok, conn)"
      by (metis surj_pair)
    have dn: "unat dl = unat (recv_bytes st) - unat (recv_bytes (re_state e))" using rf(2) by (simp add: dl_def unat_sub)
    obtain err c where dv: "deliver (fragment_of f) (recv_bytes st) (re_delivered e) = (err, c)" by (metis surj_pair)
    have conn: "lim_inv (cf_recv (s_conn_flow conn))" "\<not> cok \<Longrightarrow> conn = re_conn e"
      "cok \<Longrightarrow> unat (lim_used (cf_recv (s_conn_flow conn))) = conn_received e + unat dl"
      "\<not> cok \<Longrightarrow> unat (lim_limit (cf_recv (s_conn_flow (re_conn e)))) < conn_received e + unat dl"
      using cr ci use_recv_credit_facts [OF ci, of dl cok conn] by (auto simp: conn_received_def split: if_splits)
    have st': "recv_recv (frame_end f) (re_state e) = (True, st)" using st go by simp
    show ?thesis
    proof (cases cok)
      case True
      have "recv_impl f sid deliver e = ((if err = error_none then io_ok else io_fatal, err),
         e\<lparr>re_conn := conn, re_state := (if STREAM_fin (f_type f) then snd (recv_size_known st) else st), re_delivered := c\<rparr>)"
        using go True cr dv
        by (cases "recv_bytes st = recv_bytes (re_state e)") (auto simp: unf dl_def fragment_of_def)
      then show ?thesis using received [OF st' dv] conn(1,3) True dn by simp
    next
      case False
      then have "recv_impl f sid deliver e = ((io_block_by_conn,
          quic_error ''connection flow control limit overflow'' FLOW_CONTROL_ERROR (type_detail (f_type f))), e\<lparr>re_state := st\<rparr>)"
        using go cr conn(2) by (cases "recv_bytes st = recv_bytes (re_state e)") (auto simp: unf dl_def)
      then show ?thesis using conn_blocked [OF st'] conn(4) False dn by simp
    qed
  qed
qed

section \<open>Properties\<close>

text \<open>
  C1. Sending keeps to every limit: the frame that is written carries the next
  bytes of the stream, no more than fairness, the stream's limit and the
  connection's credit allow; the credit used, the offset and the written bytes advance by
  exactly its data, and the state stays consistent. A fatal result comes only
  from the callback, and any other result leaves everything as it was.
\<close>

theorem send_impl_within_limits:
  assumes "send_env_wf sid e" and "send_impl sid fairness save e = ((r, l), e')"
  shows "send_env_wf sid e' \<and> (r \<noteq> io_ok \<and> r \<noteq> io_fatal \<longrightarrow> e' = e)
     \<and> (r = io_fatal \<longrightarrow> (\<exists>frag. \<not> fst (save frag (se_saved e))))
     \<and> (r = io_ok \<or> r = io_fatal \<longrightarrow> (\<exists>f.
          sf_stream_data f = take (length (sf_stream_data f))
            (drop (unat (wd_written_offset (se_data e)) - unat (wd_discarded_offset (se_data e))) (wd_src (se_data e)))
          \<and> vval (sf_streamID f) = sid \<and> vval (sf_offset f) = wd_written_offset (se_data e)
          \<and> length (sf_stream_data f) \<le> unat fairness
          \<and> unat (sent_bytes (se_state e)) + length (sf_stream_data f) \<le> unat (send_limit (se_state e))
          \<and> unat (wd_written_offset (se_data e')) = unat (wd_written_offset (se_data e)) + length (sf_stream_data f)
          \<and> unat (lim_used (cf_send (s_conn_flow (se_conn e')))) = unat (lim_used (cf_send (s_conn_flow (se_conn e)))) + length (sf_stream_data f)
          \<and> fw_w (se_w e') = emit (any_enc (StreamF f)) (fw_w (se_w e))
          \<and> se_saved e' = snd (save (fragment_of f) (se_saved e))))"
  using assms(1)
proof (cases rule: send_impl_cases [where fairness = fairness and save = save])
  case (stop r' l')
  then show ?thesis using assms by simp
next
  case (sent f)
  let ?c = "snd (save (fragment_of f) (se_saved e))"
  have e': "e' = sent_env f (spent_credit (length (sf_stream_data f)) (se_conn e)) ?c e"
    and r: "r = (if fst (save (fragment_of f) (se_saved e)) then io_ok else io_fatal)"
    using sent(3) assms(2) by simp_all
  note fields = sent_env_fields [OF assms(1) sent(1,2), of ?c, folded e']
  note spec = granted_frame_spec [OF assms(1) sent(1)]
  have "length (sf_stream_data f) \<le> unat fairness"
    using spec(1) sent(1) by (auto simp: granted_frame_def word_le_nat_alt)
  moreover have "se_saved e' = ?c" by (simp add: e' sent_env_def Let_def)
  ultimately show ?thesis
    using fields(1,7,8,9) spec(2,4,5) granted_send(3) [OF assms(1) sent(1,2)] r by auto
qed


theorem send_impl_within_limits_witness:
  "send_env_wf 0 (snd (send_impl 0 9 (\<lambda>f c. (True, f # c))
     \<lparr>se_w = make_fwriter (make_writer (replicate 30 0)),
      se_conn = streams_init\<lparr>s_conn_flow := \<lparr>cf_send = \<lparr>lim_limit = 10, lim_used = 0\<rparr>, cf_recv = limiter_zero, cf_should_send_limit_update = False\<rparr>\<rparr>,
      se_state = send_init\<lparr>sst_limit := \<lparr>lim_limit = 5, lim_used = 0\<rparr>\<rparr>,
      se_data = write_data_init\<lparr>wd_src := [1, 2, 3]\<rparr>, se_saved = []\<rparr>))"
proof -
  let ?e = "\<lparr>se_w = make_fwriter (make_writer (replicate 30 0)),
      se_conn = streams_init\<lparr>s_conn_flow := \<lparr>cf_send = \<lparr>lim_limit = 10, lim_used = 0\<rparr>, cf_recv = limiter_zero, cf_should_send_limit_update = False\<rparr>\<rparr>,
      se_state = send_init\<lparr>sst_limit := \<lparr>lim_limit = 5, lim_used = 0\<rparr>\<rparr>,
      se_data = write_data_init\<lparr>wd_src := [1, 2, 3]\<rparr>, se_saved = [] :: Fragment list\<rparr>"
  have "send_env_wf 0 ?e"
    by (simp add: send_env_wf_def id_valid_iff send_wf_def lim_inv_def sent_bytes_def write_data_wf_def write_data_init_def
        send_init_def make_fwriter_def make_writer_def writer_wf_def room_def)
  then show ?thesis using send_impl_within_limits by (metis prod.collapse)
qed

text \<open>
  C40. The end of the stream is sent too early: when the application has finished
  and a limit allows only part of the remaining data, that part is sent with the FIN flag.
  The stream then counts as completely sent, the rest of its data is still there, and no later
  call sends it.
\<close>

theorem send_impl_premature_fin:
  assumes "send_env_wf sid e" and "can_send (se_state e)" and "should_fin (se_data e)"
    and "credit_limit fairness e < wd_remain (se_data e)"
    and "unat (calc_stream_overhead sid (wd_written_offset (se_data e)) (wd_written_offset (se_data e) \<noteq> 0))
           + 8 + unat (credit_limit fairness e) \<le> room (fw_w (se_w e))"
  shows "\<exists>e'. snd (send_impl sid fairness (\<lambda>frag c. (True, c @ [frag])) e) = e'
     \<and> fst (send_impl sid fairness (\<lambda>frag c. (True, c @ [frag])) e) = (io_ok, 0)
     \<and> sst_state (se_state e') = data_sent \<and> wd_fin_written (se_data e')
     \<and> 0 < wd_remain (se_data e') \<and> (\<forall>fl save. send_impl sid fl save e' = ((io_not_in_io_state, 0), e'))"
proof -
  let ?k = "credit_limit fairness e" and ?d = "se_data e" and ?w = "fw_w (se_w e)"
  let ?o = "calc_stream_overhead sid (wd_written_offset ?d) (wd_written_offset ?d \<noteq> 0)"
  have wf: "write_data_wf ?d" "room ?w < 2 ^ 61" using assms(1) by (simp_all add: send_env_wf_def)
  have ws: "length (fw_remain (se_w e)) = room ?w" by (simp add: fw_remain_def room_remain)
  have rn: "unat (of_nat (room ?w) :: u64) = room ?w" using wf(2) by (simp add: unat_of_nat_u64)
  have kr: "?k \<le> wd_remain ?d" using assms(4) by simp
  note gr = get_remain_take [OF wf(1) kr]
  define f where "f = cut_frame sid (wd_written_offset ?d) (get_remain ?k ?d) (should_fin ?d) True (of_nat (length (get_remain ?k ?d)))"
  have "uint ?o + 8 + int (length (get_remain ?k ?d)) \<le> uint (of_nat (room ?w) :: u64)"
    unfolding uint_nat rn gr(2) using assms(5) by linarith
  moreover have "uint (of_nat (room ?w) :: u64) < 2 ^ 61"
    unfolding uint_nat rn using wf(2) by simp
  ultimately have fit: "make_fit_size_Stream (of_nat (length (fw_remain (se_w e)))) sid (wd_written_offset ?d)
      (get_remain ?k ?d) (should_fin ?d) (should_fin ?d) = (f, True)"
    unfolding ws f_def by (rule fit_stream_whole) (simp add: assms(3))
  note g = granted_frame_exists [OF fit]
  have size: "sf_stream_data f = get_remain ?k ?d"
    using gr(2) by (simp add: f_def cut_frame_def rsubstr_def)
  have fin: "STREAM_fin (f_type f)" using granted_frame_spec(3) [OF assms(1) g] size gr(2) assms(3) by simp
  have cb: "credit_cb (of_nat (length (fw_remain (se_w e)))) sid (payload_limit fairness e) ?d
        (avail_size (cf_send (s_conn_flow (se_conn e)))) (lim_limit (cf_send (s_conn_flow (se_conn e)))) credit_vars_init
      = (of_nat (length (sf_stream_data f)), credit_vars_init\<lparr>cv_max_conn_data := lim_limit (cf_send (s_conn_flow (se_conn e))),
           cv_frame := f, cv_ok := True\<rparr>)"
  proof -
    have "(if avail_size (cf_send (s_conn_flow (se_conn e))) < payload_limit fairness e
        then avail_size (cf_send (s_conn_flow (se_conn e))) else payload_limit fairness e) = ?k"
      by (auto simp: credit_limit_def min_def)
    then show ?thesis using fit assms(3) by (simp add: credit_cb_def)
  qed
  have ov: "\<not> of_nat (length (fw_remain (se_w e))) < ?o"
    unfolding ws using assms(5) rn by (simp add: word_less_nat_alt)
  have run: "send_impl sid fairness (\<lambda>frag c. (True, c @ [frag])) e =
     ((io_ok, 0), sent_env f (spent_credit (length (sf_stream_data f)) (se_conn e)) (se_saved e @ [fragment_of f]) e)"
    using send_impl_granted [OF assms(1,2) ov _ _ g cb, where save = "\<lambda>frag c. (True, c @ [frag])"] assms(3)
    by (simp add: credit_vars_init_def)
  note fields = sent_env_fields [OF assms(1) g assms(2), of "se_saved e @ [fragment_of f]"]
  define e' where "e' = sent_env f (spent_credit (length (sf_stream_data f)) (se_conn e)) (se_saved e @ [fragment_of f]) e"
  have st: "sst_state (se_state e') = data_sent" "wd_fin_written (se_data e')" using fields(3,6) fin by (simp_all add: e'_def)
  have "write_data_wf (se_data e')" using fields(9) by (simp add: e'_def send_env_wf_def)
  then have "unat (wd_remain (se_data e')) = unat (wd_remain ?d) - unat ?k"
    using wd_remain_nat wf(1) fields(1,4,5) size gr(2) by (simp add: e'_def)
  then have "0 < wd_remain (se_data e')" using assms(4) by (simp add: word_less_nat_alt)
  moreover have "send_impl sid fl save e' = ((io_not_in_io_state, 0), e')" for fl save
    using st(1) by (simp add: send_impl_def can_send_def)
  ultimately show ?thesis using run st by (simp add: e'_def)
qed

theorem send_impl_premature_fin_witness:
  "fst (send_impl 0 9 (\<lambda>frag c. (True, c @ [frag]))
     \<lparr>se_w = make_fwriter (make_writer (replicate 30 0)),
      se_conn = streams_init\<lparr>s_conn_flow := \<lparr>cf_send = \<lparr>lim_limit = 10, lim_used = 0\<rparr>, cf_recv = limiter_zero, cf_should_send_limit_update = False\<rparr>\<rparr>,
      se_state = send_init\<lparr>sst_limit := \<lparr>lim_limit = 2, lim_used = 0\<rparr>\<rparr>,
      se_data = write_data_init\<lparr>wd_src := [1, 2, 3], wd_fin := True\<rparr>, se_saved = []\<rparr>) = (io_ok, 0)"
proof -
  let ?e = "\<lparr>se_w = make_fwriter (make_writer (replicate 30 0)),
      se_conn = streams_init\<lparr>s_conn_flow := \<lparr>cf_send = \<lparr>lim_limit = 10, lim_used = 0\<rparr>, cf_recv = limiter_zero, cf_should_send_limit_update = False\<rparr>\<rparr>,
      se_state = send_init\<lparr>sst_limit := \<lparr>lim_limit = 2, lim_used = 0\<rparr>\<rparr>,
      se_data = write_data_init\<lparr>wd_src := [1, 2, 3], wd_fin := True\<rparr>, se_saved = [] :: Fragment list\<rparr>"
  have wf: "send_env_wf 0 ?e"
    by (simp add: send_env_wf_def id_valid_iff send_wf_def lim_inv_def sent_bytes_def write_data_wf_def write_data_init_def
        send_init_def make_fwriter_def make_writer_def writer_wf_def room_def)
  have k: "credit_limit 9 ?e = 2"
    by (simp add: credit_limit_def payload_limit_def wd_remain_def sendable_size_def avail_size_def write_data_init_def)
  have "calc_stream_overhead 0 0 False = 2"
    by (simp add: calc_stream_overhead_def varint_len_def min_len_def in_range_def border_def)
  then show ?thesis
    using send_impl_premature_fin [OF wf, of 9] k
    by (simp add: can_send_def should_fin_def wd_remain_def write_data_init_def send_init_def
        make_fwriter_def make_writer_def room_def)
qed



end
