(* ===== verification/QuicTime.thy ===== *)
theory QuicTime
  imports ConnBase
begin

text \<open>
  Time, clocks and timers (\<^verbatim>\<open>fnet/quic/time.h\<close>), the packet number spaces
  (\<^verbatim>\<open>status/pn_space.h\<close>) and the configuration of a connection's status
  (\<^verbatim>\<open>status/constant.h\<close>, \<^verbatim>\<open>status/config.h\<close>).

  \<^verbatim>\<open>time_t\<close> is a signed 64-bit integer and \<^verbatim>\<open>utime_t\<close> an unsigned one; both are
  words here, compared as signed (\<open><s\<close>) or unsigned (\<open><\<close>) numbers as the C++ types
  of the operands ask, with arithmetic in two's complement. The function behind a
  clock belongs to the caller: \<open>clk_now\<close> is the value it returns during one
  operation.
\<close>

section \<open>Time\<close>

type_synonym i64 = "64 word"
type_synonym time = i64

definition time_valid :: "time \<Rightarrow> bool" where
  "time_valid t \<longleftrightarrow> 0 \<le>s t"

definition time_invalid :: "time" where
  "time_invalid = - 1"

record Clock =
  clk_now :: "time"
  clk_millisecond :: u64

definition to_clock_granularity :: "Clock \<Rightarrow> i64 \<Rightarrow> i64" where
  "to_clock_granularity clk millisec = millisec * clk_millisecond clk"

text \<open>A timer is its deadline.\<close>

type_synonym Timer = "time"

definition set_deadline :: "time \<Rightarrow> Timer" where
  "set_deadline t = (if \<not> time_valid t then time_invalid else t)"

definition timer_not_working :: "Timer \<Rightarrow> bool" where
  "timer_not_working tm \<longleftrightarrow> \<not> time_valid tm"

definition timer_timeout :: "Clock \<Rightarrow> Timer \<Rightarrow> bool" where
  "timer_timeout clk tm \<longleftrightarrow> tm \<noteq> time_invalid \<and> tm <s clk_now clk"

definition set_timeout :: "Clock \<Rightarrow> u64 \<Rightarrow> Timer" where
  "set_timeout clk delta = set_deadline (clk_now clk + delta)"

definition smax :: "i64 \<Rightarrow> i64 \<Rightarrow> i64" where
  "smax a b = (if a <s b then b else a)"

definition smin :: "i64 \<Rightarrow> i64 \<Rightarrow> i64" where
  "smin a b = (if a <s b then a else b)"

definition umax :: "u64 \<Rightarrow> u64 \<Rightarrow> u64" where
  "umax a b = (if a < b then b else a)"

definition umin :: "u64 \<Rightarrow> u64 \<Rightarrow> u64" where
  "umin a b = (if a < b then a else b)"

section \<open>Packet number spaces\<close>

datatype PacketNumberSpace = pn_initial | pn_handshake | pn_application | pn_no_space

fun space_to_index :: "PacketNumberSpace \<Rightarrow> nat" where
  "space_to_index pn_initial = 0"
| "space_to_index pn_handshake = 1"
| "space_to_index pn_application = 2"
| "space_to_index pn_no_space = 255"

definition from_packet_type :: "PacketType \<Rightarrow> PacketNumberSpace" where
  "from_packet_type t = (case t of
       Initial \<Rightarrow> pn_initial
     | Handshake \<Rightarrow> pn_handshake
     | ZeroRTT \<Rightarrow> pn_application
     | OneRTT \<Rightarrow> pn_application
     | _ \<Rightarrow> pn_no_space)"

section \<open>Configuration\<close>

record Ratio =
  r_num :: i64
  r_den :: i64

record Config =
  c_window_initial_factor :: u64
  c_window_minimum_factor :: u64
  c_handshake_timeout :: u64
  c_handshake_idle_timeout :: u64
  c_initial_rtt :: u64
  c_packet_order_threshold :: u64
  c_time_threshold :: Ratio
  c_delay_ack_packet_count :: u64
  c_use_ack_delay :: bool
  c_pacer_N :: Ratio
  c_clock :: Clock
  c_persistent_congestion_threshold :: u64
  c_ping_duration :: u64
  c_path_validation_timeout_factor :: u64

record InternalConfig = Config +
  c_idle_timeout :: u64
  c_local_ack_delay_exponent :: u64
  c_local_max_ack_delay :: u64

definition default_config :: "Clock \<Rightarrow> InternalConfig" where
  "default_config clk = \<lparr>c_window_initial_factor = 10, c_window_minimum_factor = 2, c_handshake_timeout = 0,
     c_handshake_idle_timeout = 0, c_initial_rtt = 333, c_packet_order_threshold = 3,
     c_time_threshold = \<lparr>r_num = 9, r_den = 8\<rparr>, c_delay_ack_packet_count = 2, c_use_ack_delay = False,
     c_pacer_N = \<lparr>r_num = 5, r_den = 4\<rparr>, c_clock = clk, c_persistent_congestion_threshold = 3,
     c_ping_duration = 0, c_path_validation_timeout_factor = 3, c_idle_timeout = 0,
     c_local_ack_delay_exponent = 3, c_local_max_ack_delay = 0\<rparr>"

end
