(* ===== verification/RecvHistory.thy ===== *)
theory RecvHistory
  imports QuicTime
begin

text \<open>
  The packets received and not yet acknowledged (\<^verbatim>\<open>fnet/quic/ack/recv_history.h\<close>):
  for each packet number space a list of ranges of packet numbers, from which
  duplicates are recognised and ACK frames are made.

  The source walks the list of ranges backwards with reverse iterators; the model
  walks the reversed list. The list and the vector of ranges for an ACK frame
  are lists.
\<close>

section \<open>One packet number space\<close>

record RecvRange =
  rr_begin :: u64
  rr_end :: u64

record RecvSpaceHistory =
  rs_ranges :: "RecvRange list"
  rs_ignore_under :: u64
  rs_lowest :: u64
  rs_largest :: u64
  rs_eliciting :: u64

definition rs_reset :: RecvSpaceHistory where
  "rs_reset = \<lparr>rs_ranges = [], rs_ignore_under = 0, rs_lowest = infinity, rs_largest = infinity, rs_eliciting = 0\<rparr>"

fun duplicated_in :: "u64 \<Rightarrow> RecvRange list \<Rightarrow> bool" where
  "duplicated_in pn [] \<longleftrightarrow> False"
| "duplicated_in pn (it # rest) \<longleftrightarrow>
     (if rr_begin it \<le> pn \<and> pn \<le> rr_end it then True
      else if rr_end it < pn then False
      else duplicated_in pn rest)"

definition rs_is_duplicated :: "u64 \<Rightarrow> RecvSpaceHistory \<Rightarrow> bool" where
  "rs_is_duplicated pn h \<longleftrightarrow> (if pn < rs_ignore_under h then True else duplicated_in pn (rev (rs_ranges h)))"

definition rs_on_ack_sent :: "RecvSpaceHistory \<Rightarrow> RecvSpaceHistory" where
  "rs_on_ack_sent h = h\<lparr>rs_eliciting := 0, rs_largest := infinity, rs_lowest := infinity\<rparr>"

text \<open>
  The loop of \<^verbatim>\<open>add_to_range\<close>: \<open>seen\<close> are the elements already visited, so that
  \<^verbatim>\<open>prev\<close> is its last element. \<^verbatim>\<open>it.base()\<close> is the element visited before \<open>it\<close>, so
  \<^verbatim>\<open>erase(it.base())\<close> removes \<^verbatim>\<open>prev\<close>.
\<close>

fun add_in :: "u64 \<Rightarrow> RecvRange list \<Rightarrow> RecvRange list \<Rightarrow> bool \<times> RecvRange list" where
  "add_in pn seen [] =
     (if seen \<noteq> [] \<and> pn + 1 = rr_begin (last seen) then (True, butlast seen @ [(last seen)\<lparr>rr_begin := pn\<rparr>])
      else (True, seen @ [\<lparr>rr_begin = pn, rr_end = pn\<rparr>]))"
| "add_in pn seen (it # rest) =
     (if rr_end it + 1 = pn then
        (let it = it\<lparr>rr_end := pn\<rparr> in
         if seen \<noteq> [] \<and> rr_begin (last seen) = rr_end it then (True, butlast seen @ it # rest)
         else (True, seen @ it # rest))
      else if rr_end it < pn + 1 then (True, seen @ \<lparr>rr_begin = pn, rr_end = pn\<rparr> # it # rest)
      else if rr_begin it \<le> pn \<and> pn \<le> rr_end it then (False, seen @ it # rest)
      else add_in pn (seen @ [it]) rest)"

definition add_to_range :: "u64 \<Rightarrow> RecvSpaceHistory action" where
  "add_to_range pn h =
     (if pn < rs_ignore_under h then (False, h)
      else case add_in pn [] (rev (rs_ranges h)) of (res, rs) \<Rightarrow> (res, h\<lparr>rs_ranges := rev rs\<rparr>))"

definition rs_on_packet_processed :: "u64 \<Rightarrow> bool \<Rightarrow> RecvSpaceHistory action" where
  "rs_on_packet_processed pn ack_eliciting h =
     (let h = (if ack_eliciting then h\<lparr>rs_eliciting := rs_eliciting h + 1\<rparr> else h);
          h = (if rs_lowest h = infinity then h\<lparr>rs_lowest := pn, rs_largest := pn\<rparr> else h);
          h = (if pn < rs_lowest h then h\<lparr>rs_lowest := pn\<rparr> else h);
          h = (if pn > rs_largest h then h\<lparr>rs_largest := pn\<rparr> else h)
      in add_to_range pn h)"

fun delete_in :: "u64 \<Rightarrow> RecvRange list \<Rightarrow> RecvRange list" where
  "delete_in pn [] = []"
| "delete_in pn (it # rest) =
     (if rr_end it < pn then delete_in pn rest
      else if rr_begin it \<le> pn \<and> pn \<le> rr_end it then it\<lparr>rr_begin := pn\<rparr> # rest
      else it # delete_in pn rest)"

definition delete_under :: "u64 \<Rightarrow> RecvSpaceHistory action" where
  "delete_under pn h =
     (if pn < rs_ignore_under h then (False, h)
      else (True, h\<lparr>rs_ignore_under := pn, rs_ranges := delete_in pn (rs_ranges h)\<rparr>))"

fun ranges_in :: "u64 \<Rightarrow> u64 \<Rightarrow> RecvRange list \<Rightarrow> ACKRange list" where
  "ranges_in lo hi [] = []"
| "ranges_in lo hi (it # rest) =
     (if hi < rr_begin it then ranges_in lo hi rest
      else if rr_end it < lo then []
      else \<lparr>largest = (if hi < rr_end it then hi else rr_end it),
            smallest = (if rr_begin it < lo then lo else rr_begin it)\<rparr> # ranges_in lo hi rest)"

definition get_ranges :: "RecvSpaceHistory \<Rightarrow> ACKRange list \<Rightarrow> ACKRange list" where
  "get_ranges h r =
     (if rs_largest h = infinity \<or> rs_lowest h = infinity then r
      else r @ ranges_in (rs_lowest h) (rs_largest h) (rev (rs_ranges h)))"

text \<open>
  \<^verbatim>\<open>send\<close> returns the result and leaves behind the packet, the vector of ranges,
  the history and the largest number acknowledged. \<^verbatim>\<open>delay\<close> is the pointer to the
  delay of the ACK.
\<close>

definition rs_send :: "fwriter \<Rightarrow> ACKRange list \<Rightarrow> u64 option \<Rightarrow> InternalConfig \<Rightarrow> RecvSpaceHistory
    \<Rightarrow> IOResult \<times> fwriter \<times> ACKRange list \<times> RecvSpaceHistory \<times> u64" where
  "rs_send w buffer delay config h =
     (if rs_eliciting h = 0 then (io_no_data, w, buffer, h, infinity)
      else
        let buffer = get_ranges h [] in
        if buffer = [] then (io_no_data, w, buffer, h, infinity)
        else case convert_to_ACKFrame buffer of (f, ok) \<Rightarrow>
          if \<not> ok then (io_fatal, w, buffer, h, infinity)
          else
            let f = (case delay of None \<Rightarrow> f
                     | Some d \<Rightarrow> f\<lparr>ak_ack_delay := Value (the (encode_ack_delay d (c_local_ack_delay_exponent config)))\<rparr>) in
            if length (fw_remain w) < any_len (AckF f) then (io_no_capacity, w, buffer, h, infinity)
            else case fw_write (AckF f) w of (ok, w') \<Rightarrow>
              if \<not> ok then (io_fatal, w', buffer, h, infinity)
              else (io_ok, w', buffer, rs_on_ack_sent h, vval (ak_largest_ack f)))"

section \<open>All spaces\<close>

record RecvPacketHistory =
  rp_last_recv :: "time"
  rp_ack_delay :: Timer
  rp_ack_sent_count :: u64
  rp_buffer :: "ACKRange list"
  rp_initial :: RecvSpaceHistory
  rp_handshake :: RecvSpaceHistory
  rp_app :: RecvSpaceHistory

definition rp_reset :: RecvPacketHistory where
  "rp_reset = \<lparr>rp_last_recv = time_invalid, rp_ack_delay = time_invalid, rp_ack_sent_count = 0, rp_buffer = [],
     rp_initial = rs_reset, rp_handshake = rs_reset, rp_app = rs_reset\<rparr>"

definition rp_is_duplicated :: "PacketNumberSpace \<Rightarrow> u64 \<Rightarrow> RecvPacketHistory \<Rightarrow> bool" where
  "rp_is_duplicated space pn h = (case space of
       pn_initial \<Rightarrow> rs_is_duplicated pn (rp_initial h)
     | pn_handshake \<Rightarrow> rs_is_duplicated pn (rp_handshake h)
     | pn_application \<Rightarrow> rs_is_duplicated pn (rp_app h)
     | pn_no_space \<Rightarrow> False)"

definition rp_on_packet_processed :: "PacketNumberSpace \<Rightarrow> u64 \<Rightarrow> bool \<Rightarrow> InternalConfig \<Rightarrow> RecvPacketHistory action" where
  "rp_on_packet_processed space pn elic config h = (case space of
       pn_initial \<Rightarrow> (case rs_on_packet_processed pn elic (rp_initial h) of (res, s) \<Rightarrow> (res, h\<lparr>rp_initial := s\<rparr>))
     | pn_handshake \<Rightarrow> (case rs_on_packet_processed pn elic (rp_handshake h) of (res, s) \<Rightarrow> (res, h\<lparr>rp_handshake := s\<rparr>))
     | pn_application \<Rightarrow>
         (case rs_on_packet_processed pn elic (rp_app h) of (res, s) \<Rightarrow>
          let h = h\<lparr>rp_app := s\<rparr> in
          if timer_not_working (rp_ack_delay h) \<and> rs_eliciting s < c_delay_ack_packet_count config
          then (let now = clk_now (c_clock config);
                    delay = now + to_clock_granularity (c_clock config) (c_local_max_ack_delay config)
                in (res, h\<lparr>rp_last_recv := now, rp_ack_delay := set_deadline delay\<rparr>))
          else (res, h))
     | pn_no_space \<Rightarrow> (False, h))"

definition should_send_app_ack :: "InternalConfig \<Rightarrow> RecvPacketHistory \<Rightarrow> bool" where
  "should_send_app_ack config h \<longleftrightarrow>
     \<not> c_use_ack_delay config
     \<or> (timer_timeout (c_clock config) (rp_ack_delay h) \<or> c_delay_ack_packet_count config \<le> rs_eliciting (rp_app h))"

definition rp_on_ack_sent :: "RecvPacketHistory \<Rightarrow> RecvPacketHistory" where
  "rp_on_ack_sent h = h\<lparr>rp_ack_delay := time_invalid, rp_last_recv := time_invalid\<rparr>"

definition rp_on_packet_number_space_discarded :: "PacketNumberSpace \<Rightarrow> RecvPacketHistory \<Rightarrow> RecvPacketHistory" where
  "rp_on_packet_number_space_discarded space h = (case space of
       pn_initial \<Rightarrow> h\<lparr>rp_initial := rs_reset\<rparr>
     | pn_handshake \<Rightarrow> h\<lparr>rp_handshake := rs_reset\<rparr>
     | _ \<Rightarrow> h)"

definition delete_onertt_under :: "u64 \<Rightarrow> RecvPacketHistory \<Rightarrow> RecvPacketHistory" where
  "delete_onertt_under pn h = h\<lparr>rp_app := snd (delete_under pn (rp_app h))\<rparr>"

definition rp_send :: "fwriter \<Rightarrow> PacketNumberSpace \<Rightarrow> InternalConfig \<Rightarrow> RecvPacketHistory
    \<Rightarrow> IOResult \<times> fwriter \<times> RecvPacketHistory \<times> u64 option" where
  "rp_send w space config h = (case space of
       pn_initial \<Rightarrow>
         (case rs_send w (rp_buffer h) None config (rp_initial h) of (res, w, b, s, la) \<Rightarrow>
            (res, w, h\<lparr>rp_buffer := b, rp_initial := s\<rparr>, Some la))
     | pn_handshake \<Rightarrow>
         (case rs_send w (rp_buffer h) None config (rp_handshake h) of (res, w, b, s, la) \<Rightarrow>
            (res, w, h\<lparr>rp_buffer := b, rp_handshake := s\<rparr>, Some la))
     | pn_application \<Rightarrow>
         (if \<not> should_send_app_ack config h then (io_no_data, w, h, None)
          else
            let delay = (if \<not> timer_not_working (rp_ack_delay h) then clk_now (c_clock config) - rp_last_recv h else 0) in
            case rs_send w (rp_buffer h) (Some delay) config (rp_app h) of (res, w, b, s, la) \<Rightarrow>
              let h = h\<lparr>rp_buffer := b, rp_app := s\<rparr> in
              (res, w, if res = io_ok then rp_on_ack_sent h else h, Some la))
     | pn_no_space \<Rightarrow> (io_fatal, w, h, None))"

section \<open>The ranges as a set\<close>

text \<open>
  The ranges in the order in which they are visited stand for the set of packet
  numbers they cover. They are kept in descending order, without overlap.
\<close>

definition covers :: "RecvRange list \<Rightarrow> u64 set" where
  "covers rs = {x. \<exists>r \<in> set rs. rr_begin r \<le> x \<and> x \<le> rr_end r}"

fun descending :: "RecvRange list \<Rightarrow> bool" where
  "descending [] \<longleftrightarrow> True"
| "descending (r # rs) \<longleftrightarrow> rr_begin r \<le> rr_end r \<and> (\<forall>s \<in> set rs. rr_end s < rr_begin r) \<and> descending rs"

lemma covers_simps [simp]:
  "covers [] = {}"
  "covers (r # rs) = {rr_begin r .. rr_end r} \<union> covers rs"
  "covers (rs @ ss) = covers rs \<union> covers ss"
  by (auto simp: covers_def)

lemma descending_append:
  "descending (rs @ ss) \<longleftrightarrow> descending rs \<and> descending ss \<and> (\<forall>r \<in> set rs. \<forall>s \<in> set ss. rr_end s < rr_begin r)"
  by (induction rs) auto

lemma descending_nonempty: "descending rs \<Longrightarrow> r \<in> set rs \<Longrightarrow> rr_begin r \<le> rr_end r"
  by (induction rs) auto

lemma duplicated_in_iff: "descending rs \<Longrightarrow> duplicated_in pn rs \<longleftrightarrow> pn \<in> covers rs"
proof (induction rs)
  case (Cons r rs)
  have "pn \<notin> covers rs" if "rr_end r < pn"
  proof
    assume "pn \<in> covers rs"
    then obtain s where "s \<in> set rs" "pn \<le> rr_end s" by (auto simp: covers_def)
    then show False using Cons.prems that by fastforce
  qed
  then show ?case using Cons by auto
qed simp

lemma word_succ_facts:
  assumes "(x :: u64) < 2 ^ 62"
  shows "y < x + 1 \<longleftrightarrow> y \<le> x" "x < x + 1" "x + 1 \<le> y \<longleftrightarrow> x < y"
proof -
  have "unat (x + 1) = unat x + 1" using assms by (simp add: unat_word_ariths word_less_nat_alt)
  then show "y < x + 1 \<longleftrightarrow> y \<le> x" "x < x + 1" "x + 1 \<le> y \<longleftrightarrow> x < y"
    by (auto simp: word_less_nat_alt word_le_nat_alt)
qed

lemma atLeastAtMost_succ:
  assumes "(y :: u64) < 2 ^ 62" "x \<le> y"
  shows "{x .. y + 1} = insert (y + 1) {x .. y}"
proof -
  have "z \<le> y + 1 \<longleftrightarrow> z = y + 1 \<or> z \<le> y" for z using word_succ_facts(1) [OF assms(1)] by (auto simp: order_le_less)
  moreover have "x \<le> y + 1" using assms word_succ_facts(2) [OF assms(1)] by auto
  ultimately show ?thesis using assms(2) by auto
qed

lemma atLeastAtMost_pred:
  assumes "(x :: u64) < 2 ^ 62" "x + 1 \<le> y"
  shows "{x .. y} = insert x {x + 1 .. y}"
proof -
  have "x \<le> z \<longleftrightarrow> z = x \<or> x + 1 \<le> z" for z using word_succ_facts(3) [OF assms(1)] by (auto simp: order_le_less)
  moreover have "x \<le> y" using assms word_succ_facts(3) [OF assms(1)] by auto
  ultimately show ?thesis using assms(2) by auto
qed

lemma add_in_covers:
  assumes "descending (seen @ rest)" "\<forall>r \<in> set seen. pn < rr_begin r" "pn \<notin> covers rest"
    and "pn < 2 ^ 62" "\<forall>r \<in> set rest. rr_end r < 2 ^ 62"
  shows "\<exists>rs. add_in pn seen rest = (True, rs) \<and> descending rs \<and> covers rs = insert pn (covers (seen @ rest))
     \<and> (\<forall>r \<in> set rs. rr_end r = pn \<or> rr_end r \<in> rr_end ` set (seen @ rest))"
  using assms
proof (induction pn seen rest rule: add_in.induct)
  case (1 pn seen)
  show ?case
  proof (cases "seen \<noteq> [] \<and> pn + 1 = rr_begin (last seen)")
    case True
    then obtain ss l where s: "seen = ss @ [l]" by (metis append_butlast_last_id)
    have "rr_begin l \<le> rr_end l" "pn + 1 = rr_begin l" using 1 True s by (auto simp: descending_append)
    then have "{pn .. rr_end l} = insert pn {rr_begin l .. rr_end l}"
      using atLeastAtMost_pred [of pn "rr_end l"] 1(4) by simp
    moreover have "pn \<le> rr_end l" using \<open>rr_begin l \<le> rr_end l\<close> 1(2) s by auto
    ultimately show ?thesis using 1 True s by (auto simp: descending_append)
  qed (use 1 in \<open>auto simp: descending_append\<close>)
next
  case (2 pn seen it rest)
  have it: "rr_begin it \<le> rr_end it" "rr_end it < 2 ^ 62" and seen: "\<forall>r \<in> set seen. pn < rr_begin r"
    and below: "\<forall>s \<in> set rest. rr_end s < rr_begin it"
    using 2(2,3,6) by (auto simp: descending_append)
  consider (extend) "rr_end it + 1 = pn" | (insert) "rr_end it + 1 \<noteq> pn" "rr_end it < pn + 1" | (skip) "rr_end it + 1 \<noteq> pn" "\<not> rr_end it < pn + 1"
    by blast
  then show ?case
  proof cases
    case extend
    have "\<not> (seen \<noteq> [] \<and> rr_begin (last seen) = pn)" using seen by auto
    moreover have "{rr_begin it .. pn} = insert pn {rr_begin it .. rr_end it}"
      using atLeastAtMost_succ [OF it(2,1)] extend by simp
    moreover have "rr_begin it \<le> pn" using it word_succ_facts(2) [OF it(2)] extend by auto
    ultimately show ?thesis using extend 2(2,3) below by (auto simp: descending_append)
  next
    case insert
    then have lt: "rr_end it < pn" using 2(4,5) it word_succ_facts(1) [of pn "rr_end it"] by (auto simp: less_le)
    have "rr_end s < pn" if "s \<in> set rest" for s using below that it(1) lt by fastforce
    then show ?thesis using insert lt 2(2,3) by (auto simp: descending_append)
  next
    case skip
    then have ge: "pn < rr_end it" using 2(5) word_succ_facts(1) [of pn "rr_end it"] by auto
    then have lt: "pn < rr_begin it" using 2(4) by auto
    have n: "\<not> (rr_begin it \<le> pn \<and> pn \<le> rr_end it)" using lt by auto
    show ?thesis using 2(1) [OF skip n] 2(2-6) lt skip n by auto
  qed
qed

lemma delete_in_covers:
  assumes "descending (rev rs)"
  shows "descending (rev (delete_in pn rs)) \<and> covers (delete_in pn rs) = covers rs \<inter> {pn ..}
     \<and> rr_end ` set (delete_in pn rs) \<subseteq> rr_end ` set rs
     \<and> (\<forall>b. (\<forall>r \<in> set rs. b < rr_begin r) \<longrightarrow> (\<forall>r \<in> set (delete_in pn rs). b < rr_begin r))"
  using assms
proof (induction rs)
  case (Cons it rest)
  then have r: "descending (rev rest)" "rr_begin it \<le> rr_end it" "\<forall>s \<in> set rest. rr_end it < rr_begin s"
    by (auto simp: descending_append)
  consider (below) "rr_end it < pn" | (inside) "rr_begin it \<le> pn" "pn \<le> rr_end it" | (above) "pn < rr_begin it" "pn \<le> rr_end it"
    by (meson linorder_not_le)
  then show ?case
  proof cases
    case below
    then have "{rr_begin it .. rr_end it} \<inter> {pn ..} = {}" by auto
    then show ?thesis using Cons.IH [OF r(1)] below by auto
  next
    case inside
    have "covers rest \<subseteq> {pn ..}"
      using r(3) inside by (fastforce simp: covers_def)
    then show ?thesis using inside r by (auto simp: descending_append not_less)
  next
    case above
    have "rr_end it < rr_begin s" if "s \<in> set (delete_in pn rest)" for s
      using Cons.IH [OF r(1)] r(3) that by blast
    moreover have "{rr_begin it .. rr_end it} \<subseteq> {pn ..}" using above by auto
    ultimately show ?thesis using Cons.IH [OF r(1)] above r(2) by (auto simp: descending_append)
  qed
qed simp

subsection \<open>Ranges to acknowledge\<close>

definition acks :: "ACKRange list \<Rightarrow> u64 set" where
  "acks rs = {x. \<exists>r \<in> set rs. smallest r \<le> x \<and> x \<le> largest r}"

lemma acks_simps [simp]: "acks [] = {}" "acks (r # rs) = {smallest r .. largest r} \<union> acks rs"
  by (auto simp: acks_def)

lemma ranges_in_acks:
  assumes "descending rs" "lo \<le> hi"
  shows "acks (ranges_in lo hi rs) = covers rs \<inter> {lo .. hi}"
  using assms
proof (induction rs)
  case (Cons it rest)
  have "covers rest \<inter> {lo ..} = {}" if "rr_end it < lo"
    using Cons.prems(1) that by (fastforce simp: covers_def)
  then show ?case using Cons by (auto split: if_splits)
qed simp

lemma ranges_in_member:
  assumes "descending rs" "lo \<le> hi" "a \<in> set (ranges_in lo hi rs)"
  shows "smallest a \<le> largest a" "\<exists>r \<in> set rs. rr_begin r \<le> smallest a \<and> largest a \<le> rr_end r"
  using assms
  by (induction rs) (auto split: if_splits simp: not_less)

lemma ranges_in_sorted:
  assumes "descending rs" "lo \<le> hi" "\<forall>r \<in> set rs. rr_end r < smallest prev" "smallest prev \<le> largest prev"
  shows "is_sorted_from prev (ranges_in lo hi rs)"
  using assms
proof (induction rs arbitrary: prev)
  case (Cons it rest)
  show ?case
  proof (cases "hi < rr_begin it \<or> rr_end it < lo")
    case True
    then show ?thesis using Cons by auto
  next
    case False
    define a where "a = \<lparr>largest = (if hi < rr_end it then hi else rr_end it), smallest = (if rr_begin it < lo then lo else rr_begin it)\<rparr>"
    have a: "smallest a \<le> largest a" "rr_begin it \<le> smallest a" "largest a \<le> rr_end it"
      using False Cons.prems by (auto simp: a_def not_less)
    have "is_sorted_from a (ranges_in lo hi rest)"
      using Cons.prems a by (intro Cons.IH) fastforce+
    moreover have "largest a < smallest prev" using a(3) Cons.prems(3) by fastforce
    ultimately show ?thesis using False a Cons.prems(4) by (auto simp: a_def [symmetric] not_le not_less)
  qed
qed simp

lemma ranges_in_is_sorted:
  assumes "descending rs" "lo \<le> hi" "ranges_in lo hi rs \<noteq> []"
  shows "is_sorted_ack_ranges (ranges_in lo hi rs)"
  using assms
proof (induction rs)
  case (Cons it rest)
  show ?case
  proof (cases "hi < rr_begin it \<or> rr_end it < lo")
    case False
    define a where "a = \<lparr>largest = (if hi < rr_end it then hi else rr_end it), smallest = (if rr_begin it < lo then lo else rr_begin it)\<rparr>"
    have a: "smallest a \<le> largest a" "rr_begin it \<le> smallest a"
      using False Cons.prems by (auto simp: a_def not_less)
    have "is_sorted_from a (ranges_in lo hi rest)"
      using Cons.prems a by (intro ranges_in_sorted) fastforce+
    then show ?thesis using False a by (auto simp: a_def [symmetric] not_less)
  qed (use Cons in \<open>auto split: if_splits\<close>)
qed simp

section \<open>Reachable histories\<close>

text \<open>
  The histories that can arise, with what they stand for: the bound \<open>b\<close> below which
  packets are ignored, the set \<open>S\<close> of all packets received and the set \<open>P\<close> of those
  received since the last ACK frame. A packet is processed only if it was not
  recognised as a duplicate, as the connection does.
\<close>

inductive rs_reaches :: "RecvSpaceHistory \<Rightarrow> u64 \<Rightarrow> u64 set \<Rightarrow> u64 set \<Rightarrow> bool" where
  start: "rs_reaches rs_reset 0 {} {}"
| processed: "rs_reaches h b S P \<Longrightarrow> \<not> rs_is_duplicated pn h \<Longrightarrow> pn < 2 ^ 62
    \<Longrightarrow> rs_reaches (snd (rs_on_packet_processed pn elic h)) b (insert pn S) (insert pn P)"
| deleted: "rs_reaches h b S P \<Longrightarrow> rs_reaches (snd (delete_under pn h)) (max b pn) S P"
| acked: "rs_reaches h b S P \<Longrightarrow> rs_send w buf delay config h = (io_ok, w', buf', h', la) \<Longrightarrow> rs_reaches h' b S {}"

definition rs_inv :: "RecvSpaceHistory \<Rightarrow> u64 \<Rightarrow> u64 set \<Rightarrow> u64 set \<Rightarrow> bool" where
  "rs_inv h b S P \<longleftrightarrow> descending (rev (rs_ranges h)) \<and> (\<forall>r \<in> set (rs_ranges h). rr_end r < 2 ^ 62)
     \<and> rs_ignore_under h = b \<and> covers (rs_ranges h) = S \<inter> {b ..} \<and> P \<subseteq> S \<and> (\<forall>x \<in> S. x < 2 ^ 62)
     \<and> (P = {} \<longrightarrow> rs_lowest h = infinity \<and> rs_largest h = infinity)
     \<and> (P \<noteq> {} \<longrightarrow> rs_lowest h \<in> P \<and> rs_largest h \<in> P \<and> (\<forall>x \<in> P. rs_lowest h \<le> x \<and> x \<le> rs_largest h))"

lemma covers_rev [simp]: "covers (rev rs) = covers rs"
  by (simp add: covers_def)

lemma infinity_62: "(x :: u64) < 2 ^ 62 \<Longrightarrow> x \<noteq> infinity"
  by (auto simp: infinity_def)

lemma rs_duplicated_iff:
  assumes "rs_inv h b S P"
  shows "rs_is_duplicated x h \<longleftrightarrow> x < b \<or> x \<in> S"
  using assms duplicated_in_iff [of "rev (rs_ranges h)" x] by (auto simp: rs_inv_def rs_is_duplicated_def not_less)

lemma processed_fields:
  "rs_ignore_under (snd (rs_on_packet_processed pn elic h)) = rs_ignore_under h"
  "rs_ranges (snd (rs_on_packet_processed pn elic h)) = rs_ranges (snd (add_to_range pn h))"
  "rs_lowest (snd (rs_on_packet_processed pn elic h)) =
     (if rs_lowest h = infinity \<or> pn < rs_lowest h then pn else rs_lowest h)"
  "rs_largest (snd (rs_on_packet_processed pn elic h)) =
     (if rs_lowest h = infinity \<or> pn > rs_largest h then pn else rs_largest h)"
  "rs_eliciting (snd (rs_on_packet_processed pn elic h)) = rs_eliciting h + (if elic then 1 else 0)"
  by (simp_all add: rs_on_packet_processed_def add_to_range_def Let_def split_beta)

lemma rs_inv_processed:
  assumes "rs_inv h b S P" "\<not> rs_is_duplicated pn h" "pn < 2 ^ 62"
  shows "fst (rs_on_packet_processed pn elic h)"
    "rs_inv (snd (rs_on_packet_processed pn elic h)) b (insert pn S) (insert pn P)"
proof -
  have pn: "\<not> pn < b" "pn \<notin> S" using assms(2) rs_duplicated_iff [OF assms(1)] by auto
  have "descending ([] @ rev (rs_ranges h))" "pn \<notin> covers (rev (rs_ranges h))" "\<forall>r \<in> set (rev (rs_ranges h)). rr_end r < 2 ^ 62"
    using assms(1) pn by (auto simp: rs_inv_def)
  from add_in_covers [OF this(1) _ this(2) assms(3) this(3)] obtain rs
    where rs: "add_in pn [] (rev (rs_ranges h)) = (True, rs)" "descending rs" "covers rs = insert pn (covers (rs_ranges h))"
      "\<forall>r \<in> set rs. rr_end r = pn \<or> rr_end r \<in> rr_end ` set (rs_ranges h)" by auto
  have ig: "rs_ignore_under h = b" using assms(1) by (simp add: rs_inv_def)
  then show "fst (rs_on_packet_processed pn elic h)"
    using pn(1) rs(1) by (simp add: rs_on_packet_processed_def add_to_range_def Let_def)
  have r: "rs_ranges (snd (rs_on_packet_processed pn elic h)) = rev rs"
    using pn(1) rs(1) ig by (simp add: processed_fields add_to_range_def)
  have "\<forall>r \<in> set rs. rr_end r < 2 ^ 62" using rs(4) assms(1,3) by (force simp: rs_inv_def)
  then show "rs_inv (snd (rs_on_packet_processed pn elic h)) b (insert pn S) (insert pn P)"
    using assms(1,3) rs pn ig infinity_62 unfolding rs_inv_def
    by (cases "P = {}") (auto simp: r processed_fields(1,3,4) not_less dest: infinity_62)
qed

lemma rs_inv_deleted:
  assumes "rs_inv h b S P"
  shows "rs_inv (snd (delete_under pn h)) (max b pn) S P"
proof (cases "pn < b")
  case True
  then show ?thesis using assms by (simp add: delete_under_def rs_inv_def max_absorb1)
next
  case False
  then have "max b pn = pn" by simp
  have d: "descending (rev (delete_in pn (rs_ranges h)))" "covers (delete_in pn (rs_ranges h)) = covers (rs_ranges h) \<inter> {pn ..}"
    "rr_end ` set (delete_in pn (rs_ranges h)) \<subseteq> rr_end ` set (rs_ranges h)"
    using delete_in_covers [of "rs_ranges h" pn] assms unfolding rs_inv_def by blast+
  have "rr_end r < 2 ^ 62" if "r \<in> set (delete_in pn (rs_ranges h))" for r
  proof -
    have "rr_end r \<in> rr_end ` set (rs_ranges h)" using d(3) that by blast
    then show ?thesis using assms unfolding rs_inv_def by auto
  qed
  moreover have "S \<inter> {b ..} \<inter> {pn ..} = S \<inter> {pn ..}" using False by auto
  ultimately show ?thesis
    using False d(1,2) assms \<open>max b pn = pn\<close> unfolding rs_inv_def delete_under_def by simp
qed

lemma rs_send_ok_history:
  assumes "rs_send w buf delay config h = (io_ok, w', buf', h', la)"
  shows "h' = rs_on_ack_sent h"
  using assms by (auto simp: rs_send_def Let_def split: if_splits prod.splits option.splits)

lemma rs_reaches_inv: "rs_reaches h b S P \<Longrightarrow> rs_inv h b S P"
proof (induction rule: rs_reaches.induct)
  case start
  then show ?case by (simp add: rs_inv_def rs_reset_def)
next
  case (processed h b S P pn elic)
  then show ?case by (intro rs_inv_processed(2))
next
  case (deleted h b S P pn)
  then show ?case by (intro rs_inv_deleted)
next
  case (acked h b S P w buf delay config w' buf' h' la)
  from acked.IH show ?case unfolding rs_send_ok_history [OF acked.hyps(2)] by (simp add: rs_inv_def rs_on_ack_sent_def)
qed

section \<open>Sending an ACK\<close>

lemma rs_get_ranges:
  assumes "rs_inv h b S P"
  shows "acks (get_ranges h []) \<subseteq> S" "P \<inter> {b ..} \<subseteq> acks (get_ranges h [])"
    "get_ranges h [] \<noteq> [] \<Longrightarrow> is_sorted_ack_ranges (get_ranges h []) \<and> largest (hd (get_ranges h [])) < 2 ^ 62"
proof -
  let ?rs = "rev (rs_ranges h)"
  have inv: "descending ?rs" "covers ?rs = S \<inter> {b ..}" "P \<subseteq> S" "\<forall>r \<in> set ?rs. rr_end r < 2 ^ 62"
    using assms by (simp_all add: rs_inv_def)
  have empty: "get_ranges h [] = []" if "P = {}" using that assms by (simp add: rs_inv_def get_ranges_def)
  have full: "rs_lowest h \<le> rs_largest h \<and> P \<subseteq> {rs_lowest h .. rs_largest h}
      \<and> get_ranges h [] = ranges_in (rs_lowest h) (rs_largest h) ?rs" if "P \<noteq> {}"
  proof -
    have "rs_lowest h \<in> P" "rs_largest h \<in> P" "\<forall>x \<in> P. rs_lowest h \<le> x \<and> x \<le> rs_largest h" "\<forall>x \<in> S. x < 2 ^ 62"
      using that assms by (simp_all add: rs_inv_def)
    moreover have "rs_lowest h \<noteq> infinity" "rs_largest h \<noteq> infinity" using calculation inv(3) infinity_62 by blast+
    ultimately show ?thesis by (auto simp: get_ranges_def)
  qed
  show "acks (get_ranges h []) \<subseteq> S" "P \<inter> {b ..} \<subseteq> acks (get_ranges h [])"
    using empty full ranges_in_acks [OF inv(1)] inv(2,3) by (cases "P = {}"; auto)+
  assume n: "get_ranges h [] \<noteq> []"
  then have lo: "rs_lowest h \<le> rs_largest h" and g: "get_ranges h [] = ranges_in (rs_lowest h) (rs_largest h) ?rs"
    using empty full by blast+
  have "hd (get_ranges h []) \<in> set (ranges_in (rs_lowest h) (rs_largest h) ?rs)" using n g by auto
  from ranges_in_member(2) [OF inv(1) lo this] inv(4) have "largest (hd (get_ranges h [])) < 2 ^ 62" by fastforce
  then show "is_sorted_ack_ranges (get_ranges h []) \<and> largest (hd (get_ranges h [])) < 2 ^ 62"
    using ranges_in_is_sorted [OF inv(1) lo] n g by simp
qed

lemma sorted_from_length: "is_sorted_from prev xs \<Longrightarrow> length xs \<le> unat (smallest prev)"
proof (induction xs arbitrary: prev)
  case (Cons x xs)
  then have "length xs \<le> unat (smallest x)" "smallest x < smallest prev" by auto
  then show ?case by (simp add: word_less_nat_alt)
qed simp

text \<open>The frame with its delay filled in.\<close>

definition with_delay :: "u64 option \<Rightarrow> InternalConfig \<Rightarrow> ACKFrame \<Rightarrow> ACKFrame" where
  "with_delay delay config f = (case delay of None \<Rightarrow> f
     | Some d \<Rightarrow> f\<lparr>ak_ack_delay := Value (the (encode_ack_delay d (c_local_ack_delay_exponent config)))\<rparr>)"

lemma with_delay_fields [simp]:
  "f_type (with_delay d c f) = f_type f" "ak_ack_ranges (with_delay d c f) = ak_ack_ranges f"
  "ak_largest_ack (with_delay d c f) = ak_largest_ack f"
  "convert_from_ACKFrame (with_delay d c f) = convert_from_ACKFrame f"
  by (auto simp: with_delay_def convert_from_ACKFrame_def split: option.splits)

lemma with_delay_ok:
  assumes "ack_ok f" "\<And>d. delay = Some d \<Longrightarrow> the (encode_ack_delay d (c_local_ack_delay_exponent config)) < 2 ^ 62"
  shows "ack_ok (with_delay delay config f)"
  using assms by (auto simp: with_delay_def ack_ok_def ecn_ok_def varint_ok_Value split: option.splits)

lemma rs_send_frame:
  assumes "rs_eliciting h \<noteq> 0" "get_ranges h [] = x # xs" "convert_to_ACKFrame (x # xs) = (f, True)"
  shows "rs_send w buf delay config h =
     (if length (fw_remain w) < any_len (AckF (with_delay delay config f)) then (io_no_capacity, w, x # xs, h, infinity)
      else case fw_write (AckF (with_delay delay config f)) w of (ok, w') \<Rightarrow>
        if \<not> ok then (io_fatal, w', x # xs, h, infinity)
        else (io_ok, w', x # xs, rs_on_ack_sent h, vval (ak_largest_ack f)))"
  using assms by (simp add: rs_send_def with_delay_def [symmetric] Let_def split_beta del: any_len.simps)

lemma fw_remain_room: "length (fw_remain w) = room (fw_w w)"
  by (simp add: fw_remain_def room_remain)

section \<open>Properties\<close>

text \<open>
  C7. The history of received packets is a set with a lower bound: after any
  sequence of packets processed, old ranges dropped and ACK frames sent, a packet
  number counts as a duplicate exactly if it is below the largest bound given so
  far or was processed before.
\<close>

theorem recv_history_refines_set:
  assumes "rs_reaches h b S P"
  shows "rs_is_duplicated x h \<longleftrightarrow> x < b \<or> x \<in> S"
  by (rule rs_duplicated_iff [OF rs_reaches_inv [OF assms]])

lemma rs_reaches_example:
  "rs_reaches \<lparr>rs_ranges = [\<lparr>rr_begin = 0, rr_end = 1\<rparr>, \<lparr>rr_begin = 2, rr_end = 2\<rparr>], rs_ignore_under = 0,
     rs_lowest = 0, rs_largest = 2, rs_eliciting = 3\<rparr> 0 {1, 2, 0} {1, 2, 0}"
proof -
  let ?p = "\<lambda>pn h. snd (rs_on_packet_processed pn True h)"
  have 1: "?p 0 rs_reset = \<lparr>rs_ranges = [\<lparr>rr_begin = 0, rr_end = 0\<rparr>], rs_ignore_under = 0, rs_lowest = 0, rs_largest = 0, rs_eliciting = 1\<rparr>"
    (is "_ = ?h1")
    by (simp add: rs_on_packet_processed_def rs_reset_def add_to_range_def Let_def)
  have 2: "?p 2 ?h1 = \<lparr>rs_ranges = [\<lparr>rr_begin = 0, rr_end = 0\<rparr>, \<lparr>rr_begin = 2, rr_end = 2\<rparr>], rs_ignore_under = 0,
     rs_lowest = 0, rs_largest = 2, rs_eliciting = 2\<rparr>" (is "_ = ?h2")
    by (simp add: rs_on_packet_processed_def add_to_range_def Let_def infinity_def)
  have 3: "?p 1 ?h2 = \<lparr>rs_ranges = [\<lparr>rr_begin = 0, rr_end = 1\<rparr>, \<lparr>rr_begin = 2, rr_end = 2\<rparr>], rs_ignore_under = 0,
     rs_lowest = 0, rs_largest = 2, rs_eliciting = 3\<rparr>" (is "_ = ?h3")
    by (simp add: rs_on_packet_processed_def add_to_range_def Let_def infinity_def word_le_nat_alt)
  have "rs_reaches ?h1 0 {0} {0}"
    using rs_reaches.processed [OF rs_reaches.start, of 0 True] 1 by (simp add: rs_is_duplicated_def rs_reset_def)
  then have "rs_reaches ?h2 0 {2, 0} {2, 0}"
    using rs_reaches.processed [of ?h1 0 "{0}" "{0}" 2 True] 2 by (simp add: rs_is_duplicated_def)
  then show ?thesis
    using rs_reaches.processed [of ?h2 0 "{2, 0}" "{2, 0}" 1 True] 3 by (simp add: rs_is_duplicated_def word_le_nat_alt)
qed

theorem recv_history_refines_set_witness:
  "rs_is_duplicated 1 \<lparr>rs_ranges = [\<lparr>rr_begin = 0, rr_end = 1\<rparr>, \<lparr>rr_begin = 2, rr_end = 2\<rparr>], rs_ignore_under = 0,
     rs_lowest = 0, rs_largest = 2, rs_eliciting = 3\<rparr>"
  using recv_history_refines_set [OF rs_reaches_example, of 1] by simp

text \<open>
  C8. An ACK frame tells the truth and leaves nothing out: if the ranges to be
  acknowledged do not touch and the frame fits into the packet, it is written; read
  back by the peer, it acknowledges only packets that were received, and
  every packet received since the last ACK frame that is not below the bound.
\<close>

theorem ack_acknowledges_received:
  assumes "rs_reaches h b S P" and "rs_eliciting h \<noteq> 0" and "get_ranges h [] = x # xs" and "separated x xs"
    and "writer_wf (fw_w w)" and "33 + 16 * length xs \<le> room (fw_w w)"
    and "\<And>d. delay = Some d \<Longrightarrow> the (encode_ack_delay d (c_local_ack_delay_exponent config)) < 2 ^ 62"
  shows "\<exists>f w'. rs_send w buf delay config h = (io_ok, w', x # xs, rs_on_ack_sent h, largest x)
     \<and> fw_w w' = emit (ack_enc f) (fw_w w)
     \<and> (\<forall>pre rest. ack_parse (ack_fresh, rd pre (ack_enc f @ rest)) = (True, (ack_norm f, rd (pre @ ack_enc f) rest)))
     \<and> convert_from_ACKFrame (ack_norm f) = (x # xs, True)
     \<and> acks (x # xs) \<subseteq> S \<and> P \<inter> {b ..} \<subseteq> acks (x # xs)"
proof -
  note g = rs_get_ranges [OF rs_reaches_inv [OF assms(1)], unfolded assms(3)]
  have "largest x < 2 ^ 62" using g(3) by simp
  from separated_convert [OF assms(4) this] obtain f0 where f0: "convert_to_ACKFrame (x # xs) = (f0, True)" "ack_ok f0"
    "f_type f0 = FrameFlags_of (FT ACK)" "ak_ack_ranges f0 = to_wire x xs" "length xs < 2 ^ 62"
    "vval (ak_largest_ack f0) = largest x" "convert_from_ACKFrame f0 = (x # xs, True)" .
  define f where "f = with_delay delay config f0"
  have f: "ack_ok f" "length (ak_ack_ranges f) < 2 ^ 64" "ack_len False f \<le> room (fw_w w)" "convert_from_ACKFrame f = (x # xs, True)"
    using with_delay_ok [OF f0(2) assms(7)] f0 ack_len_bound [of f] assms(6) by (simp_all add: f_def)
  have w: "fw_write (AckF f) w = (True, w\<lparr>fw_w := emit (ack_enc f) (fw_w w), fw_prev_type := ack_get_type False f,
      fw_status := add_frame (ack_get_type False f) (fw_status w)\<rparr>)"
    using fw_write_ok [of "AckF f" w] f assms(5) by simp
  have "rs_send w buf delay config h = (io_ok, snd (fw_write (AckF f) w), x # xs, rs_on_ack_sent h, largest x)"
    using rs_send_frame [OF assms(2,3) f0(1), of w buf delay config] w f(3) f0(6)
    by (simp add: f_def [symmetric] fw_remain_room)
  then show ?thesis
    using w f ack_codec.parse_decodes [of f] g(1,2) by (auto simp: decodes_def convert_from_norm)
qed

theorem ack_acknowledges_received_witness:
  "\<exists>w'. rs_send (make_fwriter (make_writer (replicate 40 0))) [] None (default_config \<lparr>clk_now = 0, clk_millisecond = 1\<rparr>)
     (snd (rs_on_packet_processed 7 True rs_reset))
     = (io_ok, w', [\<lparr>largest = 7, smallest = 7\<rparr>], rs_on_ack_sent (snd (rs_on_packet_processed 7 True rs_reset)), 7)"
proof -
  have h: "snd (rs_on_packet_processed 7 True rs_reset) = \<lparr>rs_ranges = [\<lparr>rr_begin = 7, rr_end = 7\<rparr>], rs_ignore_under = 0,
      rs_lowest = 7, rs_largest = 7, rs_eliciting = 1\<rparr>"
    by (simp add: rs_on_packet_processed_def rs_reset_def add_to_range_def Let_def)
  have "rs_reaches (snd (rs_on_packet_processed 7 True rs_reset)) 0 {7} {7}"
    using rs_reaches.processed [OF rs_reaches.start, of 7 True] by (simp add: rs_is_duplicated_def rs_reset_def)
  from ack_acknowledges_received [OF this, of "\<lparr>largest = 7, smallest = 7\<rparr>" "[]" "make_fwriter (make_writer (replicate 40 0))" None]
  show ?thesis
    by (simp add: h get_ranges_def infinity_def make_fwriter_def make_writer_def writer_wf_def room_def) blast
qed

text \<open>
  C32. Ranges that touch are not merged, and then no ACK frame can be sent: the
  attempt ends in a fatal error (or for want of room) and leaves the history as it
  is. Three packets that arrive as 0, 2, 1 are enough.
\<close>

theorem touching_ranges_block_ack:
  assumes "rs_reaches h b S P" and "rs_eliciting h \<noteq> 0" and "get_ranges h [] = x # xs" and "\<not> separated x xs"
    and "writer_wf (fw_w w)"
  shows "\<exists>r w'. rs_send w buf delay config h = (r, w', x # xs, h, infinity) \<and> r \<in> {io_fatal, io_no_capacity}"
proof -
  have g: "is_sorted_ack_ranges (x # xs)" "largest x < 2 ^ 62"
    using rs_get_ranges(3) [OF rs_reaches_inv [OF assms(1)]] assms(3) by simp_all
  define f0 where "f0 = fst (convert_to_ACKFrame (x # xs))"
  have f0: "convert_to_ACKFrame (x # xs) = (f0, True)" "ak_ack_ranges f0 = to_wire x xs"
    using g(1) by (simp_all add: f0_def convert_to_ACKFrame_def)
  define f where "f = with_delay delay config f0"
  have "\<not> ranges_ok (to_wire x xs)" using g assms(4) by (intro touching_wire) (auto simp: not_less)
  then have "\<not> ack_ok f" using f0(2) by (simp add: f_def ack_ok_def)
  moreover have "length (ak_ack_ranges f) < 2 ^ 64"
    using sorted_from_length [of x xs] g(1) f0(2) unsigned_less [where ?'a = nat, of "smallest x"] by (simp add: f_def)
  ultimately have "\<not> fst (fw_write (AckF f) w)" using fw_write_fail [of "AckF f" w] assms(5) by simp
  then obtain w' where "fw_write (AckF f) w = (False, w')" by (cases "fw_write (AckF f) w") auto
  then show ?thesis
    using rs_send_frame [OF assms(2,3) f0(1), of w buf delay config, folded f_def] by (simp del: any_len.simps)
qed

theorem touching_ranges_block_ack_witness:
  "fst (rs_send (make_fwriter (make_writer (replicate 99 0))) [] None (default_config \<lparr>clk_now = 0, clk_millisecond = 1\<rparr>)
     \<lparr>rs_ranges = [\<lparr>rr_begin = 0, rr_end = 1\<rparr>, \<lparr>rr_begin = 2, rr_end = 2\<rparr>], rs_ignore_under = 0,
     rs_lowest = 0, rs_largest = 2, rs_eliciting = 3\<rparr>) \<in> {io_fatal, io_no_capacity}"
proof -
  have "writer_wf (fw_w (make_fwriter (make_writer (replicate 99 0))))"
    by (simp add: make_fwriter_def make_writer_def writer_wf_def)
  from touching_ranges_block_ack [OF rs_reaches_example _ _ _ this, of "\<lparr>largest = 2, smallest = 2\<rparr>"
      "[\<lparr>largest = 1, smallest = 0\<rparr>]" "[]" None "default_config \<lparr>clk_now = 0, clk_millisecond = 1\<rparr>"]
  show ?thesis by (auto simp: get_ranges_def infinity_def)
qed

end
