(* ===== verification/Resend.thy ===== *)
theory Resend
  imports StreamBase
begin

text \<open>
  What becomes of sent data: the records in which the acknowledgement or loss of a
  packet is noted (\<^verbatim>\<open>fnet/quic/ack/ack_lost_record.h\<close>), the handles of those who
  wait for one (\<^verbatim>\<open>resend/ack_handler.h\<close>), and the list of fragments that are kept
  until they are acknowledged and sent again when lost (\<^verbatim>\<open>resend/fragments.h\<close>).

  A record is shared between the packet and everything sent in it. The model has a
  store of records; a \<^verbatim>\<open>shared_ptr\<close> or \<^verbatim>\<open>weak_ptr\<close> to a record is its address, \<open>None\<close>
  for a null pointer. A record is not removed from the store: a \<^verbatim>\<open>weak_ptr\<close> whose
  record is gone would be written to without effect, and nobody is left to read it.
\<close>

section \<open>Records\<close>

datatype ACKLostState = al_wait | al_ack | al_lost

type_synonym ack_store = "ACKLostState list"
type_synonym ACKHandler = "nat option"
type_synonym ACKRecorder = "nat option"

text \<open>The recorder of the packet that is being built, with the store.\<close>

type_synonym observer = "ACKRecorder \<times> ack_store"

definition make_ack_wait :: "ack_store \<Rightarrow> nat \<times> ack_store" where
  "make_ack_wait st = (length st, st @ [al_wait])"

definition recorder_record :: "observer \<Rightarrow> nat \<times> observer" where
  "recorder_record obs = (case obs of
       (Some a, st) \<Rightarrow> (a, (Some a, st))
     | (None, st) \<Rightarrow> (case make_ack_wait st of (a, st') \<Rightarrow> (a, (Some a, st'))))"

definition mark_as_lost :: "nat option \<Rightarrow> ack_store \<Rightarrow> ack_store" where
  "mark_as_lost r st = (case r of None \<Rightarrow> st | Some a \<Rightarrow> st[a := al_lost])"

definition mark_as_ack :: "nat option \<Rightarrow> ack_store \<Rightarrow> ack_store" where
  "mark_as_ack r st = (case r of None \<Rightarrow> st | Some a \<Rightarrow> st[a := al_ack])"

definition ah_is_ack :: "ack_store \<Rightarrow> ACKHandler \<Rightarrow> bool" where
  "ah_is_ack st h \<longleftrightarrow> (case h of None \<Rightarrow> False | Some a \<Rightarrow> st ! a = al_ack)"

definition ah_is_lost :: "ack_store \<Rightarrow> ACKHandler \<Rightarrow> bool" where
  "ah_is_lost st h \<longleftrightarrow> (case h of None \<Rightarrow> False | Some a \<Rightarrow> st ! a = al_lost)"

definition not_confirmed :: "ACKHandler \<Rightarrow> bool" where
  "not_confirmed h \<longleftrightarrow> h \<noteq> None"

definition ah_confirm :: ACKHandler where
  "ah_confirm = None"

definition ah_wait :: "observer \<Rightarrow> ACKHandler \<times> observer" where
  "ah_wait obs = (case recorder_record obs of (a, obs') \<Rightarrow> (Some a, obs'))"

section \<open>Fragments\<close>

record 'f Resend =
  rt_frag :: 'f
  rt_wait :: ACKHandler

definition save_new_frag :: "'f Resend list \<Rightarrow> 'f \<Rightarrow> observer \<Rightarrow> 'f Resend list \<times> observer" where
  "save_new_frag fragset frag obs = (case ah_wait obs of (h, obs') \<Rightarrow> (fragset @ [\<lparr>rt_frag = frag, rt_wait = h\<rparr>], obs'))"

fun detect_ack_and_lost :: "ack_store \<Rightarrow> 'f Resend list \<Rightarrow> nat \<times> 'f Resend list" where
  "detect_ack_and_lost st [] = (0, [])"
| "detect_ack_and_lost st (it # rest) =
     (if ah_is_ack st (rt_wait it) then detect_ack_and_lost st rest
      else case detect_ack_and_lost st rest of (i, fs) \<Rightarrow> (if ah_is_lost st (rt_wait it) then i + 1 else i, it # fs))"

text \<open>
  The variables that a retransmission changes: the new fragments, the record of the
  packet and whatever the callback captures. The callback gets \<^verbatim>\<open>save_new\<close> and the
  fragment, which it may change.
\<close>

record ('f, 'c) rt_env =
  rt_tmp :: "'f Resend list"
  rt_obs :: observer
  rt_c :: 'c

type_synonym ('f, 'c) rt_send = "('f \<Rightarrow> ('f, 'c) rt_env \<Rightarrow> ('f, 'c) rt_env) \<Rightarrow> 'f \<Rightarrow> ('f, 'c) rt_env \<Rightarrow> IOResult \<times> 'f \<times> ('f, 'c) rt_env"

definition save_new :: "'f \<Rightarrow> ('f, 'c) rt_env \<Rightarrow> ('f, 'c) rt_env" where
  "save_new frag e = (case save_new_frag (rt_tmp e) frag (rt_obs e) of (tmp, obs) \<Rightarrow> e\<lparr>rt_tmp := tmp, rt_obs := obs\<rparr>)"

fun retransmit_loop :: "('f, 'c) rt_send \<Rightarrow> 'f Resend list \<Rightarrow> ('f, 'c) rt_env \<Rightarrow> IOResult \<times> 'f Resend list \<times> ('f, 'c) rt_env" where
  "retransmit_loop cb [] e = (io_ok, [], e)"
| "retransmit_loop cb (it # rest) e =
     (if ah_is_ack (snd (rt_obs e)) (rt_wait it) then retransmit_loop cb rest e
      else if ah_is_lost (snd (rt_obs e)) (rt_wait it) then
        (case cb save_new (rt_frag it) e of (res, f, e) \<Rightarrow>
         let it = it\<lparr>rt_frag := f\<rparr> in
         if res = io_fatal \<or> res = io_invalid_data then (res, it # rest, e)
         else if res = io_no_capacity then (io_ok, it # rest, e)
         else if res = io_not_in_io_state then
           (case ah_wait (rt_obs e) of (h, obs) \<Rightarrow>
            case retransmit_loop cb rest (e\<lparr>rt_obs := obs\<rparr>) of (r, fs, e) \<Rightarrow> (r, it\<lparr>rt_wait := h\<rparr> # fs, e))
         else retransmit_loop cb rest e)
      else case retransmit_loop cb rest e of (r, fs, e) \<Rightarrow> (r, it # fs, e))"

definition retransmit :: "('f, 'c) rt_send \<Rightarrow> 'f Resend list \<Rightarrow> observer \<Rightarrow> 'c \<Rightarrow> IOResult \<times> 'f Resend list \<times> observer \<times> 'c" where
  "retransmit cb frags obs c =
     (case retransmit_loop cb frags \<lparr>rt_tmp = [], rt_obs = obs, rt_c = c\<rparr> of (r, fs, e) \<Rightarrow>
        (r, if r = io_ok then fs @ rt_tmp e else fs, rt_obs e, rt_c e))"

section \<open>What a retransmission keeps\<close>

text \<open>
  A callback that, whenever it does not fail, leaves the content of the fragment
  among what it saved and what it left in it; a fragment that it reports as done
  is all saved. Then a retransmission loses nothing but what was acknowledged.
\<close>

definition covered :: "('f \<Rightarrow> 'd set) \<Rightarrow> 'f Resend list \<Rightarrow> 'd set" where
  "covered content fs = (\<Union>f \<in> set fs. content (rt_frag f))"

definition stored :: "ack_store \<Rightarrow> 'f Resend list \<Rightarrow> bool" where
  "stored st fs \<longleftrightarrow> (\<forall>f \<in> set fs. \<forall>a. rt_wait f = Some a \<longrightarrow> a < length st)"

definition obs_grows :: "observer \<Rightarrow> observer \<Rightarrow> bool" where
  "obs_grows o1 o2 \<longleftrightarrow> length (snd o1) \<le> length (snd o2) \<and> (\<forall>a < length (snd o1). snd o2 ! a = snd o1 ! a)"

lemma obs_grows_refl [simp]: "obs_grows obs obs"
  by (simp add: obs_grows_def)

lemma obs_grows_trans: "obs_grows o1 o2 \<Longrightarrow> obs_grows o2 o3 \<Longrightarrow> obs_grows o1 o3"
  by (auto simp: obs_grows_def)

lemma ah_wait_grows: "ah_wait obs = (h, obs') \<Longrightarrow> obs_grows obs obs'"
  by (auto simp: ah_wait_def recorder_record_def make_ack_wait_def obs_grows_def nth_append
      split: prod.splits option.splits)

lemma ah_state_grows:
  assumes "obs_grows o1 o2" "\<And>a. h = Some a \<Longrightarrow> a < length (snd o1)"
  shows "ah_is_ack (snd o2) h = ah_is_ack (snd o1) h" "ah_is_lost (snd o2) h = ah_is_lost (snd o1) h"
  using assms by (auto simp: ah_is_ack_def ah_is_lost_def obs_grows_def split: option.splits)

lemma covered_simps [simp]:
  "covered content [] = {}" "covered content (f # fs) = content (rt_frag f) \<union> covered content fs"
  "covered content (fs @ gs) = covered content fs \<union> covered content gs"
  by (auto simp: covered_def)

locale retransmission =
  fixes cb :: "('f, 'c) rt_send" and content :: "'f \<Rightarrow> 'd set" and good :: "'f \<Rightarrow> bool" and inv :: "'c \<Rightarrow> bool"
  assumes cb_keeps: "inv (rt_c e) \<Longrightarrow> good f \<Longrightarrow> cb save_new f e = (res, f', e') \<Longrightarrow>
     \<exists>new. rt_tmp e' = rt_tmp e @ new \<and> obs_grows (rt_obs e) (rt_obs e') \<and> inv (rt_c e') \<and> good f'
       \<and> (\<forall>x \<in> set new. good (rt_frag x))
       \<and> res \<noteq> io_fatal \<and> res \<noteq> io_invalid_data
       \<and> covered content new \<union> (if res = io_no_capacity \<or> res = io_not_in_io_state then content f' else {}) = content f"
begin

lemma loop_keeps:
  assumes "retransmit_loop cb frags e = (r, fs, e')" "inv (rt_c e)" "\<forall>x \<in> set frags. good (rt_frag x)" "stored (snd (rt_obs e)) frags"
  shows "\<exists>new. rt_tmp e' = rt_tmp e @ new \<and> obs_grows (rt_obs e) (rt_obs e') \<and> inv (rt_c e')
     \<and> (\<forall>x \<in> set fs \<union> set new. good (rt_frag x))
     \<and> r = io_ok \<and> covered content (filter (\<lambda>x. \<not> ah_is_ack (snd (rt_obs e)) (rt_wait x)) frags)
         \<subseteq> covered content fs \<union> covered content new
     \<and> covered content fs \<union> covered content new \<subseteq> covered content frags"
  using assms
proof (induction frags arbitrary: e r fs)
  case Nil
  then show ?case by simp
next
  case (Cons it rest)
  let ?st = "snd (rt_obs e)"
  have st: "stored ?st rest" "\<And>a. rt_wait it = Some a \<Longrightarrow> a < length ?st" using Cons.prems(4) by (auto simp: stored_def)
  have good: "good (rt_frag it)" "\<forall>x \<in> set rest. good (rt_frag x)" using Cons.prems(3) by auto
  have later: "stored (snd (rt_obs e1)) rest \<and> filter (\<lambda>x. \<not> ah_is_ack (snd (rt_obs e1)) (rt_wait x)) rest
      = filter (\<lambda>x. \<not> ah_is_ack ?st (rt_wait x)) rest" if "obs_grows (rt_obs e) (rt_obs e1)" for e1 :: "('f, 'c) rt_env"
    using that st(1) by (fastforce simp: stored_def obs_grows_def ah_is_ack_def intro!: filter_cong split: option.splits)
  consider (acked) "ah_is_ack ?st (rt_wait it)" | (lost) "\<not> ah_is_ack ?st (rt_wait it)" "ah_is_lost ?st (rt_wait it)"
    | (waiting) "\<not> ah_is_ack ?st (rt_wait it)" "\<not> ah_is_lost ?st (rt_wait it)" by blast
  then show ?case
  proof cases
    case acked
    then have "retransmit_loop cb rest e = (r, fs, e')" using Cons.prems(1) by simp
    from Cons.IH [OF this Cons.prems(2) good(2) st(1)] show ?thesis using acked by (elim exE, intro exI) auto
  next
    case waiting
    obtain fs' where fs: "retransmit_loop cb rest e = (r, fs', e')" "fs = it # fs'"
      using Cons.prems(1) waiting by (auto split: prod.splits)
    from Cons.IH [OF fs(1) Cons.prems(2) good(2) st(1)] show ?thesis
      using fs(2) waiting good(1) by (elim exE, intro exI) auto
  next
    case lost
    obtain res f1 e1 where cb: "cb save_new (rt_frag it) e = (res, f1, e1)" by (metis surj_pair)
    from cb_keeps [OF Cons.prems(2) good(1) cb] obtain new where n: "rt_tmp e1 = rt_tmp e @ new" "obs_grows (rt_obs e) (rt_obs e1)"
      "inv (rt_c e1)" "good f1" "\<forall>x \<in> set new. good (rt_frag x)"
      "res \<noteq> io_fatal" "res \<noteq> io_invalid_data"
      "covered content new \<union> (if res = io_no_capacity \<or> res = io_not_in_io_state then content f1 else {}) = content (rt_frag it)"
      by blast
    note l = later [OF n(2)]
    have u: "covered content (filter (\<lambda>x. \<not> ah_is_ack ?st (rt_wait x)) rest) \<subseteq> covered content rest" by (auto simp: covered_def)
    consider (full) "res = io_no_capacity" | (left) "res = io_not_in_io_state"
      | (sent) "res \<notin> {io_fatal, io_invalid_data, io_no_capacity, io_not_in_io_state}" using n(6,7) by blast
    then show ?thesis
    proof cases
      case full
      then have "r = io_ok" "fs = it\<lparr>rt_frag := f1\<rparr> # rest" "e' = e1" using Cons.prems(1) lost cb by auto
      then show ?thesis using full n lost(1) good(2) u by auto
    next
      case left
      obtain h obs where w: "ah_wait (rt_obs e1) = (h, obs)" by (metis surj_pair)
      let ?e2 = "e1\<lparr>rt_obs := obs\<rparr>"
      have g: "obs_grows (rt_obs e) (rt_obs ?e2)" using n(2) ah_wait_grows [OF w] obs_grows_trans by auto
      obtain fs' where fs: "retransmit_loop cb rest ?e2 = (r, fs', e')" "fs = it\<lparr>rt_frag := f1, rt_wait := h\<rparr> # fs'"
        using Cons.prems(1) lost cb left w by (auto split: prod.splits)
      have "inv (rt_c ?e2)" "stored (snd (rt_obs ?e2)) rest" using n(3) later [OF g] by simp_all
      from Cons.IH [OF fs(1) this(1) good(2) this(2)] show ?thesis
        using fs(2) left n lost(1) later [OF g] obs_grows_trans [OF g] by (elim exE, intro exI [of _ "new @ _"]) auto
    next
      case sent
      then have fs: "retransmit_loop cb rest e1 = (r, fs, e')" using Cons.prems(1) lost cb by auto
      have "inv (rt_c e1)" "stored (snd (rt_obs e1)) rest" using n(3) l by simp_all
      from Cons.IH [OF fs this(1) good(2) this(2)] show ?thesis
        using sent n lost(1) l obs_grows_trans [OF n(2)] by (elim exE, intro exI [of _ "new @ _"]) auto
    qed
  qed
qed

lemma retransmit_keeps:
  assumes "inv c" "\<forall>x \<in> set frags. good (rt_frag x)" "stored (snd obs) frags"
  shows "\<exists>fs obs' c'. retransmit cb frags obs c = (io_ok, fs, obs', c') \<and> inv c' \<and> obs_grows obs obs'
     \<and> (\<forall>x \<in> set fs. good (rt_frag x))
     \<and> covered content (filter (\<lambda>x. \<not> ah_is_ack (snd obs) (rt_wait x)) frags) \<subseteq> covered content fs
     \<and> covered content fs \<subseteq> covered content frags"
proof -
  obtain r fs e where l: "retransmit_loop cb frags \<lparr>rt_tmp = [], rt_obs = obs, rt_c = c\<rparr> = (r, fs, e)" by (metis surj_pair)
  from loop_keeps [OF l] show ?thesis using assms l by (auto simp: retransmit_def)
qed

end

end
