(* ===== verification/SendStream.thy ===== *)
theory SendStream
  imports Resend
begin

text \<open>
  A sending stream of a connection (\<^verbatim>\<open>fnet/quic/stream/impl/stream.h\<close>,
  \<^verbatim>\<open>SendUniStream\<close>): the stream base together with the fragments that wait for an
  acknowledgement and the reset that does.

  The connection is a weak pointer in the source: its state is an argument, \<open>None\<close>
  once it is gone. The fairness limit and the callback of the send buffer belong to
  the application and are arguments.
\<close>

record StreamFragment =
  sg_offset :: u64
  sg_data :: "byte list"
  sg_fin :: bool

record SendUniStream =
  su_uni :: SendUniStreamBase
  su_reset_wait :: ACKHandler
  su_frags :: "StreamFragment Resend list"

definition maybe_send_done :: "SendUniStream \<Rightarrow> SendUniStream" where
  "maybe_send_done s =
     (if is_data_sent (sb_state (su_uni s)) \<and> length (su_frags s) = 0 then s\<lparr>su_uni := snd (all_send_done (su_uni s))\<rparr> else s)"

text \<open>
  The two callbacks of \<^verbatim>\<open>send_retransmit\<close>. They share the fragment, the flag
  \<^verbatim>\<open>should_remove\<close> and the variables of the retransmission, whose captured variable is
  the packet.
\<close>

definition save_retransmit :: "(StreamFragment \<Rightarrow> (StreamFragment, fwriter) rt_env \<Rightarrow> (StreamFragment, fwriter) rt_env)
    \<Rightarrow> Fragment \<Rightarrow> Fragment \<Rightarrow> bool \<Rightarrow> (StreamFragment \<times> bool \<times> (StreamFragment, fwriter) rt_env) action" where
  "save_retransmit save sent rest has_remain v = (case v of (frag, should_remove, e) \<Rightarrow>
     let e = save \<lparr>sg_offset = frag_offset sent, sg_data = frag_fragment sent, sg_fin = frag_fin sent\<rparr> e in
     if has_remain
     then (True, (frag\<lparr>sg_data := frag_fragment rest, sg_offset := frag_offset rest, sg_fin := frag_fin rest\<rparr>, should_remove, e))
     else (True, (frag, True, e)))"

definition retransmit_fragment :: "SendUniStreamBase \<Rightarrow> (StreamFragment, fwriter) rt_send" where
  "retransmit_fragment uni save frag e =
     (case send_retransmit_stream (sg_offset frag) (sg_data frag) (sg_fin frag) (save_retransmit save) uni (rt_c e)
             (frag, False, e) of (res, w, (frag, should_remove, e)) \<Rightarrow>
      let e = e\<lparr>rt_c := w\<rparr> in
      if res = io_fatal \<or> res = io_invalid_data then (res, frag, e)
      else if should_remove then (io_ok, frag, e)
      else (io_not_in_io_state, frag, e))"

definition send_retransmit :: "observer \<Rightarrow> fwriter \<Rightarrow> SendUniStream \<Rightarrow> IOResult \<times> observer \<times> fwriter \<times> SendUniStream" where
  "send_retransmit obs w s =
     (if \<not> can_retransmit (sb_state (su_uni s)) then (io_not_in_io_state, obs, w, s)
      else case retransmit (retransmit_fragment (su_uni s)) (su_frags s) obs w of (res, fs, obs, w) \<Rightarrow>
        let s = s\<lparr>su_frags := fs\<rparr> in
        (res, obs, w, if res = io_ok then maybe_send_done s else s))"

definition send_stream_unlocked :: "u64 \<Rightarrow> observer \<Rightarrow> fwriter \<Rightarrow> StreamsState option \<Rightarrow> SendUniStream
    \<Rightarrow> IOResult \<times> observer \<times> fwriter \<times> StreamsState option \<times> SendUniStream" where
  "send_stream_unlocked fairness_limit obs w conn s = (case conn of None \<Rightarrow> (io_fatal, obs, w, conn, s) | Some c \<Rightarrow>
     (case send_retransmit obs w s of (res, obs, w, s) \<Rightarrow>
      if res \<noteq> io_ok \<and> res \<noteq> io_no_data \<and> res \<noteq> io_not_in_io_state then (res, obs, w, conn, s)
      else case send_stream fairness_limit
             (\<lambda>frag (frags, obs). (True, save_new_frag frags
                \<lparr>sg_offset = frag_offset frag, sg_data = frag_fragment frag, sg_fin = frag_fin frag\<rparr> obs))
             (su_uni s) c w (su_frags s, obs) of ((res, blocked_size), uni, c, w, (frags, obs)) \<Rightarrow>
        let s = s\<lparr>su_uni := uni, su_frags := frags\<rparr> in
        if res = io_block_by_stream then
          (case send_stream_blocked (sb_id uni) blocked_size w of (res, w) \<Rightarrow>
             (if res = io_ok then io_block_by_stream else res, obs, w, Some c, s))
        else if res = io_block_by_conn then
          (case send_conn_blocked blocked_size w of (res, w) \<Rightarrow>
             (if res = io_ok then io_block_by_conn else res, obs, w, Some c, s))
        else (res, obs, w, Some c, s)))"

definition send_reset_unlocked :: "observer \<Rightarrow> fwriter \<Rightarrow> SendUniStream \<Rightarrow> IOResult \<times> observer \<times> fwriter \<times> SendUniStream" where
  "send_reset_unlocked obs w s =
     (if not_confirmed (su_reset_wait s) then
        if ah_is_ack (snd obs) (su_reset_wait s) then
          (case reset_done (su_uni s) of (r, uni) \<Rightarrow> (r, obs, w, s\<lparr>su_reset_wait := ah_confirm, su_uni := uni\<rparr>))
        else if ah_is_lost (snd obs) (su_reset_wait s) then
          (case send_retransmit_reset w (su_uni s) of (res, w) \<Rightarrow>
             if res = io_ok then (case ah_wait obs of (h, obs) \<Rightarrow> (res, obs, w, s\<lparr>su_reset_wait := h\<rparr>))
             else (res, obs, w, s))
        else (io_ok, obs, w, s)
      else case send_reset_if_stop_required w (su_uni s) of (r, w, uni) \<Rightarrow>
        let s = s\<lparr>su_uni := uni\<rparr> in
        if r \<noteq> io_ok then (r, obs, w, s)
        else case ah_wait obs of (h, obs) \<Rightarrow> (io_ok, obs, w, s\<lparr>su_reset_wait := h\<rparr>))"

definition detect_ack_lost :: "ack_store \<Rightarrow> SendUniStream \<Rightarrow> IOResult \<times> SendUniStream" where
  "detect_ack_lost st s =
     (if not_confirmed (su_reset_wait s) then
        if ah_is_ack st (su_reset_wait s) then (io_not_in_io_state, s\<lparr>su_uni := snd (reset_done (su_uni s))\<rparr>)
        else if ah_is_lost st (su_reset_wait s) then (io_ok, s)
        else (io_no_data, s)
      else case detect_ack_and_lost st (su_frags s) of (lost, fs) \<Rightarrow>
        let should_be_active = (lost \<noteq> 0); s = maybe_send_done (s\<lparr>su_frags := fs\<rparr>) in
        (if send_is_terminal_state (sb_state (su_uni s)) then io_not_in_io_state
         else if should_be_active then io_ok else io_no_data, s))"

definition sender_send :: "(SendUniStream \<Rightarrow> SendUniStream) \<Rightarrow> u64 \<Rightarrow> observer \<Rightarrow> fwriter \<Rightarrow> StreamsState option \<Rightarrow> SendUniStream
    \<Rightarrow> (IOResult \<times> bool) \<times> observer \<times> fwriter \<times> StreamsState option \<times> SendUniStream" where
  "sender_send send_callback fairness_limit obs w conn s =
     (let s = send_callback s in
      if send_is_terminal_state (sb_state (su_uni s)) then ((io_ok, True), obs, w, conn, s)
      else case send_reset_unlocked obs w s of (res, obs, w, s) \<Rightarrow>
        if res \<noteq> io_not_in_io_state then ((res, send_is_terminal_state (sb_state (su_uni s))), obs, w, conn, s)
        else case send_stream_unlocked fairness_limit obs w conn s of (res, obs, w, conn, s) \<Rightarrow>
          ((res, send_is_terminal_state (sb_state (su_uni s))), obs, w, conn, s))"

definition sender_recv :: "(SendUniStream \<Rightarrow> SendUniStream) \<Rightarrow> any_frame \<Rightarrow> SendUniStream action" where
  "sender_recv recv_callback frame s = (case frame of
       StopSendingF f \<Rightarrow> (True, recv_callback (s\<lparr>su_uni := stream_recv_stop_sending f (su_uni s)\<rparr>))
     | MaxStreamDataF f \<Rightarrow> (True, recv_callback (s\<lparr>su_uni := snd (recv_max_stream_data f (su_uni s))\<rparr>))
     | _ \<Rightarrow> (False, recv_callback s))"

section \<open>Retransmission keeps the data\<close>

text \<open>
  What a fragment stands for: bytes at their positions, and the end of the stream.
  It lies within what the stream has written.
\<close>

definition frag_content :: "StreamFragment \<Rightarrow> (nat \<times> byte option) set" where
  "frag_content f = (\<lambda>i. (unat (sg_offset f) + i, Some (sg_data f ! i))) ` {..< length (sg_data f)}
     \<union> (if sg_fin f then {(unat (sg_offset f) + length (sg_data f), None)} else {})"

definition frag_good :: "SendUniStreamBase \<Rightarrow> StreamFragment \<Rightarrow> bool" where
  "frag_good uni f \<longleftrightarrow> sb_id uni < 2 ^ 62 \<and> unat (sg_offset f) + length (sg_data f) < 2 ^ 62
     \<and> unat (sg_offset f) + length (sg_data f) \<le> unat (wd_written_offset (sb_data uni))
     \<and> (sg_fin f \<longrightarrow> wd_fin_written (sb_data uni)
          \<and> unat (sg_offset f) + length (sg_data f) = unat (wd_written_offset (sb_data uni)))"

definition packet_wf :: "fwriter \<Rightarrow> bool" where
  "packet_wf w \<longleftrightarrow> writer_wf (fw_w w) \<and> room (fw_w w) < 2 ^ 61"

lemma positions_split:
  assumes "n \<le> length d"
  shows "(\<lambda>i. (p + i, Some (d ! i))) ` {..< length d}
     = (\<lambda>i. (p + i, Some (take n d ! i))) ` {..< n} \<union> (\<lambda>i. (p + n + i, Some (drop n d ! i))) ` {..< length d - n}"
proof -
  have "x \<in> (\<lambda>i. n + i) ` {..< length d - n} \<longleftrightarrow> n \<le> x \<and> x < length d" for x
    by (auto simp: image_iff intro!: bexI [of _ "x - n"])
  then have "{..< length d} = {..< n} \<union> (\<lambda>i. n + i) ` {..< length d - n}" using assms by auto
  moreover have "(\<lambda>i. (p + i, Some (take n d ! i))) ` {..< n} = (\<lambda>i. (p + i, Some (d ! i))) ` {..< n}"
    by (rule image_cong) simp_all
  moreover have "(\<lambda>i. (p + n + i, Some (drop n d ! i))) ` {..< length d - n}
      = (\<lambda>i. (p + i, Some (d ! i))) ` (\<lambda>i. n + i) ` {..< length d - n}"
    unfolding image_image using assms by (intro image_cong) (simp_all add: add.assoc)
  ultimately show ?thesis by (simp only: image_Un)
qed

lemma frag_content_split:
  assumes "n \<le> length d" "unat off2 = unat off + n"
  shows "frag_content \<lparr>sg_offset = off, sg_data = take n d, sg_fin = fin \<and> n = length d\<rparr>
       \<union> (if n < length d then frag_content \<lparr>sg_offset = off2, sg_data = drop n d, sg_fin = fin\<rparr> else {})
     = frag_content \<lparr>sg_offset = off, sg_data = d, sg_fin = fin\<rparr>"
proof (cases "n = length d")
  case False
  then show ?thesis
    using positions_split [OF assms(1), of "unat off"] assms
    unfolding frag_content_def by (simp add: min_absorb2 Un_assoc)
qed (simp add: frag_content_def)

lemma retransmit_fragment_unsent:
  assumes "make_fit_size_Stream (of_nat (length (fw_remain (rt_c e)))) (sb_id uni) (sg_offset f) (sg_data f) (sg_fin f) (sg_fin f)
      = (frame, False)" and "frag_good uni f" and "can_retransmit (sb_state uni)"
  shows "retransmit_fragment uni save f e = (io_not_in_io_state, f, e)"
proof -
  have "unat (sg_offset f + of_nat (length (sg_data f))) = unat (sg_offset f) + length (sg_data f)"
    using assms(2) by (simp add: frag_good_def unat_word_ariths unat_of_nat_u64)
  then have "\<not> sg_offset f + of_nat (length (sg_data f)) > wd_written_offset (sb_data uni)"
    "\<not> (sg_fin f \<and> \<not> wd_fin_written (sb_data uni))" "\<not> (sg_fin f \<and> sg_offset f + of_nat (length (sg_data f)) \<noteq> wd_written_offset (sb_data uni))"
    using assms(2) by (auto simp: frag_good_def word_less_nat_alt intro: unat_eqI)
  then show ?thesis
    using assms(1,3) by (auto simp: retransmit_fragment_def send_retransmit_stream_def Let_def)
qed

lemma retransmit_fragment_cases:
  assumes "retransmit_fragment uni save f e = (res, f', e')" "packet_wf (rt_c e)" "frag_good uni f"
    and save: "\<And>x. rt_c (save x e) = rt_c e"
  obtains (unsent) "f' = f" "e' = e" "res = io_not_in_io_state"
  | (sent) n w where "n \<le> length (sg_data f)" "packet_wf w"
      "e' = (save \<lparr>sg_offset = sg_offset f, sg_data = take n (sg_data f), sg_fin = (sg_fin f \<and> n = length (sg_data f))\<rparr> e)\<lparr>rt_c := w\<rparr>"
      "res = (if n < length (sg_data f) then io_not_in_io_state else io_ok)"
      "f' = (if n < length (sg_data f) then \<lparr>sg_offset = sg_offset f + of_nat n, sg_data = drop n (sg_data f), sg_fin = sg_fin f\<rparr> else f)"
proof -
  let ?w = "rt_c e" and ?d = "sg_data f" and ?off = "sg_offset f"
  let ?stop = "?off + of_nat (length ?d)" and ?written = "wd_written_offset (sb_data uni)"
  let ?pass = "can_retransmit (sb_state uni) \<and> \<not> ?stop > ?written \<and> \<not> (sg_fin f \<and> \<not> wd_fin_written (sb_data uni))
    \<and> \<not> (sg_fin f \<and> ?stop \<noteq> ?written)"
  let ?fit = "make_fit_size_Stream (of_nat (length (fw_remain ?w))) (sb_id uni) ?off ?d (sg_fin f) (sg_fin f)"
  have e: "e\<lparr>rt_c := ?w\<rparr> = e" by simp
  show thesis
  proof (cases "?pass \<and> snd ?fit")
    case False
    have "unat ?stop = unat ?off + length ?d" using assms(3) by (simp add: frag_good_def unat_word_ariths unat_of_nat_u64)
    then have "\<not> ?stop > ?written" "\<not> (sg_fin f \<and> \<not> wd_fin_written (sb_data uni))" "\<not> (sg_fin f \<and> ?stop \<noteq> ?written)"
      using assms(3) by (auto simp: frag_good_def word_less_nat_alt intro: unat_eqI)
    with False have "f' = f \<and> e' = e \<and> res = io_not_in_io_state"
      using assms(1) e by (cases ?fit)
        (auto simp: retransmit_fragment_def send_retransmit_stream_def Let_def simp del: rt_env.surjective split: if_splits)
    then show thesis using unsent by blast
  next
    case True
    then obtain frame where fit: "?fit = (frame, True)" by (cases ?fit) auto
    have r: "length (fw_remain ?w) = room (fw_w ?w)" by (simp add: fw_remain_def room_remain)
    have "uint (of_nat (room (fw_w ?w)) :: u64) = int (room (fw_w ?w))" "room (fw_w ?w) < 2 ^ 61"
      using assms(2) by (simp_all add: packet_wf_def unat_of_nat_u64 uint_nat)
    with fit_stream [OF fit, unfolded r] assms(3) obtain n where n: "stream_len False frame \<le> room (fw_w ?w)" "n \<le> length ?d"
      "sf_stream_data frame = take n ?d" "STREAM_fin (f_type frame) \<longleftrightarrow> sg_fin f \<and> n = length ?d"
      "vval (sf_offset frame) = ?off" "stream_ok frame"
      by (auto simp: frag_good_def word_less_nat_alt)
    have wf: "any_wf (StreamF frame)" using n(2,3) assms(3) by (simp add: size_t_ok_def frag_good_def min_absorb2)
    define w where "w = snd (fw_write (StreamF frame) ?w)"
    have w: "fw_write (StreamF frame) ?w = (True, w)" "fw_w w = emit (stream_enc frame) (fw_w ?w)"
      using fw_write_ok [OF wf, of ?w] n(1,6) assms(2) by (simp_all add: w_def packet_wf_def)
    have "length (stream_enc frame) \<le> room (fw_w ?w)" using any_len_enc [OF wf] n(1,6) by simp
    then have pw: "packet_wf w"
      using emit_wf emit_room assms(2) w(2) by (simp add: packet_wf_def less_imp_diff_less)
    have sfd: "length (sf_stream_data frame) = n" "rsubstr_from ?d n = drop n ?d" using n(2,3) by (simp_all add: rsubstr_from_def)
    show thesis
      by (rule sent [OF n(2) pw])
        (use assms(1) True fit w(1) n(2-5) sfd in \<open>auto simp: retransmit_fragment_def send_retransmit_stream_def Let_def
           save_retransmit_def split: if_splits\<close>)
  qed
qed

interpretation stream_rt: retransmission "retransmit_fragment uni" frag_content "frag_good uni" packet_wf
  for uni :: SendUniStreamBase
proof
  fix e :: "(StreamFragment, fwriter) rt_env" and f f' :: StreamFragment and res e'
  assume inv: "packet_wf (rt_c e)" and good: "frag_good uni f" and cb: "retransmit_fragment uni save_new f e = (res, f', e')"
  have s: "rt_c (save_new x e) = rt_c e" for x by (simp add: save_new_def split_beta)
  show "\<exists>new. rt_tmp e' = rt_tmp e @ new \<and> obs_grows (rt_obs e) (rt_obs e') \<and> packet_wf (rt_c e') \<and> frag_good uni f'
       \<and> (\<forall>x \<in> set new. frag_good uni (rt_frag x))
       \<and> res \<noteq> io_fatal \<and> res \<noteq> io_invalid_data \<and> covered frag_content new
            \<union> (if res = io_no_capacity \<or> res = io_not_in_io_state then frag_content f' else {}) = frag_content f"
  proof (cases rule: retransmit_fragment_cases [OF cb inv good s, case_names unsent sent])
    case unsent
    then show ?thesis using inv good by (intro exI [of _ "[]"]) auto
  next
    case (sent n w)
    let ?new = "\<lparr>sg_offset = sg_offset f, sg_data = take n (sg_data f), sg_fin = (sg_fin f \<and> n = length (sg_data f))\<rparr>"
    obtain h obs where h: "ah_wait (rt_obs e) = (h, obs)" by (metis surj_pair)
    have "unat (sg_offset f + of_nat n) = unat (sg_offset f) + n"
      using good sent(1) by (simp add: frag_good_def unat_word_ariths unat_of_nat_u64)
    note split = frag_content_split [OF sent(1) this, of "sg_fin f"]
    have f: "\<lparr>sg_offset = sg_offset f, sg_data = sg_data f, sg_fin = sg_fin f\<rparr> = f" by simp
    have g: "frag_good uni f'" "frag_good uni ?new"
      using good sent(1,5) \<open>unat (sg_offset f + of_nat n) = _\<close> by (auto simp: frag_good_def)
    have e': "rt_tmp e' = rt_tmp e @ [\<lparr>rt_frag = ?new, rt_wait = h\<rparr>]" "rt_obs e' = obs" "rt_c e' = w"
      by (simp_all add: sent(3) save_new_def save_new_frag_def h)
    have "frag_content ?new \<union> (if res = io_no_capacity \<or> res = io_not_in_io_state then frag_content f' else {}) = frag_content f"
      using split sent(1,4,5) unfolding f by (simp split: if_splits)
    then show ?thesis
      using e' g ah_wait_grows [OF h] sent(2,4) by (intro exI [of _ "[\<lparr>rt_frag = ?new, rt_wait = h\<rparr>]"]) simp
  qed
qed

section \<open>Properties\<close>


text \<open>A stream that has sent ten bytes, of which the last two, with the end, were lost.\<close>

definition lost_stream :: SendUniStream where
  "lost_stream = \<lparr>su_uni = \<lparr>sb_id = 0, sb_state = send_init\<lparr>sst_state := data_sent\<rparr>,
        sb_data = write_data_init\<lparr>wd_written_offset := 10, wd_fin := True, wd_fin_written := True\<rparr>\<rparr>,
     su_reset_wait = None, su_frags = [\<lparr>rt_frag = \<lparr>sg_offset = 8, sg_data = [1, 2], sg_fin = True\<rparr>, rt_wait = Some 0\<rparr>]\<rparr>"


text \<open>
  C31. Data that did not fit are given up: a lost fragment that does not fit into the
  packet any more is kept, but it then waits for that packet, in which nothing of it was written.
  When the packet is acknowledged, the fragment is dropped, and if it was the last
  one the stream counts as completely received by the peer.
\<close>

theorem unsent_data_counted_as_received:
  assumes "sst_state (sb_state (su_uni s)) = data_sent" and "packet_wf w" and "su_reset_wait s = None"
    and "su_frags s = [\<lparr>rt_frag = f, rt_wait = Some a\<rparr>]" and "frag_good (su_uni s) f"
    and "a < length st" and "st ! a = al_lost"
    and "\<not> snd (make_fit_size_Stream (of_nat (length (fw_remain w))) (sb_id (su_uni s)) (sg_offset f) (sg_data f) (sg_fin f) (sg_fin f))"
  shows "\<exists>r st' s' s''. send_retransmit (None, st) w s = (io_ok, (Some r, st'), w, s') \<and> st' ! r = al_wait
     \<and> detect_ack_lost (mark_as_ack (Some r) st') s' = (io_not_in_io_state, s'')
     \<and> su_frags s'' = [] \<and> sst_state (sb_state (su_uni s'')) = data_recved"
proof -
  let ?e = "\<lparr>rt_tmp = [], rt_obs = (None, st), rt_c = w\<rparr>"
  obtain frame where fit: "make_fit_size_Stream (of_nat (length (fw_remain w))) (sb_id (su_uni s)) (sg_offset f) (sg_data f) (sg_fin f) (sg_fin f)
      = (frame, False)" using assms(8) by (metis prod.collapse)
  have cb: "retransmit_fragment (su_uni s) save_new f ?e = (io_not_in_io_state, f, ?e)"
    using retransmit_fragment_unsent [of ?e] fit assms(1,5) by (simp add: can_retransmit_def)
  have "retransmit (retransmit_fragment (su_uni s)) (su_frags s) (None, st) w
      = (io_ok, [\<lparr>rt_frag = f, rt_wait = Some (length st)\<rparr>], (Some (length st), st @ [al_wait]), w)"
    using assms(4,6,7)
    by (simp add: retransmit_def cb ah_is_ack_def ah_is_lost_def ah_wait_def recorder_record_def make_ack_wait_def)
  then have "send_retransmit (None, st) w s = (io_ok, (Some (length st), st @ [al_wait]), w,
      s\<lparr>su_frags := [\<lparr>rt_frag = f, rt_wait = Some (length st)\<rparr>]\<rparr>)"
    using assms(1) by (simp add: send_retransmit_def can_retransmit_def maybe_send_done_def)
  then show ?thesis
    using assms(1,3)
    by (simp add: detect_ack_lost_def not_confirmed_def mark_as_ack_def ah_is_ack_def maybe_send_done_def
        is_data_sent_def all_send_done_def sent_ack_def send_is_terminal_state_def)
qed

theorem unsent_data_counted_as_received_witness:
  "\<exists>r st' s' s''. send_retransmit (None, [al_lost]) (make_fwriter (make_writer [0])) lost_stream
       = (io_ok, (Some r, st'), make_fwriter (make_writer [0]), s')
     \<and> detect_ack_lost (mark_as_ack (Some r) st') s' = (io_not_in_io_state, s'') \<and> su_frags s'' = []"
proof -
  have "\<not> snd (make_fit_size_Stream 1 0 8 [1, 2] True True)"
    by (simp add: make_fit_size_Stream_def shrink_to_fit_no_len_def stream_size_range_def Let_def
        calc_stream_overhead_def length_no_max_len_def varint_len_def min_len_def in_range_def border_def)
  moreover have "length (fw_remain (make_fwriter (make_writer [0]))) = 1"
    by (simp add: fw_remain_def room_remain make_fwriter_def make_writer_def room_def)
  ultimately show ?thesis
    using unsent_data_counted_as_received [of lost_stream "make_fwriter (make_writer [0])"
        "\<lparr>sg_offset = 8, sg_data = [1, 2], sg_fin = True\<rparr>" 0 "[al_lost]"]
    by (auto simp: lost_stream_def packet_wf_def make_fwriter_def make_writer_def writer_wf_def room_def
        frag_good_def write_data_init_def)
qed

end
