(* ===== verification/ConnFlow.thy ===== *)
theory ConnFlow
  imports Resend
begin

text \<open>
  Flow control of a connection with acknowledgements
  (\<^verbatim>\<open>fnet/quic/stream/impl/conn_flow.h\<close>): a frame that announces a new limit is sent
  again when it is lost, until it is acknowledged.
\<close>

record ConnFlowControl =
  fc_base :: StreamsState
  fc_max_data :: ACKHandler
  fc_max_uni_streams :: ACKHandler
  fc_max_bidi_streams :: ACKHandler

text \<open>
  The limit sender: \<open>upd\<close> sends the frame if the limit was updated, \<open>force\<close> in any
  case. Both work on the packet and the state of the connection.
\<close>

type_synonym limit_sender = "fwriter \<Rightarrow> StreamsState \<Rightarrow> IOResult \<times> fwriter \<times> StreamsState"

definition flow_send_limit :: "limit_sender \<Rightarrow> limit_sender \<Rightarrow> observer \<Rightarrow> ACKHandler \<Rightarrow> fwriter \<Rightarrow> StreamsState
    \<Rightarrow> IOResult \<times> observer \<times> ACKHandler \<times> fwriter \<times> StreamsState" where
  "flow_send_limit upd force obs rec w s =
     (case upd w s of (res, w, s) \<Rightarrow>
      if res = io_ok then (case ah_wait obs of (h, obs) \<Rightarrow> (res, obs, h, w, s))
      else if not_confirmed rec then
        (let confirm = (\<lambda>obs rec w s. (io_ok, obs, if ah_is_ack (snd obs) rec then ah_confirm else rec, w, s)) in
         if ah_is_lost (snd obs) rec then
           (case force w s of (res, w, s) \<Rightarrow>
            if res = io_fatal then (res, obs, rec, w, s)
            else if res = io_ok then (case ah_wait obs of (h, obs) \<Rightarrow> confirm obs h w s)
            else confirm obs rec w s)
         else confirm obs rec w s)
      else (io_ok, obs, rec, w, s))"

definition flow_send_max_data :: "observer \<Rightarrow> fwriter \<Rightarrow> ConnFlowControl \<Rightarrow> IOResult \<times> observer \<times> fwriter \<times> ConnFlowControl" where
  "flow_send_max_data obs w c =
     (case flow_send_limit send_max_data_if_updated send_max_data obs (fc_max_data c) w (fc_base c) of (res, obs, h, w, s) \<Rightarrow>
        (res, obs, w, c\<lparr>fc_base := s, fc_max_data := h\<rparr>))"

definition flow_send_max_uni_streams :: "observer \<Rightarrow> fwriter \<Rightarrow> ConnFlowControl \<Rightarrow> IOResult \<times> observer \<times> fwriter \<times> ConnFlowControl" where
  "flow_send_max_uni_streams obs w c =
     (case flow_send_limit send_max_uni_streams_if_updated send_max_uni_streams obs (fc_max_uni_streams c) w (fc_base c) of
        (res, obs, h, w, s) \<Rightarrow> (res, obs, w, c\<lparr>fc_base := s, fc_max_uni_streams := h\<rparr>))"

definition flow_send_max_bidi_streams :: "observer \<Rightarrow> fwriter \<Rightarrow> ConnFlowControl \<Rightarrow> IOResult \<times> observer \<times> fwriter \<times> ConnFlowControl" where
  "flow_send_max_bidi_streams obs w c =
     (case flow_send_limit send_max_bidi_streams_if_updated send_max_bidi_streams obs (fc_max_bidi_streams c) w (fc_base c) of
        (res, obs, h, w, s) \<Rightarrow> (res, obs, w, c\<lparr>fc_base := s, fc_max_bidi_streams := h\<rparr>))"

definition flow_send :: "observer \<Rightarrow> fwriter \<Rightarrow> ConnFlowControl \<Rightarrow> IOResult \<times> observer \<times> fwriter \<times> ConnFlowControl" where
  "flow_send obs w c =
     (case flow_send_max_data obs w c of (res, obs, w, c) \<Rightarrow>
      if res = io_fatal then (res, obs, w, c)
      else case flow_send_max_uni_streams obs w c of (res, obs, w, c) \<Rightarrow>
        if res = io_fatal then (res, obs, w, c)
        else flow_send_max_bidi_streams obs w c)"

section \<open>When a limit is announced\<close>

text \<open>The record of the packet that is being built exists and waits.\<close>

definition obs_ok :: "observer \<Rightarrow> bool" where
  "obs_ok obs \<longleftrightarrow> (case fst obs of None \<Rightarrow> True | Some r \<Rightarrow> r < length (snd obs) \<and> snd obs ! r = al_wait)"

lemma ah_wait_obs_ok:
  assumes "obs_ok obs" "ah_wait obs = (h, obs')"
  shows "obs_ok obs'" "\<exists>r. h = Some r \<and> fst obs' = Some r"
  using assms by (auto simp: obs_ok_def ah_wait_def recorder_record_def make_ack_wait_def split: option.splits prod.splits)

text \<open>
  What a call of the limit sender leaves behind: the frame in the packet if it was
  due, and a handle that is not lost.
\<close>

definition announced :: "bool \<Rightarrow> byte list \<Rightarrow> observer \<Rightarrow> ACKHandler \<Rightarrow> fwriter \<Rightarrow> observer \<Rightarrow> ACKHandler \<Rightarrow> fwriter \<Rightarrow> bool" where
  "announced due bs obs rec w obs' h w' \<longleftrightarrow> obs_ok obs' \<and> obs_grows obs obs' \<and> (fst obs \<noteq> None \<longrightarrow> obs' = obs)
     \<and> writer_wf (fw_w w') \<and> room (fw_w w) \<le> room (fw_w w') + 9 \<and> fw_w w' = emit (if due then bs else []) (fw_w w)
     \<and> \<not> ah_is_lost (snd obs') h \<and> (\<forall>a. h = Some a \<longrightarrow> a < length (snd obs'))
     \<and> h = (if due then fst obs' else if ah_is_ack (snd obs) rec then None else rec) \<and> (due \<longrightarrow> fst obs' \<noteq> None)"

text \<open>
  A pair of senders for a limit: whether an update is pending, the frame that
  announces the current limit, and what sending it changes.
\<close>

locale limit_announcer =
  fixes upd force :: limit_sender and pending :: "StreamsState \<Rightarrow> bool" and frame :: "StreamsState \<Rightarrow> any_frame"
    and sent :: "StreamsState \<Rightarrow> StreamsState"
  assumes upd_def: "upd w s = (if pending s then force w s else (io_not_in_io_state, w, s))"
    and force_def: "force w s = (if length (fw_remain w) < any_len (frame s) then (io_no_capacity, w, s)
       else case fw_write (frame s) w of (ok, w') \<Rightarrow> if ok then (io_ok, w', sent s) else (io_fatal, w', s))"
    and frame_wf: "any_wf (frame s)"
begin

lemma force_ok:
  assumes "any_ok (frame s)" "writer_wf (fw_w w)" "any_len (frame s) \<le> room (fw_w w)"
  shows "force w s = (io_ok, snd (fw_write (frame s) w), sent s)"
  using fw_write_ok [OF frame_wf assms] assms(3) by (simp add: force_def fw_remain_def room_remain)

text \<open>The frame is sent if an update is pending or the last one was lost, and waits for this packet then.\<close>

lemma announce:
  assumes "any_ok (frame s)" "writer_wf (fw_w w)" "any_len (frame s) \<le> room (fw_w w)" and "obs_ok obs"
  shows "flow_send_limit upd force obs rec w s =
     (if pending s \<or> ah_is_lost (snd obs) rec
      then (io_ok, snd (ah_wait obs), fst (ah_wait obs), snd (fw_write (frame s) w), sent s)
      else (io_ok, obs, if ah_is_ack (snd obs) rec then None else rec, w, s))"
proof -
  obtain h obs' where w: "ah_wait obs = (h, obs')" by (metis surj_pair)
  have "\<not> ah_is_ack (snd obs') h" using ah_wait_obs_ok [OF assms(4) w] by (auto simp: ah_is_ack_def obs_ok_def)
  moreover have "ah_is_lost (snd obs) rec \<Longrightarrow> not_confirmed rec" "\<not> not_confirmed rec \<Longrightarrow> \<not> ah_is_ack (snd obs) rec \<and> rec = None"
    by (auto simp: ah_is_lost_def ah_is_ack_def not_confirmed_def split: option.splits)
  ultimately show ?thesis
    using force_ok [OF assms(1-3)] w by (auto simp: flow_send_limit_def upd_def Let_def ah_confirm_def)
qed

lemma announce_step:
  assumes "any_ok (frame s)" "writer_wf (fw_w w)" "any_len (frame s) \<le> 9" "9 \<le> room (fw_w w)" and "obs_ok obs"
    and "\<And>a. rec = Some a \<Longrightarrow> a < length (snd obs)"
  shows "\<exists>obs' h w'. flow_send_limit upd force obs rec w s
       = (io_ok, obs', h, w', if pending s \<or> ah_is_lost (snd obs) rec then sent s else s)
     \<and> announced (pending s \<or> ah_is_lost (snd obs) rec) (any_enc (frame s)) obs rec w obs' h w'"
proof (cases "pending s \<or> ah_is_lost (snd obs) rec")
  case True
  have l: "any_len (frame s) \<le> room (fw_w w)" using assms(3,4) by simp
  have len: "length (any_enc (frame s)) \<le> room (fw_w w)" "length (any_enc (frame s)) \<le> 9"
    using any_len_enc [OF frame_wf assms(1)] assms(3) l by simp_all
  define w' where "w' = snd (fw_write (frame s) w)"
  have w': "fw_w w' = emit (any_enc (frame s)) (fw_w w)"
    using fw_write_ok [OF frame_wf assms(1,2) l] by (simp add: w'_def)
  have "writer_wf (fw_w w')" "room (fw_w w) \<le> room (fw_w w') + 9"
    using emit_wf [OF assms(2) len(1)] emit_room [OF assms(2) len(1)] len(2) w' by simp_all
  moreover obtain h obs' where h: "ah_wait obs = (h, obs')" by (metis surj_pair)
  moreover have "fst obs \<noteq> None \<longrightarrow> obs' = obs"
    using h by (auto simp: ah_wait_def recorder_record_def split: prod.splits option.splits)
  moreover obtain r where "h = Some r" "fst obs' = Some r" "obs_ok obs'" using ah_wait_obs_ok [OF assms(5) h] by blast
  ultimately show ?thesis
    using announce [OF assms(1,2) l assms(5), of rec] True w' ah_wait_grows [OF h]
    by (auto simp: announced_def w'_def [symmetric] obs_ok_def ah_is_lost_def)
next
  case False
  have "9 \<le> room (fw_w w) \<Longrightarrow> any_len (frame s) \<le> room (fw_w w)" using assms(3) by simp
  then show ?thesis
    using announce [OF assms(1,2) _ assms(5), of rec] False assms(2-6) by (auto simp: announced_def ah_is_lost_def split: if_splits)
qed

end

text \<open>The frames that announce the three limits, and those that are due.\<close>

definition max_data_frame :: "StreamsState \<Rightarrow> any_frame" where
  "max_data_frame s = MaxDataF (max_data_fresh\<lparr>md_max_data := Value (lim_limit (cf_recv (s_conn_flow s)))\<rparr>)"

definition max_uni_frame :: "StreamsState \<Rightarrow> any_frame" where
  "max_uni_frame s = MaxStreamsF (max_streams_fresh\<lparr>f_type := FrameFlags_of (FT MAX_STREAMS_UNI),
     ms_max_streams := Value (lim_limit (ac_limit (s_uni_acceptor s)))\<rparr>)"

definition max_bidi_frame :: "StreamsState \<Rightarrow> any_frame" where
  "max_bidi_frame s = MaxStreamsF (max_streams_fresh\<lparr>f_type := FrameFlags_of (FT MAX_STREAMS),
     ms_max_streams := Value (lim_limit (ac_limit (s_bidi_acceptor s)))\<rparr>)"

definition data_due :: "ack_store \<Rightarrow> ConnFlowControl \<Rightarrow> bool" where
  "data_due st c \<longleftrightarrow> cf_should_send_limit_update (s_conn_flow (fc_base c)) \<or> ah_is_lost st (fc_max_data c)"

definition uni_due :: "ack_store \<Rightarrow> ConnFlowControl \<Rightarrow> bool" where
  "uni_due st c \<longleftrightarrow> ac_should_send_limit_update (s_uni_acceptor (fc_base c)) \<or> ah_is_lost st (fc_max_uni_streams c)"

definition bidi_due :: "ack_store \<Rightarrow> ConnFlowControl \<Rightarrow> bool" where
  "bidi_due st c \<longleftrightarrow> ac_should_send_limit_update (s_bidi_acceptor (fc_base c)) \<or> ah_is_lost st (fc_max_bidi_streams c)"

definition due_frames :: "ack_store \<Rightarrow> ConnFlowControl \<Rightarrow> any_frame list" where
  "due_frames st c = (if data_due st c then [max_data_frame (fc_base c)] else [])
     @ (if uni_due st c then [max_uni_frame (fc_base c)] else []) @ (if bidi_due st c then [max_bidi_frame (fc_base c)] else [])"

definition limits_ok :: "StreamsState \<Rightarrow> bool" where
  "limits_ok s \<longleftrightarrow> lim_limit (cf_recv (s_conn_flow s)) < 2 ^ 62 \<and> lim_limit (ac_limit (s_uni_acceptor s)) < 2 ^ 62
     \<and> lim_limit (ac_limit (s_bidi_acceptor s)) < 2 ^ 62"

interpretation max_data_limit: limit_announcer send_max_data_if_updated send_max_data
  "\<lambda>s. cf_should_send_limit_update (s_conn_flow s)" max_data_frame
  "\<lambda>s. s\<lparr>s_conn_flow := (s_conn_flow s)\<lparr>cf_should_send_limit_update := False\<rparr>\<rparr>"
  by unfold_locales (auto simp: send_max_data_if_updated_def send_max_data_def max_data_frame_def Let_def split_beta)

interpretation max_uni_limit: limit_announcer send_max_uni_streams_if_updated send_max_uni_streams
  "\<lambda>s. ac_should_send_limit_update (s_uni_acceptor s)" max_uni_frame
  "\<lambda>s. s\<lparr>s_uni_acceptor := (s_uni_acceptor s)\<lparr>ac_should_send_limit_update := False\<rparr>\<rparr>"
  by unfold_locales (auto simp: send_max_uni_streams_if_updated_def send_max_uni_streams_def max_uni_frame_def Let_def split_beta
      FrameFlags_of_def FT.simps)

interpretation max_bidi_limit: limit_announcer send_max_bidi_streams_if_updated send_max_bidi_streams
  "\<lambda>s. ac_should_send_limit_update (s_bidi_acceptor s)" max_bidi_frame
  "\<lambda>s. s\<lparr>s_bidi_acceptor := (s_bidi_acceptor s)\<lparr>ac_should_send_limit_update := False\<rparr>\<rparr>"
  by unfold_locales (auto simp: send_max_bidi_streams_if_updated_def send_max_bidi_streams_def max_bidi_frame_def Let_def split_beta
      FrameFlags_of_def FT.simps)

lemma limit_frames_ok:
  assumes "limits_ok s"
  shows "any_ok (max_data_frame s)" "any_len (max_data_frame s) \<le> 9"
    "any_ok (max_uni_frame s)" "any_len (max_uni_frame s) \<le> 9"
    "any_ok (max_bidi_frame s)" "any_len (max_bidi_frame s) \<le> 9"
proof -
  have v: "varint_ok (Value x) \<and> unat (varint_len (Value x)) \<le> 8" if "x < 2 ^ 62" for x
    using that venc_ge_1 [of "Value x"] length_venc [of "Value x"] by (simp add: varint_ok_Value)
  have t: "type_minlen (FrameFlags_of (FT t)) = 1 \<and> varint_ok (Value (FrameFlags_of (FT t)))"
    if "t \<in> {MAX_DATA, MAX_STREAMS, MAX_STREAMS_UNI}" for t
    using that by (auto simp: type_minlen_def min_len_def in_range_def border_def FrameFlags_of_def FT.simps varint_ok_Value)
  show "any_ok (max_data_frame s)" "any_len (max_data_frame s) \<le> 9"
    using assms v t by (simp_all add: limits_ok_def max_data_frame_def max_data_ok_def max_data_len_def)
  show "any_ok (max_uni_frame s)" "any_len (max_uni_frame s) \<le> 9"
    using assms v t by (simp_all add: limits_ok_def max_uni_frame_def max_streams_ok_def max_streams_len_def)
  show "any_ok (max_bidi_frame s)" "any_len (max_bidi_frame s) \<le> 9"
    using assms v t by (simp_all add: limits_ok_def max_bidi_frame_def max_streams_ok_def max_streams_len_def)
qed

definition flow_wf :: "observer \<Rightarrow> fwriter \<Rightarrow> ConnFlowControl \<Rightarrow> bool" where
  "flow_wf obs w c \<longleftrightarrow> limits_ok (fc_base c) \<and> writer_wf (fw_w w) \<and> obs_ok obs
     \<and> (\<forall>h \<in> {fc_max_data c, fc_max_uni_streams c, fc_max_bidi_streams c}. \<forall>a. h = Some a \<longrightarrow> a < length (snd obs))"

lemma data_step:
  assumes "flow_wf obs w c" "9 \<le> room (fw_w w)"
  shows "\<exists>obs' w' c'. flow_send_max_data obs w c = (io_ok, obs', w', c') \<and> flow_wf obs' w' c'
     \<and> announced (data_due (snd obs) c) (any_enc (max_data_frame (fc_base c))) obs (fc_max_data c) w obs' (fc_max_data c') w'
     \<and> \<not> data_due (snd obs') c' \<and> uni_due (snd obs') c' = uni_due (snd obs) c \<and> bidi_due (snd obs') c' = bidi_due (snd obs) c
     \<and> max_uni_frame (fc_base c') = max_uni_frame (fc_base c) \<and> max_bidi_frame (fc_base c') = max_bidi_frame (fc_base c)"
proof -
  have wf: "limits_ok (fc_base c)" "writer_wf (fw_w w)" "obs_ok obs" using assms(1) by (simp_all add: flow_wf_def)
  have st: "\<And>a. fc_max_data c = Some a \<Longrightarrow> a < length (snd obs)" "\<And>a. fc_max_uni_streams c = Some a \<Longrightarrow> a < length (snd obs)"
    "\<And>a. fc_max_bidi_streams c = Some a \<Longrightarrow> a < length (snd obs)" using assms(1) by (simp_all add: flow_wf_def)
  from max_data_limit.announce_step [OF limit_frames_ok(1) [OF wf(1)] wf(2) limit_frames_ok(2) [OF wf(1)] assms(2) wf(3) st(1)]
  obtain obs' h w' where a: "flow_send_limit send_max_data_if_updated send_max_data obs (fc_max_data c) w (fc_base c) = (io_ok, obs', h, w',
      if data_due (snd obs) c then (fc_base c)\<lparr>s_conn_flow := (s_conn_flow (fc_base c))\<lparr>cf_should_send_limit_update := False\<rparr>\<rparr> else fc_base c)"
    "announced (data_due (snd obs) c) (any_enc (max_data_frame (fc_base c))) obs (fc_max_data c) w obs' h w'"
    unfolding data_due_def by blast
  have g: "obs_grows obs obs'" using a(2) by (simp add: announced_def)
  note lost = ah_state_grows(2) [OF g st(2)] ah_state_grows(2) [OF g st(3)]
  show ?thesis
    using a wf(1) st lost g
    by (cases "data_due (snd obs) c") (auto simp: flow_send_max_data_def flow_wf_def announced_def limits_ok_def data_due_def uni_due_def bidi_due_def
        max_uni_frame_def max_bidi_frame_def obs_grows_def intro: less_le_trans)
qed

lemma uni_step:
  assumes "flow_wf obs w c" "9 \<le> room (fw_w w)"
  shows "\<exists>obs' w' c'. flow_send_max_uni_streams obs w c = (io_ok, obs', w', c') \<and> flow_wf obs' w' c'
     \<and> announced (uni_due (snd obs) c) (any_enc (max_uni_frame (fc_base c))) obs (fc_max_uni_streams c) w obs' (fc_max_uni_streams c') w'
     \<and> \<not> uni_due (snd obs') c' \<and> data_due (snd obs') c' = data_due (snd obs) c \<and> bidi_due (snd obs') c' = bidi_due (snd obs) c
     \<and> max_bidi_frame (fc_base c') = max_bidi_frame (fc_base c) \<and> fc_max_data c' = fc_max_data c"
proof -
  have wf: "limits_ok (fc_base c)" "writer_wf (fw_w w)" "obs_ok obs" using assms(1) by (simp_all add: flow_wf_def)
  have st: "\<And>a. fc_max_uni_streams c = Some a \<Longrightarrow> a < length (snd obs)" "\<And>a. fc_max_data c = Some a \<Longrightarrow> a < length (snd obs)"
    "\<And>a. fc_max_bidi_streams c = Some a \<Longrightarrow> a < length (snd obs)" using assms(1) by (simp_all add: flow_wf_def)
  from max_uni_limit.announce_step [OF limit_frames_ok(3) [OF wf(1)] wf(2) limit_frames_ok(4) [OF wf(1)] assms(2) wf(3) st(1)]
  obtain obs' h w' where a: "flow_send_limit send_max_uni_streams_if_updated send_max_uni_streams obs (fc_max_uni_streams c) w (fc_base c) = (io_ok, obs', h, w',
      if uni_due (snd obs) c then (fc_base c)\<lparr>s_uni_acceptor := (s_uni_acceptor (fc_base c))\<lparr>ac_should_send_limit_update := False\<rparr>\<rparr> else fc_base c)"
    "announced (uni_due (snd obs) c) (any_enc (max_uni_frame (fc_base c))) obs (fc_max_uni_streams c) w obs' h w'"
    unfolding uni_due_def by blast
  have g: "obs_grows obs obs'" using a(2) by (simp add: announced_def)
  note lost = ah_state_grows(2) [OF g st(2)] ah_state_grows(2) [OF g st(3)]
  show ?thesis
    using a wf(1) st lost g
    by (cases "uni_due (snd obs) c") (auto simp: flow_send_max_uni_streams_def flow_wf_def announced_def limits_ok_def data_due_def uni_due_def
        bidi_due_def max_bidi_frame_def obs_grows_def intro: less_le_trans)
qed

lemma bidi_step:
  assumes "flow_wf obs w c" "9 \<le> room (fw_w w)"
  shows "\<exists>obs' w' c'. flow_send_max_bidi_streams obs w c = (io_ok, obs', w', c') \<and> flow_wf obs' w' c'
     \<and> announced (bidi_due (snd obs) c) (any_enc (max_bidi_frame (fc_base c))) obs (fc_max_bidi_streams c) w obs' (fc_max_bidi_streams c') w'
     \<and> \<not> bidi_due (snd obs') c' \<and> data_due (snd obs') c' = data_due (snd obs) c \<and> uni_due (snd obs') c' = uni_due (snd obs) c
     \<and> fc_max_data c' = fc_max_data c \<and> fc_max_uni_streams c' = fc_max_uni_streams c"
proof -
  have wf: "limits_ok (fc_base c)" "writer_wf (fw_w w)" "obs_ok obs" using assms(1) by (simp_all add: flow_wf_def)
  have st: "\<And>a. fc_max_bidi_streams c = Some a \<Longrightarrow> a < length (snd obs)" "\<And>a. fc_max_data c = Some a \<Longrightarrow> a < length (snd obs)"
    "\<And>a. fc_max_uni_streams c = Some a \<Longrightarrow> a < length (snd obs)" using assms(1) by (simp_all add: flow_wf_def)
  from max_bidi_limit.announce_step [OF limit_frames_ok(5) [OF wf(1)] wf(2) limit_frames_ok(6) [OF wf(1)] assms(2) wf(3) st(1)]
  obtain obs' h w' where a: "flow_send_limit send_max_bidi_streams_if_updated send_max_bidi_streams obs (fc_max_bidi_streams c) w (fc_base c) = (io_ok, obs', h, w',
      if bidi_due (snd obs) c then (fc_base c)\<lparr>s_bidi_acceptor := (s_bidi_acceptor (fc_base c))\<lparr>ac_should_send_limit_update := False\<rparr>\<rparr> else fc_base c)"
    "announced (bidi_due (snd obs) c) (any_enc (max_bidi_frame (fc_base c))) obs (fc_max_bidi_streams c) w obs' h w'"
    unfolding bidi_due_def by blast
  have g: "obs_grows obs obs'" using a(2) by (simp add: announced_def)
  note lost = ah_state_grows(2) [OF g st(2)] ah_state_grows(2) [OF g st(3)]
  show ?thesis
    using a wf(1) st lost g
    by (cases "bidi_due (snd obs) c") (auto simp: flow_send_max_bidi_streams_def flow_wf_def announced_def limits_ok_def data_due_def uni_due_def
        bidi_due_def obs_grows_def intro: less_le_trans)
qed

lemma announced_facts:
  assumes "announced due bs obs rec w obs' h w'"
  shows "room (fw_w w) \<le> room (fw_w w') + 9" "fw_w w' = emit (if due then bs else []) (fw_w w)"
    "fst obs \<noteq> None \<Longrightarrow> obs' = obs" "due \<Longrightarrow> fst obs' \<noteq> None"
    "h = (if due then fst obs' else if ah_is_ack (snd obs) rec then None else rec)"
  using assms unfolding announced_def by blast+

lemma limit_frames_enc:
  assumes "limits_ok s"
  shows "length (any_enc (max_data_frame s)) \<le> 9" "length (any_enc (max_uni_frame s)) \<le> 9" "length (any_enc (max_bidi_frame s)) \<le> 9"
  using any_len_enc [OF max_data_limit.frame_wf limit_frames_ok(1) [OF assms]] any_len_enc [OF max_uni_limit.frame_wf limit_frames_ok(3) [OF assms]]
    any_len_enc [OF max_bidi_limit.frame_wf limit_frames_ok(5) [OF assms]] limit_frames_ok(2,4,6) [OF assms] by simp_all

lemma emit_append3:
  assumes "writer_wf w" "length a \<le> 9" "length b \<le> 9" "length c \<le> 9" "27 \<le> room w"
  shows "emit c (emit b (emit a w)) = emit (a @ b @ c) w"
  using emit_append [OF assms(1), of a b] emit_append [OF assms(1), of "a @ b" c] assms(2-5) by simp

section \<open>Properties\<close>

text \<open>
  C9. Every limit reaches the peer: a call writes, in order, exactly the
  frames for limits that were raised since the last announcement or whose last
  announcement was lost, with the current values; a limit that was written waits for this
  packet, one that was acknowledged is settled, and afterwards nothing is due.
\<close>

theorem limits_announced:
  assumes "flow_wf obs w c" and "27 \<le> room (fw_w w)"
  shows "\<exists>obs' w' c'. flow_send obs w c = (io_ok, obs', w', c') \<and> flow_wf obs' w' c'
     \<and> fw_w w' = emit (payload_enc (due_frames (snd obs) c)) (fw_w w) \<and> due_frames (snd obs') c' = []
     \<and> fc_max_data c' = (if data_due (snd obs) c then fst obs'
          else if ah_is_ack (snd obs) (fc_max_data c) then None else fc_max_data c)"
proof -
  from data_step [OF assms(1)] assms(2) obtain o1 w1 c1 where 1: "flow_send_max_data obs w c = (io_ok, o1, w1, c1)" "flow_wf o1 w1 c1"
    "announced (data_due (snd obs) c) (any_enc (max_data_frame (fc_base c))) obs (fc_max_data c) w o1 (fc_max_data c1) w1"
    "\<not> data_due (snd o1) c1" "uni_due (snd o1) c1 = uni_due (snd obs) c" "bidi_due (snd o1) c1 = bidi_due (snd obs) c"
    "max_uni_frame (fc_base c1) = max_uni_frame (fc_base c)" "max_bidi_frame (fc_base c1) = max_bidi_frame (fc_base c)" by auto
  have r1: "18 \<le> room (fw_w w1)" using announced_facts(1) [OF 1(3)] assms(2) by simp
  from uni_step [OF 1(2)] r1 obtain o2 w2 c2 where 2: "flow_send_max_uni_streams o1 w1 c1 = (io_ok, o2, w2, c2)" "flow_wf o2 w2 c2"
    "announced (uni_due (snd o1) c1) (any_enc (max_uni_frame (fc_base c1))) o1 (fc_max_uni_streams c1) w1 o2 (fc_max_uni_streams c2) w2"
    "\<not> uni_due (snd o2) c2" "data_due (snd o2) c2 = data_due (snd o1) c1" "bidi_due (snd o2) c2 = bidi_due (snd o1) c1"
    "max_bidi_frame (fc_base c2) = max_bidi_frame (fc_base c1)" "fc_max_data c2 = fc_max_data c1" by auto
  have r2: "9 \<le> room (fw_w w2)" using announced_facts(1) [OF 2(3)] r1 by simp
  from bidi_step [OF 2(2) r2] obtain o3 w3 c3 where 3: "flow_send_max_bidi_streams o2 w2 c2 = (io_ok, o3, w3, c3)" "flow_wf o3 w3 c3"
    "announced (bidi_due (snd o2) c2) (any_enc (max_bidi_frame (fc_base c2))) o2 (fc_max_bidi_streams c2) w2 o3 (fc_max_bidi_streams c3) w3"
    "\<not> bidi_due (snd o3) c3" "data_due (snd o3) c3 = data_due (snd o2) c2" "uni_due (snd o3) c3 = uni_due (snd o2) c2"
    "fc_max_data c3 = fc_max_data c2" by auto
  have "fw_w w3 = emit (payload_enc (due_frames (snd obs) c)) (fw_w w)"
  proof -
    have "limits_ok (fc_base c)" "writer_wf (fw_w w)" using assms(1) by (simp_all add: flow_wf_def)
    note e = emit_append3 [OF this(2) _ _ _ assms(2)] limit_frames_enc [OF this(1)]
    show ?thesis
      unfolding announced_facts(2) [OF 3(3)] announced_facts(2) [OF 2(3)] announced_facts(2) [OF 1(3)] 1(5-8) 2(6,7)
      by (subst e(1)) (auto simp: e(2-4) due_frames_def payload_enc_def)
  qed
  moreover have "due_frames (snd o3) c3 = []" using 1 2 3 by (simp add: due_frames_def)
  moreover have "data_due (snd obs) c \<longrightarrow> fst o3 = fst o1" 
    using announced_facts(4) [OF 1(3)] announced_facts(3) [OF 2(3)] announced_facts(3) [OF 3(3)] by metis
  moreover have "flow_send obs w c = (io_ok, o3, w3, c3)" using 1(1) 2(1) 3(1) by (simp add: flow_send_def)
  ultimately show ?thesis using announced_facts(5) [OF 1(3)] 2(8) 3(2,7) by auto
qed

theorem limits_announced_witness:
  "\<exists>obs' w' c'. flow_send (None, [al_lost]) (make_fwriter (make_writer (replicate 30 0)))
       \<lparr>fc_base = streams_init, fc_max_data = Some 0, fc_max_uni_streams = None, fc_max_bidi_streams = None\<rparr> = (io_ok, obs', w', c')
     \<and> fw_w w' = emit (any_enc (max_data_frame streams_init)) (make_writer (replicate 30 0)) \<and> fc_max_data c' = fst obs'"
proof -
  let ?c = "\<lparr>fc_base = streams_init, fc_max_data = Some 0, fc_max_uni_streams = None, fc_max_bidi_streams = None\<rparr>"
  let ?w = "make_fwriter (make_writer (replicate 30 0))"
  have "flow_wf (None, [al_lost]) ?w ?c" "27 \<le> room (fw_w ?w)"
    by (simp_all add: flow_wf_def limits_ok_def streams_init_def limiter_zero_def make_acceptor_def obs_ok_def make_fwriter_def
        make_writer_def writer_wf_def room_def)
  from limits_announced [OF this] show ?thesis
    by (auto simp: due_frames_def data_due_def uni_due_def bidi_due_def ah_is_lost_def streams_init_def make_acceptor_def
        payload_enc_def make_fwriter_def simp del: any_enc.simps)
qed

end
