(* ===== verification/CryptoStream.thy ===== *)
theory CryptoStream
  imports Resend
begin

text \<open>
  The stream of handshake messages at one encryption level
  (\<^verbatim>\<open>fnet/quic/crypto/handshaker.h\<close>, \<^verbatim>\<open>CryptoHandshaker\<close>): CRYPTO frames are sent
  and sent again when lost, and received ones are put in order for TLS.

  TLS is another library: what is called of it is a record of functions on its
  state. \<^verbatim>\<open>std::sort\<close> leaves the order of fragments with equal offsets open; the model
  takes one order.
\<close>

datatype EncryptionLevel = lv_initial | lv_early_data | lv_handshake | lv_application

record 't tls_ops =
  tls_provide_quic_data :: "EncryptionLevel \<Rightarrow> byte list \<Rightarrow> 't \<Rightarrow> error \<times> 't"
  tls_progress_quic :: "'t \<Rightarrow> error \<times> 't"
  tls_accept :: "'t \<Rightarrow> error \<times> 't"
  tls_connect :: "'t \<Rightarrow> error \<times> 't"
  tls_is_block :: "error \<Rightarrow> bool"

record CryptoFragment =
  cg_offset :: u64
  cg_data :: "byte list"

record CryptoRecvFragment =
  cv_fragment :: "byte list"
  cv_offset :: u64

record CryptoHandshaker =
  ch_recv_data :: "CryptoRecvFragment list"
  ch_read_offset :: u64
  ch_write_data :: "byte list"
  ch_write_offset :: nat
  ch_frags :: "CryptoFragment Resend list"

definition crypto_reset :: CryptoHandshaker where
  "crypto_reset = \<lparr>ch_recv_data = [], ch_read_offset = 0, ch_write_data = [], ch_write_offset = 0, ch_frags = []\<rparr>"

section \<open>Sending\<close>

text \<open>
  The callback of \<^verbatim>\<open>send_retransmit\<close>. The code compares the size of the fragment with itself
  where it means the size of what was sent, so the branch that keeps the rest is never taken.
\<close>

definition crypto_retransmit_fragment :: "(CryptoFragment, fwriter) rt_send" where
  "crypto_retransmit_fragment save frag e =
     (case make_fit_size_Crypto (of_nat (length (fw_remain (rt_c e)))) (cg_offset frag) (cg_data frag) of (frame, ok) \<Rightarrow>
      if \<not> ok then (io_not_in_io_state, frag, e)
      else case fw_write (CryptoF frame) (rt_c e) of (ok, w) \<Rightarrow>
        let e = e\<lparr>rt_c := w\<rparr> in
        if \<not> ok then (io_fatal, frag, e)
        else
          let e = save \<lparr>cg_offset = vval (cr_offset frame), cg_data = cr_data frame\<rparr> e in
          if length (cg_data frag) \<noteq> length (cg_data frag)
          then (let new_offset = vval (cr_offset frame) + vval (cr_length frame) in
                (io_not_in_io_state,
                 frag\<lparr>cg_offset := new_offset, cg_data := rsubstr_from (cg_data frag) (unat new_offset)\<rparr>, e))
          else (io_ok, frag, e))"

definition crypto_send_retransmit :: "observer \<Rightarrow> fwriter \<Rightarrow> CryptoHandshaker \<Rightarrow> IOResult \<times> observer \<times> fwriter \<times> CryptoHandshaker" where
  "crypto_send_retransmit obs w h =
     (case retransmit crypto_retransmit_fragment (ch_frags h) obs w of (res, fs, obs, w) \<Rightarrow> (res, obs, w, h\<lparr>ch_frags := fs\<rparr>))"

definition send_crypto :: "observer \<Rightarrow> fwriter \<Rightarrow> CryptoHandshaker \<Rightarrow> IOResult \<times> observer \<times> fwriter \<times> CryptoHandshaker" where
  "send_crypto obs w h =
     (let remain_data = rsubstr_from (ch_write_data h) (ch_write_offset h) in
      case make_fit_size_Crypto (of_nat (length (fw_remain w))) (of_nat (ch_write_offset h)) remain_data of (frame, ok) \<Rightarrow>
      if \<not> ok then (io_no_capacity, obs, w, h)
      else case fw_write (CryptoF frame) w of (ok, w) \<Rightarrow>
        if \<not> ok then (io_fatal, obs, w, h)
        else case save_new_frag (ch_frags h) \<lparr>cg_offset = vval (cr_offset frame), cg_data = cr_data frame\<rparr> obs of (fs, obs) \<Rightarrow>
          (io_ok, obs, w, h\<lparr>ch_write_offset := ch_write_offset h + length (cr_data frame), ch_frags := fs\<rparr>))"

definition crypto_send :: "observer \<Rightarrow> fwriter \<Rightarrow> CryptoHandshaker \<Rightarrow> IOResult \<times> observer \<times> fwriter \<times> CryptoHandshaker" where
  "crypto_send obs w h =
     (case crypto_send_retransmit obs w h of (res, obs, w, h) \<Rightarrow>
      if res = io_fatal then (res, obs, w, h)
      else if length (ch_write_data h) - ch_write_offset h = 0 then (io_no_data, obs, w, h)
      else send_crypto obs w h)"

section \<open>Receiving\<close>

text \<open>The loop over the buffered fragments, from the back of the vector.\<close>

fun feed_buffered :: "'t tls_ops \<Rightarrow> EncryptionLevel \<Rightarrow> CryptoRecvFragment list \<Rightarrow> u64 \<Rightarrow> 't
    \<Rightarrow> error \<times> CryptoRecvFragment list \<times> u64 \<times> 't" where
  "feed_buffered ops level [] read_offset t = (error_none, [], read_offset, t)"
| "feed_buffered ops level (src # rest) read_offset t =
     (if read_offset = cv_offset src then
        (case tls_provide_quic_data ops level (cv_fragment src) t of (err, t) \<Rightarrow>
         if err \<noteq> error_none then (err, src # rest, read_offset, t)
         else feed_buffered ops level rest (read_offset + of_nat (length (cv_fragment src))) t)
      else (error_none, src # rest, read_offset, t))"

definition recv_crypto :: "'t tls_ops \<Rightarrow> EncryptionLevel \<Rightarrow> bool \<Rightarrow> CryptoFrame \<Rightarrow> CryptoHandshaker \<Rightarrow> bool \<Rightarrow> 't
    \<Rightarrow> error \<times> CryptoHandshaker \<times> bool \<times> 't" where
  "recv_crypto ops level is_server frame h handshake_complete t =
     (let offset = vval (cr_offset frame) in
      if offset < ch_read_offset h then (error_none, h, handshake_complete, t)
      else if ch_read_offset h = offset then
        (case tls_provide_quic_data ops level (cr_data frame) t of (err, t) \<Rightarrow>
         if err \<noteq> error_none then (err, h, handshake_complete, t)
         else
           let recv_data = (if length (ch_recv_data h) > 1 then rev (sort_key cv_offset (ch_recv_data h)) else ch_recv_data h) in
           case feed_buffered ops level (rev recv_data) (ch_read_offset h + of_nat (length (cr_data frame))) t of
             (err, rest, read_offset, t) \<Rightarrow>
             let h = h\<lparr>ch_recv_data := rev rest, ch_read_offset := read_offset\<rparr> in
             if err \<noteq> error_none then (err, h, handshake_complete, t)
             else if handshake_complete then
               (case tls_progress_quic ops t of (err, t) \<Rightarrow> (err, h, handshake_complete, t))
             else
               (case (if is_server then tls_accept ops t else tls_connect ops t) of (err, t) \<Rightarrow>
                if err \<noteq> error_none then (if tls_is_block ops err then error_none else err, h, handshake_complete, t)
                else (error_none, h, True, t)))
      else (error_none,
            h\<lparr>ch_recv_data := ch_recv_data h @ [\<lparr>cv_fragment = cr_data frame, cv_offset = offset\<rparr>]\<rparr>, handshake_complete, t))"

section \<open>Reassembly\<close>

text \<open>
  What is relied on of TLS: data that it accepts are appended to what it was
  given, and the other calls add nothing.
\<close>

definition tls_feeds :: "'t tls_ops \<Rightarrow> ('t \<Rightarrow> byte list) \<Rightarrow> bool" where
  "tls_feeds ops fed \<longleftrightarrow> (\<forall>l d t t'. tls_provide_quic_data ops l d t = (error_none, t') \<longrightarrow> fed t' = fed t @ d)
     \<and> (\<forall>t. fed (snd (tls_progress_quic ops t)) = fed t) \<and> (\<forall>t. fed (snd (tls_accept ops t)) = fed t)
     \<and> (\<forall>t. fed (snd (tls_connect ops t)) = fed t)"

text \<open>A piece of the handshake data \<open>D\<close>.\<close>

definition slice :: "byte list \<Rightarrow> u64 \<Rightarrow> byte list \<Rightarrow> bool" where
  "slice D off d \<longleftrightarrow> unat off + length d \<le> length D \<and> d = take (length d) (drop (unat off) D)"

definition crypto_inv :: "byte list \<Rightarrow> ('t \<Rightarrow> byte list) \<Rightarrow> CryptoHandshaker \<Rightarrow> 't \<Rightarrow> bool" where
  "crypto_inv D fed h t \<longleftrightarrow> fed t = take (unat (ch_read_offset h)) D \<and> unat (ch_read_offset h) \<le> length D
     \<and> (\<forall>x \<in> set (ch_recv_data h). slice D (cv_offset x) (cv_fragment x))"

lemma take_slice: "slice D off d \<Longrightarrow> take (unat off) D @ d = take (unat off + length d) D"
  by (metis slice_def take_add)

lemma slice_end:
  assumes "slice D off d" "length D < 2 ^ 62"
  shows "unat (off + of_nat (length d)) = unat off + length d" "unat (off + of_nat (length d)) \<le> length D"
  using assms by (simp_all add: slice_def unat_word_ariths unat_of_nat_u64)

lemma feed_prefix:
  assumes "feed_buffered ops level xs ro t = (error_none, rest, ro', t')" "tls_feeds ops fed" "length D < 2 ^ 62"
    and "\<forall>x \<in> set xs. slice D (cv_offset x) (cv_fragment x)" "fed t = take (unat ro) D" "unat ro \<le> length D"
  shows "fed t' = take (unat ro') D \<and> unat ro' \<le> length D \<and> set rest \<subseteq> set xs"
  using assms
proof (induction ops level xs ro t rule: feed_buffered.induct)
  case (2 ops level src xs ro t)
  show ?case
  proof (cases "ro = cv_offset src")
    case True
    obtain err t1 where p: "tls_provide_quic_data ops level (cv_fragment src) t = (err, t1)" by fastforce
    have ok: "err = error_none" using 2(2) True p by (auto split: if_splits)
    have s: "slice D ro (cv_fragment src)" using 2(5) True by simp
    have "fed t1 = fed t @ cv_fragment src" using 2(3) p ok by (simp add: tls_feeds_def)
    then have "fed t1 = take (unat (ro + of_nat (length (cv_fragment src)))) D"
      using 2(6) take_slice [OF s] slice_end(1) [OF s 2(4)] by simp
    then show ?thesis
      using 2(1) [OF True p [symmetric]] 2(2-5) True p ok slice_end(2) [OF s 2(4)] by auto
  qed (use 2 in auto)
qed auto

lemma recv_crypto_match:
  assumes "recv_crypto ops level is_server f h c t = (error_none, h', c', t')" "ch_read_offset h = vval (cr_offset f)"
  obtains t1 rest ro t2 where "tls_provide_quic_data ops level (cr_data f) t = (error_none, t1)"
    "feed_buffered ops level (sort_key cv_offset (ch_recv_data h)) (ch_read_offset h + of_nat (length (cr_data f))) t1
       = (error_none, rest, ro, t2)"
    "h' = h\<lparr>ch_recv_data := rev rest, ch_read_offset := ro\<rparr>"
    "t' = t2 \<or> t' = snd (tls_progress_quic ops t2) \<or> t' = snd (tls_accept ops t2) \<or> t' = snd (tls_connect ops t2)"
proof -
  define xs where "xs = rev (if length (ch_recv_data h) > 1 then rev (sort_key cv_offset (ch_recv_data h)) else ch_recv_data h)"
  have "xs = sort_key cv_offset (ch_recv_data h)" by (cases "ch_recv_data h" rule: remdups_adj.cases) (auto simp: xs_def)
  moreover obtain t1 rest ro t2 where "tls_provide_quic_data ops level (cr_data f) t = (error_none, t1)"
    "feed_buffered ops level xs (ch_read_offset h + of_nat (length (cr_data f))) t1 = (error_none, rest, ro, t2)"
    "h' = h\<lparr>ch_recv_data := rev rest, ch_read_offset := ro\<rparr>"
    "t' = t2 \<or> t' = snd (tls_progress_quic ops t2) \<or> t' = snd (tls_accept ops t2) \<or> t' = snd (tls_connect ops t2)"
    using assms by (auto simp: recv_crypto_def xs_def Let_def split: prod.splits if_splits)
  ultimately show ?thesis using that by blast
qed

lemma recv_crypto_inv:
  assumes "recv_crypto ops level is_server frame h c t = (error_none, h', c', t')" "tls_feeds ops fed" "length D < 2 ^ 62"
    and "slice D (vval (cr_offset frame)) (cr_data frame)" "crypto_inv D fed h t"
  shows "crypto_inv D fed h' t'"
proof (cases "vval (cr_offset frame) = ch_read_offset h")
  case True
  note s = assms(4) [unfolded True]
  let ?xs = "sort_key cv_offset (ch_recv_data h)"
  obtain t1 rest ro' t2 where p: "tls_provide_quic_data ops level (cr_data frame) t = (error_none, t1)"
    and f: "feed_buffered ops level ?xs (ch_read_offset h + of_nat (length (cr_data frame))) t1 = (error_none, rest, ro', t2)"
    "h' = h\<lparr>ch_recv_data := rev rest, ch_read_offset := ro'\<rparr>"
    "t' = t2 \<or> t' = snd (tls_progress_quic ops t2) \<or> t' = snd (tls_accept ops t2) \<or> t' = snd (tls_connect ops t2)"
    by (rule recv_crypto_match [OF assms(1) True [symmetric]])
  have "fed t1 = take (unat (ch_read_offset h + of_nat (length (cr_data frame)))) D"
    using assms(2,5) p take_slice [OF s] slice_end(1) [OF s assms(3)] by (simp add: tls_feeds_def crypto_inv_def)
  moreover have "\<forall>x \<in> set ?xs. slice D (cv_offset x) (cv_fragment x)" using assms(5) by (auto simp: crypto_inv_def)
  ultimately have "fed t2 = take (unat ro') D" "unat ro' \<le> length D" "set rest \<subseteq> set ?xs"
    using feed_prefix [OF f(1) assms(2,3)] slice_end(2) [OF s assms(3)] by auto
  moreover have "fed t' = fed t2" using f(3) assms(2) by (auto simp: tls_feeds_def)
  ultimately show ?thesis using f(2) assms(5) by (auto simp: crypto_inv_def)
next
  case False
  then show ?thesis using assms(1,4,5) by (auto simp: recv_crypto_def Let_def crypto_inv_def split: if_splits)
qed

subsection \<open>Everything arrives\<close>

definition frag_of :: "CryptoFrame \<Rightarrow> CryptoRecvFragment" where
  "frag_of f = \<lparr>cv_fragment = cr_data f, cv_offset = vval (cr_offset f)\<rparr>"

definition start_of :: "CryptoRecvFragment \<Rightarrow> nat" where
  "start_of x = unat (cv_offset x)"

definition stop_of :: "CryptoRecvFragment \<Rightarrow> nat" where
  "stop_of x = unat (cv_offset x) + length (cv_fragment x)"

definition apart :: "CryptoRecvFragment set \<Rightarrow> bool" where
  "apart X \<longleftrightarrow> (\<forall>x \<in> X. \<forall>y \<in> X. start_of x < start_of y \<longrightarrow> stop_of x \<le> start_of y)"

lemma feed_complete:
  assumes "feed_buffered ops level xs ro t = (error_none, rest, ro', t')" "length D < 2 ^ 62"
    and "\<forall>x \<in> set xs. slice D (cv_offset x) (cv_fragment x)" "sorted_wrt (\<lambda>x y. start_of x < start_of y) xs" "apart (set xs)"
    and "\<forall>x \<in> set xs. unat ro \<le> start_of x"
  shows "unat ro \<le> unat ro' \<and> (\<forall>x \<in> set xs. stop_of x \<le> unat ro' \<or> x \<in> set rest \<and> unat ro' < start_of x)
     \<and> (\<exists>ys. xs = ys @ rest) \<and> (\<forall>x \<in> set rest. unat ro' < start_of x)
     \<and> (ro' = ro \<or> (\<exists>x \<in> set xs. stop_of x = unat ro'))"
  using assms
proof (induction ops level xs ro t rule: feed_buffered.induct)
  case (2 ops level src xs ro t)
  show ?case
  proof (cases "ro = cv_offset src")
    case True
    obtain err t1 where p: "tls_provide_quic_data ops level (cv_fragment src) t = (err, t1)" by fastforce
    have ok: "err = error_none" using 2(2) True p by (auto split: if_splits)
    let ?ro = "ro + of_nat (length (cv_fragment src))"
    have s: "slice D ro (cv_fragment src)" using 2(4) True by simp
    have e: "unat ?ro = stop_of src" using slice_end(1) [OF s 2(3)] True by (simp add: stop_of_def)
    have "\<forall>x \<in> set xs. unat ?ro \<le> start_of x" using 2(5,6) e by (simp add: apart_def)
    then have "unat ?ro \<le> unat ro' \<and> (\<forall>x \<in> set xs. stop_of x \<le> unat ro' \<or> x \<in> set rest \<and> unat ro' < start_of x)
       \<and> (\<exists>ys. xs = ys @ rest) \<and> (\<forall>x \<in> set rest. unat ro' < start_of x) \<and> (ro' = ?ro \<or> (\<exists>x \<in> set xs. stop_of x = unat ro'))"
      using 2(1) [OF True p [symmetric]] 2(2-6) True p ok by (auto simp: apart_def)
    moreover have "unat ro \<le> unat ?ro" using slice_end(1) [OF s 2(3)] by simp
    ultimately show ?thesis using e by (auto intro: exI [of _ "src # _"])
  next
    case False
    then have "unat ro < start_of src" using 2(7) by (auto simp: start_of_def le_less intro: unat_eqI)
    moreover have "\<forall>x \<in> set xs. start_of src < start_of x" using 2(5) by simp
    ultimately have "\<forall>x \<in> set (src # xs). unat ro < start_of x" by (auto intro: less_trans)
    then show ?thesis using False 2(2) by auto
  qed
qed auto

text \<open>
  The state while the chunks \<open>X\<close> have arrived: each one was passed on or waits behind
  the read offset, which is where a chunk stops.
\<close>

definition waits :: "CryptoRecvFragment set \<Rightarrow> CryptoHandshaker \<Rightarrow> bool" where
  "waits X h \<longleftrightarrow> (\<forall>x \<in> X. stop_of x \<le> unat (ch_read_offset h) \<or> x \<in> set (ch_recv_data h) \<and> unat (ch_read_offset h) < start_of x)
     \<and> set (ch_recv_data h) \<subseteq> X \<and> distinct (map start_of (ch_recv_data h))
     \<and> (\<forall>x \<in> set (ch_recv_data h). unat (ch_read_offset h) < start_of x)
     \<and> (ch_read_offset h = 0 \<or> (\<exists>x \<in> X. stop_of x = unat (ch_read_offset h)))"

lemma sort_key_strict:
  "distinct (map start_of xs) \<Longrightarrow> sorted_wrt (\<lambda>x y. start_of x < start_of y) (sort_key cv_offset xs)"
proof -
  assume d: "distinct (map start_of xs)"
  let ?ys = "sort_key cv_offset xs"
  have "sorted (map start_of ?ys)"
    using sorted_sort_key [of cv_offset xs] by (simp add: sorted_map start_of_def [abs_def] word_le_nat_alt)
  moreover have "distinct (map start_of ?ys)"
    using d by (metis distinct_map distinct_sort set_sort)
  ultimately have "sorted_wrt (<) (map start_of ?ys)" using strict_sorted_iff by blast
  then show ?thesis by (simp add: sorted_wrt_map)
qed

lemma recv_crypto_now:
  assumes "recv_crypto ops level is_server f h c t = (error_none, h', c', t')" "length D < 2 ^ 62"
    and "\<forall>x \<in> insert (frag_of f) X. slice D (cv_offset x) (cv_fragment x)" "apart (insert (frag_of f) X)"
    and "waits X h" and now: "ch_read_offset h = vval (cr_offset f)"
  shows "waits (insert (frag_of f) X) h'"
proof -
  let ?g = "frag_of f" and ?ro = "unat (ch_read_offset h)" and ?ro1 = "ch_read_offset h + of_nat (length (cr_data f))"
  have g: "cv_offset ?g = vval (cr_offset f)" "cv_fragment ?g = cr_data f" by (simp_all add: frag_of_def)
  have w: "\<forall>x \<in> X. stop_of x \<le> ?ro \<or> x \<in> set (ch_recv_data h) \<and> ?ro < start_of x" "set (ch_recv_data h) \<subseteq> X"
    "distinct (map start_of (ch_recv_data h))" "\<forall>x \<in> set (ch_recv_data h). ?ro < start_of x" using assms(5) by (simp_all add: waits_def)
  define xs where "xs = sort_key cv_offset (ch_recv_data h)"
  obtain t1 rest ro' t2 where fd: "feed_buffered ops level xs ?ro1 t1 = (error_none, rest, ro', t2)"
    "h' = h\<lparr>ch_recv_data := rev rest, ch_read_offset := ro'\<rparr>"
    by (rule recv_crypto_match [OF assms(1) now]) (use xs_def in blast)
  have xs: "set xs \<subseteq> X" "set xs = set (ch_recv_data h)" using w(2) by (simp_all add: xs_def)
  have sorted: "sorted_wrt (\<lambda>x y. start_of x < start_of y) xs"
    using sort_key_strict [OF w(3)] by (simp add: xs_def)
  have e: "unat ?ro1 = stop_of ?g" "?ro \<le> stop_of ?g"
    using slice_end(1) [of D "ch_read_offset h" "cr_data f"] assms(2,3) now g by (simp_all add: stop_of_def)
  have "\<forall>x \<in> set xs. slice D (cv_offset x) (cv_fragment x)" "apart (set xs)" using assms(3,4) xs(1) unfolding apart_def by blast+
  moreover have "\<forall>x \<in> set xs. unat ?ro1 \<le> start_of x"
    using assms(4) w(4) xs now g(1) unfolding e apart_def by (auto simp: start_of_def)
  ultimately have fc: "unat ?ro1 \<le> unat ro'" "\<forall>x \<in> set xs. stop_of x \<le> unat ro' \<or> x \<in> set rest \<and> unat ro' < start_of x"
    "\<exists>ys. xs = ys @ rest" "\<forall>x \<in> set rest. unat ro' < start_of x" "ro' = ?ro1 \<or> (\<exists>x \<in> set xs. stop_of x = unat ro')"
    using feed_complete [OF fd(1) assms(2) _ sorted] by blast+
  have rest: "set rest \<subseteq> set xs" "distinct (map start_of rest)"
    using fc(3) sorted by (auto simp: sorted_wrt_append sorted_wrt_map [symmetric] strict_sorted_iff)
  have "stop_of x \<le> unat ro'" if "stop_of x \<le> ?ro" for x using that e fc(1) by simp
  moreover have "stop_of ?g \<le> unat ro'" using e fc(1) by simp
  moreover have "\<exists>x \<in> insert ?g X. stop_of x = unat ro'" using fc(5) e xs(1) by auto
  ultimately show ?thesis
    using w(1) fc(2,4) rest xs unfolding waits_def fd(2)
    by (simp add: rev_map [symmetric]) blast
qed

lemma recv_crypto_waits:
  assumes "recv_crypto ops level is_server f h c t = (error_none, h', c', t')" "length D < 2 ^ 62"
    and "\<forall>x \<in> insert (frag_of f) X. slice D (cv_offset x) (cv_fragment x)" "apart (insert (frag_of f) X)"
    and "start_of (frag_of f) \<notin> start_of ` X" "waits X h"
  shows "waits (insert (frag_of f) X) h'"
proof -
  let ?g = "frag_of f" and ?ro = "unat (ch_read_offset h)"
  have g: "cv_offset ?g = vval (cr_offset f)" "cv_fragment ?g = cr_data f" by (simp_all add: frag_of_def)
  have w: "\<forall>x \<in> X. stop_of x \<le> ?ro \<or> x \<in> set (ch_recv_data h) \<and> ?ro < start_of x" "set (ch_recv_data h) \<subseteq> X"
    "distinct (map start_of (ch_recv_data h))" "\<forall>x \<in> set (ch_recv_data h). ?ro < start_of x"
    "ch_read_offset h = 0 \<or> (\<exists>x \<in> X. stop_of x = ?ro)" using assms(6) by (simp_all add: waits_def)
  have ap: "stop_of x \<le> start_of y" if "x \<in> insert ?g X" "y \<in> insert ?g X" "start_of x < start_of y" for x y
    using assms(4) that by (auto simp: apart_def)
  consider (old) "start_of ?g < ?ro" | (now) "ch_read_offset h = vval (cr_offset f)" | (later) "?ro < start_of ?g"
    using g(1) by (metis linorder_neqE_nat start_of_def unat_eqI)
  then show ?thesis
  proof cases
    case old
    then have "h' = h" using assms(1) g(1) by (auto simp: recv_crypto_def Let_def start_of_def word_less_nat_alt)
    moreover obtain x where x: "x \<in> X" "stop_of x = ?ro" using w(5) old by auto
    moreover have "start_of ?g \<noteq> start_of x" using assms(5) x by auto
    then have "stop_of ?g \<le> ?ro" using ap [of ?g x] ap [of x ?g] x old by (auto simp: start_of_def stop_of_def neq_iff)
    ultimately show ?thesis using assms(6) by (auto simp: waits_def)
  next
    case later
    then have "h' = h\<lparr>ch_recv_data := ch_recv_data h @ [?g]\<rparr>"
      using assms(1) g(1) by (auto simp: recv_crypto_def Let_def start_of_def word_less_nat_alt frag_of_def split: if_splits)
    then show ?thesis using later w assms(5) by (auto simp: waits_def)
  next
    case now
    then show ?thesis using recv_crypto_now [OF assms(1-4,6)] by blast
  qed
qed

subsection \<open>Sequences of frames\<close>

fun crypto_run :: "'t tls_ops \<Rightarrow> EncryptionLevel \<Rightarrow> bool \<Rightarrow> CryptoFrame list \<Rightarrow> CryptoHandshaker \<Rightarrow> bool \<Rightarrow> 't
    \<Rightarrow> error \<times> CryptoHandshaker \<times> bool \<times> 't" where
  "crypto_run ops level is_server [] h c t = (error_none, h, c, t)"
| "crypto_run ops level is_server (f # fs) h c t =
     (case recv_crypto ops level is_server f h c t of (err, h, c, t) \<Rightarrow>
      if err \<noteq> error_none then (err, h, c, t) else crypto_run ops level is_server fs h c t)"

text \<open>The frames cut the data into chunks: pieces that do not overlap and leave nothing out.\<close>

definition chunks :: "byte list \<Rightarrow> CryptoFrame list \<Rightarrow> bool" where
  "chunks D fs \<longleftrightarrow> distinct (map (start_of \<circ> frag_of) fs) \<and> apart (frag_of ` set fs)
     \<and> (\<forall>p < length D. \<exists>f \<in> set fs. start_of (frag_of f) \<le> p \<and> p < stop_of (frag_of f))"

lemma crypto_run_step:
  assumes "crypto_run ops level srv (f # fs) h c t = (error_none, h', c', t')"
  obtains h1 c1 t1 where "recv_crypto ops level srv f h c t = (error_none, h1, c1, t1)"
    "crypto_run ops level srv fs h1 c1 t1 = (error_none, h', c', t')"
  using assms by (auto split: prod.splits if_splits)

lemma crypto_run_inv:
  assumes "crypto_run ops level srv fs h c t = (error_none, h', c', t')" "tls_feeds ops fed" "length D < 2 ^ 62"
    and "\<forall>f \<in> set fs. slice D (vval (cr_offset f)) (cr_data f)" "crypto_inv D fed h t"
  shows "crypto_inv D fed h' t'"
  using assms
proof (induction fs arbitrary: h c t)
  case (Cons f fs)
  from Cons.prems(1) obtain h1 c1 t1 where s: "recv_crypto ops level srv f h c t = (error_none, h1, c1, t1)"
    "crypto_run ops level srv fs h1 c1 t1 = (error_none, h', c', t')" by (rule crypto_run_step)
  have "crypto_inv D fed h1 t1" using recv_crypto_inv [OF s(1) Cons.prems(2,3)] Cons.prems(4,5) by simp
  then show ?case using Cons.IH [OF s(2) Cons.prems(2,3)] Cons.prems(4) by simp
qed simp

lemma crypto_run_waits:
  assumes "crypto_run ops level srv fs h c t = (error_none, h', c', t')" "length D < 2 ^ 62"
    and "\<forall>x \<in> X \<union> frag_of ` set fs. slice D (cv_offset x) (cv_fragment x)" "apart (X \<union> frag_of ` set fs)"
    and "distinct (map (start_of \<circ> frag_of) fs)" "start_of ` X \<inter> start_of ` frag_of ` set fs = {}" "waits X h"
  shows "waits (X \<union> frag_of ` set fs) h'"
  using assms
proof (induction fs arbitrary: h c t X)
  case (Cons f fs)
  from Cons.prems(1) obtain h1 c1 t1 where s: "recv_crypto ops level srv f h c t = (error_none, h1, c1, t1)"
    "crypto_run ops level srv fs h1 c1 t1 = (error_none, h', c', t')" by (rule crypto_run_step)
  have "waits (insert (frag_of f) X) h1"
    using Cons.prems(3,4,6,7) by (intro recv_crypto_waits [OF s(1) Cons.prems(2)]) (auto simp: apart_def)
  then have "waits (insert (frag_of f) X \<union> frag_of ` set fs) h'"
    using Cons.prems(3-6) by (intro Cons.IH [OF s(2) Cons.prems(2)]) auto
  then show ?case by simp
qed simp

section \<open>Properties\<close>

text \<open>
  C10. TLS gets the handshake data in order: whatever frames arrive, cut and ordered in any way,
  repeated or overlapping, TLS has been given a prefix of the data sent. If the frames
  are chunks that do not overlap, in any order, it has been given all of it, and
  nothing is left in the buffer.
\<close>

theorem crypto_reassembly:
  assumes "crypto_run ops level srv fs crypto_reset c t = (error_none, h', c', t')" and "tls_feeds ops fed"
    and "fed t = []" and "length D < 2 ^ 62" and "\<forall>f \<in> set fs. slice D (vval (cr_offset f)) (cr_data f)"
  shows "fed t' = take (unat (ch_read_offset h')) D \<and> (chunks D fs \<longrightarrow> fed t' = D \<and> ch_recv_data h' = [])"
proof -
  have "crypto_inv D fed crypto_reset t" using assms(3) by (simp add: crypto_inv_def crypto_reset_def)
  then have inv: "crypto_inv D fed h' t'" by (rule crypto_run_inv [OF assms(1,2,4,5)])
  have "unat (ch_read_offset h') = length D \<and> ch_recv_data h' = []" if c: "chunks D fs"
  proof -
    have "waits {} crypto_reset" by (simp add: waits_def crypto_reset_def)
    then have w: "waits (frag_of ` set fs) h'"
      using crypto_run_waits [OF assms(1,4), of "{}"] c assms(5) by (simp add: chunks_def frag_of_def)
    have all: "unat (ch_read_offset h') = length D"
    proof (rule ccontr)
      assume "unat (ch_read_offset h') \<noteq> length D"
      then have "unat (ch_read_offset h') < length D" using inv by (simp add: crypto_inv_def)
      then show False using c w unfolding chunks_def waits_def by fastforce
    qed
    have "start_of x \<le> length D" if "x \<in> set (ch_recv_data h')" for x
      using inv that by (auto simp: crypto_inv_def slice_def start_of_def)
    moreover have "length D < start_of x" if "x \<in> set (ch_recv_data h')" for x
      using w that all by (auto simp: waits_def)
    ultimately have "set (ch_recv_data h') = {}" by (metis equals0I not_less)
    then show ?thesis using all by simp
  qed
  then show ?thesis using inv by (auto simp: crypto_inv_def)
qed

text \<open>A TLS that takes all data and waits for more.\<close>

definition tls_log :: "byte list tls_ops" where
  "tls_log = \<lparr>tls_provide_quic_data = \<lambda>l d t. (error_none, t @ d), tls_progress_quic = \<lambda>t. (error_none, t),
     tls_accept = \<lambda>t. (error_lib ''block'', t), tls_connect = \<lambda>t. (error_lib ''block'', t),
     tls_is_block = \<lambda>err. err = error_lib ''block''\<rparr>"

definition crypto_frame_at :: "u64 \<Rightarrow> byte list \<Rightarrow> CryptoFrame" where
  "crypto_frame_at off d = crypto_fresh\<lparr>cr_offset := Value off, cr_length := Value (of_nat (length d)), cr_data := d\<rparr>"

lemma tls_log_feeds: "tls_feeds tls_log (\<lambda>t. t)"
  by (simp add: tls_feeds_def tls_log_def)

theorem crypto_reassembly_witness:
  "\<exists>h c. crypto_run tls_log lv_initial True [crypto_frame_at 2 [3], crypto_frame_at 3 [4, 5], crypto_frame_at 0 [1, 2]] crypto_reset False []
     = (error_none, h, c, [1, 2, 3, 4, 5])"
proof -
  let ?fs = "[crypto_frame_at 2 [3], crypto_frame_at 3 [4, 5], crypto_frame_at 0 [1, 2]]"
  obtain err h c t where r: "crypto_run tls_log lv_initial True ?fs crypto_reset False [] = (err, h, c, t)" by (metis surj_pair)
  then have "err = error_none"
    by (auto simp: recv_crypto_def crypto_frame_at_def crypto_reset_def tls_log_def Let_def split: if_splits prod.splits)
  moreover have "chunks [1, 2, 3, 4, 5] ?fs"
    by (auto simp: chunks_def apart_def crypto_frame_at_def frag_of_def start_of_def stop_of_def less_Suc_eq)
  moreover have "\<forall>f \<in> set ?fs. slice [1, 2, 3, 4, 5] (vval (cr_offset f)) (cr_data f)"
    by (simp add: slice_def crypto_frame_at_def)
  ultimately have "t = [1, 2, 3, 4, 5]"
    using crypto_reassembly [OF _ tls_log_feeds, of lv_initial True ?fs False "[]" h c t "[1, 2, 3, 4, 5]"] r by auto
  with r \<open>err = error_none\<close> show ?thesis by blast
qed

subsection \<open>A fragment received twice\<close>

lemma sort_key_stale:
  assumes "x \<in> set xs" "cv_offset x < ro"
  obtains y ys where "sort_key cv_offset xs = y # ys" "cv_offset y < ro"
proof -
  have x: "x \<in> set (sort_key cv_offset xs)" using assms(1) by simp
  then obtain y ys where y: "sort_key cv_offset xs = y # ys" by (cases "sort_key cv_offset xs") auto
  moreover have "sorted (map cv_offset (y # ys))" using sorted_sort_key [of cv_offset xs] y by simp
  then have "cv_offset y \<le> cv_offset x" using x y by auto
  ultimately show ?thesis using that assms(2) by (meson order.strict_trans1)
qed

lemma recv_crypto_stale:
  assumes "recv_crypto ops level srv f h c t = (error_none, h', c', t')" "length D < 2 ^ 62"
    and "slice D (vval (cr_offset f)) (cr_data f)" "x \<in> set (ch_recv_data h)" "cv_offset x < ch_read_offset h"
  shows "set (ch_recv_data h) \<subseteq> set (ch_recv_data h') \<and> cv_offset x < ch_read_offset h'"
proof (cases "vval (cr_offset f) = ch_read_offset h")
  case True
  define ro where "ro = ch_read_offset h + of_nat (length (cr_data f))"
  have "ch_read_offset h \<le> ro"
    using slice_end(1) [OF assms(3) [unfolded True] assms(2)] by (simp add: word_le_nat_alt ro_def)
  then have s: "cv_offset x < ro" using assms(5) by simp
  from sort_key_stale [OF assms(4) s] obtain y ys where y: "sort_key cv_offset (ch_recv_data h) = y # ys" "cv_offset y < ro" .
  then have stop: "feed_buffered ops level (sort_key cv_offset (ch_recv_data h)) ro u = (error_none, y # ys, ro, u)" for u by auto
  have "h' = h\<lparr>ch_recv_data := rev (y # ys), ch_read_offset := ro\<rparr>"
    by (rule recv_crypto_match [OF assms(1) True [symmetric]]) (auto simp: stop simp flip: ro_def)
  moreover have "set (y # ys) = set (ch_recv_data h)" unfolding y(1) [symmetric] by simp
  ultimately show ?thesis using s by simp
qed (use assms in \<open>auto simp: recv_crypto_def Let_def split: if_splits\<close>)



subsection \<open>A lost fragment that no longer fits\<close>

definition crypto_content :: "CryptoFragment \<Rightarrow> nat set" where
  "crypto_content f = {unat (cg_offset f) ..< unat (cg_offset f) + length (cg_data f)}"

text \<open>
  C34. The rest of a lost CRYPTO frame is not sent again: when only a part of a lost fragment
  fits into the packet, that part is sent and the rest is in no fragment any more.
\<close>

theorem crypto_retransmit_drops_rest:
  assumes "ch_frags h = [\<lparr>rt_frag = f, rt_wait = Some a\<rparr>]" and "a < length st" and "st ! a = al_lost"
    and "make_fit_size_Crypto (of_nat (length (fw_remain w))) (cg_offset f) (cg_data f) = (frame, True)"
    and "fw_write (CryptoF frame) w = (True, w')"
  shows "\<exists>obs h'. crypto_send_retransmit (None, st) w h = (io_ok, obs, w', h')
     \<and> covered crypto_content (ch_frags h') = {unat (cg_offset f) ..< unat (cg_offset f) + length (cr_data frame)}"
proof -
  have "vval (cr_offset frame) = cg_offset f"
    using assms(4) by (auto simp: make_fit_size_Crypto_def Let_def split: prod.splits if_splits)
  then show ?thesis
    using assms by (simp add: crypto_send_retransmit_def retransmit_def crypto_retransmit_fragment_def ah_is_ack_def ah_is_lost_def
        save_new_def save_new_frag_def covered_def crypto_content_def split: prod.splits)
qed

text \<open>Four bytes in a packet that has room for two of them.\<close>

definition lost_crypto :: CryptoHandshaker where
  "lost_crypto = crypto_reset\<lparr>ch_write_data := [1, 2, 3, 4], ch_write_offset := 4,
     ch_frags := [\<lparr>rt_frag = \<lparr>cg_offset = 0, cg_data = [1, 2, 3, 4]\<rparr>, rt_wait = Some 0\<rparr>]\<rparr>"

theorem crypto_retransmit_drops_rest_witness:
  "\<exists>obs h' w'. crypto_send_retransmit (None, [al_lost]) (make_fwriter (make_writer (replicate 5 0))) lost_crypto = (io_ok, obs, w', h')
     \<and> 3 \<in> covered crypto_content (ch_frags lost_crypto) \<and> 3 \<notin> covered crypto_content (ch_frags h')"
proof -
  let ?w = "make_fwriter (make_writer (replicate 5 0))" and ?f = "\<lparr>cg_offset = 0, cg_data = [1, 2, 3, 4]\<rparr>"
  let ?frame = "crypto_fresh\<lparr>cr_offset := Value 0, cr_length := Value 2, cr_data := [1, 2]\<rparr>"
  have r: "length (fw_remain ?w) = 5" by (simp add: fw_remain_def room_remain make_fwriter_def make_writer_def room_def)
  have m: "make_fit_size_Crypto 5 0 [1, 2, 3, 4] = (?frame, True)"
    by (simp add: make_fit_size_Crypto_def shrink_to_fit_with_len_def Let_def rsubstr_def length_exists_max_len_def max_length_len_def
        varint_len_def min_len_def in_range_def border_def)
  obtain w' where "fw_write (CryptoF ?frame) ?w = (True, w')"
    using fw_write_ok [of "CryptoF ?frame" ?w]
    by (simp add: make_fwriter_def make_writer_def writer_wf_def room_def size_t_ok_def crypto_ok_def crypto_len_def vsize_def
        varint_ok_Value varint_len_def type_minlen_def min_len_def in_range_def border_def FrameFlags_of_def FT.simps)
  then obtain obs h' where "crypto_send_retransmit (None, [al_lost]) ?w lost_crypto = (io_ok, obs, w', h')"
    "covered crypto_content (ch_frags h') = {0 ..< Suc (Suc 0)}"
    using crypto_retransmit_drops_rest [of lost_crypto ?f 0 "[al_lost]" ?w ?frame w'] r m by (auto simp: lost_crypto_def)
  moreover have "covered crypto_content (ch_frags lost_crypto) = {0 ..< Suc (Suc (Suc (Suc 0)))}"
    by (simp add: lost_crypto_def covered_def crypto_content_def)
  ultimately show ?thesis by auto
qed

end
