(* ===== verification/Handshake.thy ===== *)
theory Handshake
  imports CryptoStream QuicTime
begin

text \<open>
  The handshake of a connection (\<^verbatim>\<open>fnet/quic/crypto/handshaker.h\<close>, \<^verbatim>\<open>CryptoHandshakers\<close>): the
  CRYPTO streams of the three encryption levels, and the two facts about the handshake
  that the rest of the connection asks for: it is complete when TLS says so, and done
  when the client has the HANDSHAKE_DONE frame, or the server the acknowledgement of it.

  While it is called, TLS calls back (\<^verbatim>\<open>crypto/callback.h\<close>) with handshake data to be sent
  and with alerts. The model keeps these calls with the state of TLS and makes them
  when the call of TLS is over, since nothing in between reads what they change.
  The installation of secrets is not modelled.
\<close>

datatype tls_event = ev_flush | ev_alert byte | ev_handshake_data EncryptionLevel "byte list"

type_synonym 't tls_events = "'t \<Rightarrow> tls_event list \<times> 't"

record 't CryptoHandshakers =
  hk_flags :: byte
  hk_tls :: 't
  hk_initial :: "CryptoHandshaker option"
  hk_handshake :: "CryptoHandshaker option"
  hk_one_rtt :: CryptoHandshaker
  hk_wait_for_done :: ACKHandler
  hk_alert_code :: byte

definition flag_server :: byte where "flag_server = 1"
definition flag_handshake_complete :: byte where "flag_handshake_complete = 2"
definition flag_handshake_done :: byte where "flag_handshake_done = 4"
definition flag_alert :: byte where "flag_alert = 8"

lemmas hs_flags = flag_server_def flag_handshake_complete_def flag_handshake_done_def flag_alert_def

definition set_hs_flag :: "byte \<Rightarrow> 't CryptoHandshakers \<Rightarrow> 't CryptoHandshakers" where
  "set_hs_flag m k = k\<lparr>hk_flags := hk_flags k OR m\<rparr>"

definition hs_is_server :: "'t CryptoHandshakers \<Rightarrow> bool" where
  "hs_is_server k \<longleftrightarrow> hk_flags k AND flag_server \<noteq> 0"

definition handshake_complete :: "'t CryptoHandshakers \<Rightarrow> bool" where
  "handshake_complete k \<longleftrightarrow> hk_flags k AND flag_handshake_complete \<noteq> 0"

definition handshake_done :: "'t CryptoHandshakers \<Rightarrow> bool" where
  "handshake_done k \<longleftrightarrow> hk_flags k AND flag_handshake_done \<noteq> 0"

definition handshake_confirmed :: "'t CryptoHandshakers \<Rightarrow> bool" where
  "handshake_confirmed k \<longleftrightarrow> (if hs_is_server k then handshake_complete k else handshake_done k)"

definition set_alert :: "byte \<Rightarrow> 't CryptoHandshakers \<Rightarrow> 't CryptoHandshakers" where
  "set_alert code k = set_hs_flag flag_alert (k\<lparr>hk_alert_code := code\<rparr>)"

definition get_alert :: "'t CryptoHandshakers \<Rightarrow> byte option" where
  "get_alert k = (if hk_flags k AND flag_alert \<noteq> 0 then Some (hk_alert_code k) else None)"

definition handshakers_reset :: "'t \<Rightarrow> bool \<Rightarrow> 't CryptoHandshakers" where
  "handshakers_reset new_tls is_server = \<lparr>hk_flags = (if is_server then flag_server else 0), hk_tls = new_tls,
     hk_initial = Some crypto_reset, hk_handshake = Some crypto_reset, hk_one_rtt = crypto_reset,
     hk_wait_for_done = None, hk_alert_code = 0\<rparr>"

definition add_send_data :: "byte list \<Rightarrow> CryptoHandshaker \<Rightarrow> CryptoHandshaker" where
  "add_send_data d h = h\<lparr>ch_write_data := ch_write_data h @ d\<rparr>"

definition add_handshake_data :: "EncryptionLevel \<Rightarrow> byte list \<Rightarrow> 't CryptoHandshakers action" where
  "add_handshake_data level d k = (case level of
       lv_initial \<Rightarrow> (case hk_initial k of None \<Rightarrow> (False, k) | Some h \<Rightarrow> (True, k\<lparr>hk_initial := Some (add_send_data d h)\<rparr>))
     | lv_handshake \<Rightarrow> (case hk_handshake k of None \<Rightarrow> (False, k) | Some h \<Rightarrow> (True, k\<lparr>hk_handshake := Some (add_send_data d h)\<rparr>))
     | lv_application \<Rightarrow> (True, k\<lparr>hk_one_rtt := add_send_data d (hk_one_rtt k)\<rparr>)
     | lv_early_data \<Rightarrow> (False, k))"

fun qtls_callback :: "tls_event \<Rightarrow> 't CryptoHandshakers action" where
  "qtls_callback ev_flush k = (True, k)"
| "qtls_callback (ev_alert code) k = (True, set_alert code k)"
| "qtls_callback (ev_handshake_data level d) k = add_handshake_data level d k"

definition run_callbacks :: "'t tls_events \<Rightarrow> 't CryptoHandshakers \<Rightarrow> 't CryptoHandshakers" where
  "run_callbacks events k = (case events (hk_tls k) of (evs, t) \<Rightarrow>
     fold (\<lambda>ev k. snd (qtls_callback ev k)) evs (k\<lparr>hk_tls := t\<rparr>))"

section \<open>Sending\<close>

definition send_handshake_done :: "PacketType \<Rightarrow> observer \<Rightarrow> fwriter \<Rightarrow> 't CryptoHandshakers
    \<Rightarrow> IOResult option \<times> observer \<times> fwriter \<times> 't CryptoHandshakers" where
  "send_handshake_done type obs w k =
     (if hs_is_server k \<and> handshake_complete k \<and> \<not> handshake_done k \<and> type = OneRTT then
        if \<not> not_confirmed (hk_wait_for_done k) \<or> ah_is_lost (snd obs) (hk_wait_for_done k) then
          if length (fw_remain w) = 0 then (Some io_no_capacity, obs, w, k)
          else case fw_write (HandshakeDoneF frame_fresh) w of (ok, w) \<Rightarrow>
            if \<not> ok then (Some io_fatal, obs, w, k)
            else case ah_wait obs of (r, obs) \<Rightarrow> (None, obs, w, k\<lparr>hk_wait_for_done := r\<rparr>)
        else if ah_is_ack (snd obs) (hk_wait_for_done k) then
          (None, obs, w, set_hs_flag flag_handshake_done (k\<lparr>hk_wait_for_done := ah_confirm\<rparr>))
        else (None, obs, w, k)
      else (None, obs, w, k))"

definition handshakers_send :: "PacketType \<Rightarrow> observer \<Rightarrow> fwriter \<Rightarrow> 't CryptoHandshakers
    \<Rightarrow> IOResult \<times> observer \<times> fwriter \<times> 't CryptoHandshakers" where
  "handshakers_send type obs w k =
     (case send_handshake_done type obs w k of
        (Some res, obs, w, k) \<Rightarrow> (res, obs, w, k)
      | (None, obs, w, k) \<Rightarrow> (case type of
            Initial \<Rightarrow> (case hk_initial k of
                None \<Rightarrow> (io_no_data, obs, w, k)
              | Some h \<Rightarrow> (case crypto_send obs w h of (res, obs, w, h) \<Rightarrow> (res, obs, w, k\<lparr>hk_initial := Some h\<rparr>)))
          | Handshake \<Rightarrow> (case hk_handshake k of
                None \<Rightarrow> (io_no_data, obs, w, k)
              | Some h \<Rightarrow> (case crypto_send obs w h of (res, obs, w, h) \<Rightarrow> (res, obs, w, k\<lparr>hk_handshake := Some h\<rparr>)))
          | OneRTT \<Rightarrow> (case crypto_send obs w (hk_one_rtt k) of (res, obs, w, h) \<Rightarrow> (res, obs, w, k\<lparr>hk_one_rtt := h\<rparr>))
          | _ \<Rightarrow> (io_invalid_data, obs, w, k)))"

section \<open>Receiving\<close>

definition recv_handshake_done :: "'t CryptoHandshakers \<Rightarrow> error \<times> 't CryptoHandshakers" where
  "recv_handshake_done k =
     (if hs_is_server k then (quic_error ''recv HANDSHAKE_DONE on server'' PROTOCOL_VIOLATION (FT HANDSHAKE_DONE), k)
      else (error_none, set_hs_flag flag_handshake_done k))"

text \<open>One of the streams gets the frame; the state of TLS and the completion go back.\<close>

definition recv_at_level :: "'t tls_ops \<Rightarrow> EncryptionLevel \<Rightarrow> CryptoFrame \<Rightarrow> CryptoHandshaker \<Rightarrow> 't CryptoHandshakers
    \<Rightarrow> error \<times> bool \<times> CryptoHandshaker \<times> 't CryptoHandshakers" where
  "recv_at_level ops level f h k =
     (case recv_crypto ops level (hs_is_server k) f h (handshake_complete k) (hk_tls k) of (err, h, hs_complete, t) \<Rightarrow>
        (err, hs_complete, h, k\<lparr>hk_tls := t\<rparr>))"

text \<open>\<^verbatim>\<open>defer\<close> sets the flag last, after the error of an alert has been made.\<close>

definition finish_crypto :: "'t tls_events \<Rightarrow> error \<Rightarrow> bool \<Rightarrow> 't CryptoHandshakers \<Rightarrow> error \<times> 't CryptoHandshakers" where
  "finish_crypto events err hs_complete k =
     (let k = run_callbacks events k;
          err = (if err \<noteq> error_none \<and> get_alert k \<noteq> None
                 then quic_error ''error occurred while cryptographic handshake'' CRYPTO_ERROR (FT CRYPTO) else err)
      in (err, if hs_complete then set_hs_flag flag_handshake_complete k else k))"

definition handshakers_recv_crypto :: "'t tls_ops \<Rightarrow> 't tls_events \<Rightarrow> PacketType \<Rightarrow> CryptoFrame \<Rightarrow> 't CryptoHandshakers
    \<Rightarrow> error \<times> 't CryptoHandshakers" where
  "handshakers_recv_crypto ops events type f k = (case type of
       Initial \<Rightarrow> (case hk_initial k of
           None \<Rightarrow> (error_none, k)
         | Some h \<Rightarrow> (case recv_at_level ops lv_initial f h k of (err, c, h, k) \<Rightarrow> finish_crypto events err c (k\<lparr>hk_initial := Some h\<rparr>)))
     | Handshake \<Rightarrow> (case hk_handshake k of
           None \<Rightarrow> (error_none, k)
         | Some h \<Rightarrow> (case recv_at_level ops lv_handshake f h k of (err, c, h, k) \<Rightarrow> finish_crypto events err c (k\<lparr>hk_handshake := Some h\<rparr>)))
     | OneRTT \<Rightarrow> (case recv_at_level ops lv_application f (hk_one_rtt k) k of (err, c, h, k) \<Rightarrow> finish_crypto events err c (k\<lparr>hk_one_rtt := h\<rparr>))
     | _ \<Rightarrow> (error_lib ''invalid packet type for crypto frame'', k))"

text \<open>\<open>None\<close> is the downcast of a frame of another class.\<close>

definition handshakers_recv :: "'t tls_ops \<Rightarrow> 't tls_events \<Rightarrow> PacketType \<Rightarrow> any_frame \<Rightarrow> 't CryptoHandshakers
    \<Rightarrow> (error \<times> 't CryptoHandshakers) option" where
  "handshakers_recv ops events type frame k =
     (if type_detail (any_type_field frame) = FT CRYPTO
      then (case frame of CryptoF f \<Rightarrow> Some (handshakers_recv_crypto ops events type f k) | _ \<Rightarrow> None)
      else if type_detail (any_type_field frame) = FT HANDSHAKE_DONE then
        Some (if type \<noteq> OneRTT then (quic_error ''HANDHSHAKE_DONE on non OneRTT packet'' PROTOCOL_VIOLATION (FT HANDSHAKE_DONE), k)
              else recv_handshake_done k)
      else Some (error_none, k))"

definition handshakers_discard :: "PacketNumberSpace \<Rightarrow> 't CryptoHandshakers \<Rightarrow> 't CryptoHandshakers" where
  "handshakers_discard space k =
     (if space = pn_initial then k\<lparr>hk_initial := None\<rparr> else if space = pn_handshake then k\<lparr>hk_handshake := None\<rparr> else k)"

section \<open>Records and flags\<close>

text \<open>Sending adds records that wait, and changes none; the record of the packet stays.\<close>

definition obs_fresh :: "observer \<Rightarrow> observer \<Rightarrow> bool" where
  "obs_fresh o1 o2 \<longleftrightarrow> (\<exists>n. snd o2 = snd o1 @ replicate n al_wait) \<and> (fst o1 = None \<or> fst o2 = fst o1)"

lemma obs_fresh_refl [simp]: "obs_fresh obs obs"
  by (simp add: obs_fresh_def)

lemma obs_fresh_trans: "obs_fresh o1 o2 \<Longrightarrow> obs_fresh o2 o3 \<Longrightarrow> obs_fresh o1 o3"
  by (auto simp: obs_fresh_def simp flip: replicate_add)

lemma obs_fresh_ack: "obs_fresh o1 o2 \<Longrightarrow> a < length (snd o2) \<Longrightarrow> snd o2 ! a = al_ack \<Longrightarrow> a < length (snd o1) \<and> snd o1 ! a = al_ack"
  by (auto simp: obs_fresh_def nth_append split: if_splits)

lemma obs_fresh_length: "obs_fresh o1 o2 \<Longrightarrow> length (snd o1) \<le> length (snd o2)"
  by (auto simp: obs_fresh_def)

lemma ah_wait_fresh: "ah_wait obs = (h, obs') \<Longrightarrow> obs_fresh obs obs'"
  by (auto simp: ah_wait_def recorder_record_def make_ack_wait_def obs_fresh_def replicate_append_same
      split: prod.splits option.splits intro: exI [of _ "Suc 0"] exI [of _ 0])

lemma save_new_fresh: "obs_fresh (rt_obs e) (rt_obs (save_new f e))"
  using ah_wait_fresh by (auto simp: save_new_def save_new_frag_def split: prod.splits)

lemma retransmit_loop_fresh:
  assumes "retransmit_loop cb frags e = (r, fs, e')" "\<And>f e. obs_fresh (rt_obs e) (rt_obs (snd (snd (cb save_new f e))))"
  shows "obs_fresh (rt_obs e) (rt_obs e')"
  using assms(1)
proof (induction frags arbitrary: e r fs)
  case (Cons it rest)
  obtain res f1 e1 where cb: "cb save_new (rt_frag it) e = (res, f1, e1)" by (metis surj_pair)
  then have n: "obs_fresh (rt_obs e) (rt_obs e1)" using assms(2) [where e = e and f = "rt_frag it"] by simp
  obtain h obs where w: "ah_wait (rt_obs e1) = (h, obs)" by (metis surj_pair)
  have g: "obs_fresh (rt_obs e) obs" using n ah_wait_fresh [OF w] obs_fresh_trans by blast
  show ?case
  proof (cases "ah_is_lost (snd (rt_obs e)) (rt_wait it) \<and> \<not> ah_is_ack (snd (rt_obs e)) (rt_wait it)")
    case True
    then consider "e' = e1" | r fs where "retransmit_loop cb rest (e1\<lparr>rt_obs := obs\<rparr>) = (r, fs, e')"
      | r fs where "retransmit_loop cb rest e1 = (r, fs, e')"
      using Cons.prems cb w by (auto simp: Let_def split: if_splits prod.splits)
    then show ?thesis
    proof cases
      case 2
      then show ?thesis using Cons.IH [OF 2] g obs_fresh_trans by simp
    next
      case 3
      then show ?thesis using Cons.IH [OF 3] n obs_fresh_trans by blast
    qed (use n in simp)
  next
    case False
    then obtain r fs where "retransmit_loop cb rest e = (r, fs, e')"
      using Cons.prems by (auto split: if_splits prod.splits)
    then show ?thesis by (rule Cons.IH)
  qed
qed simp

lemma crypto_send_fresh:
  assumes "crypto_send obs w h = (res, obs', w', h')"
  shows "obs_fresh obs obs'"
proof -
  have "obs_fresh (rt_obs e) (rt_obs (snd (snd (crypto_retransmit_fragment save_new f e))))" for f e
    using save_new_fresh [where e = "e\<lparr>rt_c := c\<rparr>" for c] by (simp add: crypto_retransmit_fragment_def Let_def split: prod.splits)
  then have "obs_fresh obs obs1" if "crypto_send_retransmit obs w h = (r, obs1, w1, h1)" for r obs1 w1 h1
    using that retransmit_loop_fresh [where cb = crypto_retransmit_fragment]
    by (fastforce simp: crypto_send_retransmit_def retransmit_def split: prod.splits)
  moreover have "obs_fresh obs1 obs2" if "send_crypto obs1 w1 h1 = (r, obs2, w2, h2)" for r obs1 w1 h1 obs2 w2 h2
    using that ah_wait_fresh by (auto simp: send_crypto_def save_new_frag_def Let_def split: prod.splits if_splits)
  moreover obtain r1 obs1 w1 h1 where "crypto_send_retransmit obs w h = (r1, obs1, w1, h1)" by (metis surj_pair)
  moreover from this assms have "obs' = obs1 \<or> send_crypto obs1 w1 h1 = (res, obs', w', h')"
    by (auto simp: crypto_send_def split: if_splits)
  ultimately show ?thesis using obs_fresh_trans by blast
qed

lemma flag_or: "(x OR m) AND n = 0 \<longleftrightarrow> x AND n = 0 \<and> m AND n = (0 :: byte)"
  by (simp add: bit.conj_disj_distrib2 or_eq_0_iff)

lemma set_hs_flag_simps [simp]:
  "hs_is_server (set_hs_flag flag_handshake_complete k) = hs_is_server k"
  "hs_is_server (set_hs_flag flag_handshake_done k) = hs_is_server k"
  "hs_is_server (set_hs_flag flag_alert k) = hs_is_server k"
  "handshake_complete (set_hs_flag flag_handshake_complete k)"
  "handshake_complete (set_hs_flag flag_handshake_done k) = handshake_complete k"
  "handshake_complete (set_hs_flag flag_alert k) = handshake_complete k"
  "handshake_done (set_hs_flag flag_handshake_complete k) = handshake_done k"
  "handshake_done (set_hs_flag flag_handshake_done k)"
  "handshake_done (set_hs_flag flag_alert k) = handshake_done k"
  "hk_wait_for_done (set_hs_flag m k) = hk_wait_for_done k"
  by (simp_all add: set_hs_flag_def hs_is_server_def handshake_complete_def handshake_done_def flag_or hs_flags)

section \<open>Runs\<close>

text \<open>
  What happens to the handshakers: a packet is filled, whose record is \<open>r\<close> then, a frame
  arrives, a packet number space is discarded, and the peer acknowledges a packet, or it is lost.
\<close>

datatype hs_label = hs_sent PacketType ACKRecorder | hs_received PacketType any_frame | hs_discarded PacketNumberSpace
  | hs_acked nat | hs_lost nat

inductive hs_run :: "'t tls_ops \<Rightarrow> 't tls_events \<Rightarrow> 't CryptoHandshakers \<Rightarrow> hs_label list \<Rightarrow> ack_store \<Rightarrow> 't CryptoHandshakers \<Rightarrow> bool"
  for ops :: "'t tls_ops" and events :: "'t tls_events" and k0 :: "'t CryptoHandshakers" where
  hs_start: "hs_run ops events k0 [] [] k0"
| hs_send: "hs_run ops events k0 ls st k \<Longrightarrow> r0 = None \<or> the r0 < length st
    \<Longrightarrow> handshakers_send type (r0, st) w k = (res, (r, st'), w', k')
    \<Longrightarrow> hs_run ops events k0 (ls @ [hs_sent type r]) st' k'"
| hs_recv: "hs_run ops events k0 ls st k \<Longrightarrow> handshakers_recv ops events type frame k = Some (err, k')
    \<Longrightarrow> hs_run ops events k0 (ls @ [hs_received type frame]) st k'"
| hs_discard: "hs_run ops events k0 ls st k \<Longrightarrow> hs_run ops events k0 (ls @ [hs_discarded space]) st (handshakers_discard space k)"
| hs_ack: "hs_run ops events k0 ls st k \<Longrightarrow> hs_run ops events k0 (ls @ [hs_acked a]) (mark_as_ack (Some a) st) k"
| hs_lose: "hs_run ops events k0 ls st k \<Longrightarrow> hs_run ops events k0 (ls @ [hs_lost a]) (mark_as_lost (Some a) st) k"

definition done_received :: "hs_label list \<Rightarrow> bool" where
  "done_received ls \<longleftrightarrow> (\<exists>frame. hs_received OneRTT frame \<in> set ls \<and> type_detail (any_type_field frame) = FT HANDSHAKE_DONE)"

definition done_acked :: "hs_label list \<Rightarrow> bool" where
  "done_acked ls \<longleftrightarrow> (\<exists>r. hs_sent OneRTT (Some r) \<in> set ls \<and> hs_acked r \<in> set ls)"

definition hs_inv :: "bool \<Rightarrow> hs_label list \<Rightarrow> ack_store \<Rightarrow> 't CryptoHandshakers \<Rightarrow> bool" where
  "hs_inv srv ls st k \<longleftrightarrow> hs_is_server k = srv
     \<and> (\<forall>r. hk_wait_for_done k = Some r \<longrightarrow> r < length st \<and> hs_sent OneRTT (Some r) \<in> set ls)
     \<and> (\<forall>a < length st. st ! a = al_ack \<longrightarrow> hs_acked a \<in> set ls)
     \<and> (handshake_done k \<longrightarrow> (if srv then handshake_complete k \<and> done_acked ls else done_received ls))"

text \<open>What an operation leaves alone.\<close>

definition hs_same :: "'t CryptoHandshakers \<Rightarrow> 't CryptoHandshakers \<Rightarrow> bool" where
  "hs_same k k' \<longleftrightarrow> hs_is_server k' = hs_is_server k \<and> handshake_done k' = handshake_done k
     \<and> hk_wait_for_done k' = hk_wait_for_done k \<and> (handshake_complete k \<longrightarrow> handshake_complete k')"

lemma hs_flags_update [simp]:
  "hs_is_server (k\<lparr>hk_tls := t\<rparr>) = hs_is_server k" "hs_is_server (k\<lparr>hk_initial := i\<rparr>) = hs_is_server k"
  "hs_is_server (k\<lparr>hk_handshake := i\<rparr>) = hs_is_server k" "hs_is_server (k\<lparr>hk_one_rtt := h\<rparr>) = hs_is_server k"
  "hs_is_server (k\<lparr>hk_wait_for_done := r\<rparr>) = hs_is_server k" "hs_is_server (k\<lparr>hk_alert_code := b\<rparr>) = hs_is_server k"
  "handshake_complete (k\<lparr>hk_tls := t\<rparr>) = handshake_complete k" "handshake_complete (k\<lparr>hk_initial := i\<rparr>) = handshake_complete k"
  "handshake_complete (k\<lparr>hk_handshake := i\<rparr>) = handshake_complete k" "handshake_complete (k\<lparr>hk_one_rtt := h\<rparr>) = handshake_complete k"
  "handshake_complete (k\<lparr>hk_wait_for_done := r\<rparr>) = handshake_complete k" "handshake_complete (k\<lparr>hk_alert_code := b\<rparr>) = handshake_complete k"
  "handshake_done (k\<lparr>hk_tls := t\<rparr>) = handshake_done k" "handshake_done (k\<lparr>hk_initial := i\<rparr>) = handshake_done k"
  "handshake_done (k\<lparr>hk_handshake := i\<rparr>) = handshake_done k" "handshake_done (k\<lparr>hk_one_rtt := h\<rparr>) = handshake_done k"
  "handshake_done (k\<lparr>hk_wait_for_done := r\<rparr>) = handshake_done k" "handshake_done (k\<lparr>hk_alert_code := b\<rparr>) = handshake_done k"
  by (simp_all add: hs_is_server_def handshake_complete_def handshake_done_def)

lemma hs_same_refl [simp]: "hs_same k k"
  by (simp add: hs_same_def)

lemma hs_same_trans: "hs_same k k' \<Longrightarrow> hs_same k' k'' \<Longrightarrow> hs_same k k''"
  by (simp add: hs_same_def)

lemma qtls_callback_same: "hs_same k (snd (qtls_callback ev k))"
  by (cases ev) (auto simp: hs_same_def set_alert_def add_handshake_data_def split: EncryptionLevel.splits option.splits)

lemma run_callbacks_same: "hs_same k (run_callbacks events k)"
proof -
  have "hs_same k' (fold (\<lambda>ev k. snd (qtls_callback ev k)) evs k')" for evs and k' :: "'a CryptoHandshakers"
    by (induction evs arbitrary: k') (auto intro: hs_same_trans qtls_callback_same)
  then show ?thesis by (auto simp: run_callbacks_def hs_same_def split: prod.splits)
qed

lemma finish_crypto_same: "hs_same k (snd (finish_crypto events err c k))"
  using run_callbacks_same [of k events] by (simp add: finish_crypto_def Let_def hs_same_def)

lemma handshakers_recv_crypto_same: "hs_same k (snd (handshakers_recv_crypto ops events type f k))"
proof -
  have "hs_same k (snd (finish_crypto events err c (k\<lparr>hk_tls := t, hk_initial := i\<rparr>)))"
    "hs_same k (snd (finish_crypto events err c (k\<lparr>hk_tls := t, hk_handshake := i\<rparr>)))"
    "hs_same k (snd (finish_crypto events err c (k\<lparr>hk_tls := t, hk_one_rtt := h\<rparr>)))" for err c t i h
    by (rule hs_same_trans [OF _ finish_crypto_same], simp add: hs_same_def)+
  then show ?thesis
    by (simp add: handshakers_recv_crypto_def recv_at_level_def split: PacketType.splits option.splits prod.splits)
qed

text \<open>The step that writes HANDSHAKE_DONE or notes its acknowledgement, then the stream of the level.\<close>

lemma send_handshake_done_cases:
  assumes "send_handshake_done type obs w k = (res, obs', w', k')"
  obtains "hs_same k k'" "obs' = obs"
  | r where "ah_wait obs = (r, obs')" "k' = k\<lparr>hk_wait_for_done := r\<rparr>" "type = OneRTT"
  | a where "hk_wait_for_done k = Some a" "snd obs ! a = al_ack" "hs_is_server k" "handshake_complete k"
      "k' = set_hs_flag flag_handshake_done (k\<lparr>hk_wait_for_done := None\<rparr>)" "obs' = obs"
proof -
  have "(hs_same k k' \<and> obs' = obs) \<or> (\<exists>r. ah_wait obs = (r, obs') \<and> k' = k\<lparr>hk_wait_for_done := r\<rparr> \<and> type = OneRTT)
     \<or> (\<exists>a. hk_wait_for_done k = Some a \<and> snd obs ! a = al_ack \<and> hs_is_server k \<and> handshake_complete k
          \<and> k' = set_hs_flag flag_handshake_done (k\<lparr>hk_wait_for_done := None\<rparr>) \<and> obs' = obs)"
    using assms by (auto simp: send_handshake_done_def ah_is_ack_def ah_confirm_def split: prod.splits if_splits option.splits)
  then show ?thesis using that by blast
qed

lemma handshakers_send_stages:
  assumes "handshakers_send type obs w k = (res, obs', w', k')"
  obtains o1 r1 w1 k1 where "send_handshake_done type obs w k = (r1, o1, w1, k1)" "hs_same k1 k'" "obs_fresh o1 obs'"
proof -
  obtain r1 o1 w1 k1 where d: "send_handshake_done type obs w k = (r1, o1, w1, k1)" by (metis surj_pair)
  have "hs_same k1 k' \<and> obs_fresh o1 obs'"
    using assms d crypto_send_fresh unfolding handshakers_send_def
    by (auto simp: hs_same_def split: option.splits PacketType.splits prod.splits)
  then show ?thesis using d that by blast
qed

lemma done_mono: "done_received ls \<Longrightarrow> done_received (ls @ ms)" "done_acked ls \<Longrightarrow> done_acked (ls @ ms)"
  by (auto simp: done_received_def done_acked_def)

lemma hs_inv_same:
  assumes "hs_inv srv ls st k" "hs_same k k'" "length st \<le> length st'"
    and "\<And>a. a < length st' \<Longrightarrow> st' ! a = al_ack \<Longrightarrow> (a < length st \<and> st ! a = al_ack) \<or> hs_acked a \<in> set ms"
  shows "hs_inv srv (ls @ ms) st' k'"
  using assms done_mono by (fastforce simp: hs_inv_def hs_same_def)

lemma send_handshake_done_inv:
  assumes "hs_inv srv ls st k" "r0 = None \<or> the r0 < length st"
    and "send_handshake_done type (r0, st) w k = (res, o1, w1, k1)" "obs_fresh o1 (r, st')"
  shows "hs_inv srv (ls @ [hs_sent type r]) (snd o1) k1"
  using assms(3)
proof (cases rule: send_handshake_done_cases)
  case 1
  then show ?thesis using assms(1) by (auto intro: hs_inv_same)
next
  case (2 r1)
  have "obs_fresh (r0, st) o1" using ah_wait_fresh [OF 2(1)] .
  moreover have "\<exists>a. r1 = Some a \<and> fst o1 = r1 \<and> a < length (snd o1)"
    using 2(1) assms(2) by (auto simp: ah_wait_def recorder_record_def make_ack_wait_def split: option.splits)
  ultimately show ?thesis
    using assms(1,4) 2(2,3) obs_fresh_ack [of "(r0, st)" o1] done_mono by (fastforce simp: hs_inv_def obs_fresh_def)
next
  case (3 a)
  then have "done_acked ls" using assms(1) by (auto simp: hs_inv_def done_acked_def)
  then show ?thesis using assms(1) 3 done_mono by (auto simp: hs_inv_def)
qed

lemma hs_run_inv:
  assumes "hs_run ops events (handshakers_reset t srv) ls st k"
  shows "hs_inv srv ls st k"
  using assms
proof induction
  case hs_start
  show ?case
    by (simp add: hs_inv_def handshakers_reset_def hs_is_server_def handshake_done_def hs_flags)
next
  case (hs_send ls st k r0 type w res r st' w' k')
  from hs_send.hyps(3) obtain r1 o1 w1 k1 where d: "send_handshake_done type (r0, st) w k = (r1, o1, w1, k1)"
    and "hs_same k1 k'" "obs_fresh o1 (r, st')" by (rule handshakers_send_stages)
  moreover have "hs_inv srv (ls @ [hs_sent type r]) (snd o1) k1"
    by (rule send_handshake_done_inv [OF hs_send.IH hs_send.hyps(2) d \<open>obs_fresh o1 (r, st')\<close>])
  ultimately show ?case
    using hs_inv_same [of srv "ls @ [hs_sent type r]" "snd o1" k1 k' st' "[]"] obs_fresh_ack [of o1 "(r, st')"]
      obs_fresh_length [of o1 "(r, st')"] by auto
next
  case (hs_recv ls st k type frame err k')
  consider "hs_same k k'" | "k' = set_hs_flag flag_handshake_done k" "\<not> hs_is_server k" "type = OneRTT"
      "type_detail (any_type_field frame) = FT HANDSHAKE_DONE"
    using hs_recv.hyps(2) handshakers_recv_crypto_same [of k ops events type]
    by (auto simp: handshakers_recv_def recv_handshake_done_def split: if_splits any_frame.splits) (metis snd_conv)
  then show ?case
  proof cases
    case 1
    then show ?thesis using hs_recv.IH by (auto intro: hs_inv_same)
  next
    case 2
    then show ?thesis using hs_recv.IH by (auto simp: hs_inv_def done_received_def)
  qed
next
  case (hs_discard ls st k space)
  have "hs_same k (handshakers_discard space k)" by (simp add: handshakers_discard_def hs_same_def)
  then show ?case using hs_discard.IH by (auto intro: hs_inv_same)
next
  case (hs_ack ls st k a)
  then show ?case by (auto intro!: hs_inv_same simp: mark_as_ack_def nth_list_update split: if_splits)
next
  case (hs_lose ls st k a)
  have "st ! b = al_ack" if "b < length st" "st[a := al_lost] ! b = al_ack" for b using that by (cases "a = b") auto
  then show ?case using hs_lose.IH by (auto intro!: hs_inv_same simp: mark_as_lost_def)
qed

section \<open>Properties\<close>

text \<open>
  C11. Handshake done means that the peer said so: whatever packets are sent, frames received
  and packets acknowledged or lost, a client holds the handshake for done only when a
  HANDSHAKE_DONE frame came in a 1-RTT packet, and a server only when the handshake is
  complete and a 1-RTT packet it sent was acknowledged.
\<close>

theorem handshake_done_by_peer:
  assumes "hs_run ops events (handshakers_reset t srv) ls st k" and "handshake_done k"
  shows "if srv then handshake_complete k \<and> done_acked ls else done_received ls"
  using hs_run_inv [OF assms(1)] assms(2) by (simp add: hs_inv_def)

text \<open>A client receives HANDSHAKE_DONE.\<close>

theorem handshake_done_by_peer_witness:
  "\<exists>k. hs_run tls_log (\<lambda>t. ([], t)) (handshakers_reset [] False) [hs_received OneRTT (HandshakeDoneF \<lparr>f_type = FrameFlags_of (FT HANDSHAKE_DONE)\<rparr>)] [] k
     \<and> handshake_done k \<and> done_received [hs_received OneRTT (HandshakeDoneF \<lparr>f_type = FrameFlags_of (FT HANDSHAKE_DONE)\<rparr>)]"
proof -
  let ?frame = "HandshakeDoneF \<lparr>f_type = FrameFlags_of (FT HANDSHAKE_DONE)\<rparr>"
  let ?start = "handshakers_reset [] False :: byte list CryptoHandshakers" let ?k = "set_hs_flag flag_handshake_done ?start"
  have "handshakers_recv tls_log (\<lambda>t. ([], t)) OneRTT ?frame ?start = Some (error_none, ?k)"
    by (simp add: handshakers_recv_def recv_handshake_done_def type_detail_def FrameFlags_of_def FT.simps
        hs_is_server_def handshakers_reset_def)
  then have "hs_run tls_log (\<lambda>t. ([], t)) ?start ([] @ [hs_received OneRTT ?frame]) [] ?k"
    by (rule hs_recv [OF hs_start])
  then show ?thesis using handshake_done_by_peer [of tls_log "\<lambda>t. ([], t)" "[]" False "[hs_received OneRTT ?frame]" "[]" ?k] by auto
qed

end
