(* ===== verification/Spec2Isabelle.thy ===== *)
theory Spec2Isabelle
  imports Prelude Binary Varint PacketNumber QuicTypes FrameBase Frames FlagFrames FitSize AckFrame FrameParse Flags StreamId StreamState FrameWriter ConnBase StreamBase QuicTime
    RecvHistory Resend SendStream ConnFlow CryptoStream Handshake
begin

text \<open>
  A verification development of the QUIC core of the C++ library \<^verbatim>\<open>futils\<close>.
\<close>

end
